(* ===== verification/Torque_Base.thy ===== *)
theory Torque_Base
  imports Main "HOL-Library.Word"
begin

text \<open>
  Prelude of the development: the C integer types at their widths, characters as the code reads
  them (\<open>char\<close> is signed on the platforms TORQUE runs on), decimal numerals as strings, and
  \<open>memcmp\<close>. The lemmas about decimal strings are shared by the Data-is-Strings codec and by the
  attribute decoders.
\<close>

section \<open>Collections and types\<close>

named_theorems chan_simps \<open>effect of the channel primitives on the abstract view of a channel\<close>
named_theorems dec_simps \<open>decimal numerals\<close>
named_theorems slot_simps \<open>execution slot tracker\<close>

type_synonym c_uint = "32 word"
type_synonym c_int = "32 word"
type_synonym c_ulong = "64 word"
type_synonym c_long = "64 word"

text \<open>
  The return codes of \<^verbatim>\<open>include/pbs_error_db.h\<close> that the modelled code produces or tests.
\<close>

datatype pbse =
    PBSE_NONE | PBSE_UNKJOBID | PBSE_BADATVAL | PBSE_SYSTEM | PBSE_INTERNAL | PBSE_TIMEOUT
  | PBSE_MEM_MALLOC | PBSE_SOCKET_READ | PBSE_SOCKET_CLOSE | PBSE_UNKREQ | PBSE_DISPROTO | PBSE_RMSYSTEM
  | PBSE_PROTOCOL | PBSE_IVALREQ | PBSE_BAD_PARAMETER | PBSE_EOF | PBSE_UNKNODE | PBSE_UNKQUE | PBSE_GHOSTQUEUE
  | PBSE_JOB_RECYCLED | PBSE_MAXQUED | PBSE_MAXUSERQUED | PBSE_JOBNOTFOUND | PBSE_BADSTATE | PBSE_JOB_NOT_IN_QUEUE
  | PBSE_BAD_JOB_STATE_TRANSITION | PBSE_BADDEPEND | PBSE_DUPLIST | ENOMEM | THING_NOT_FOUND | ALREADY_IN_LIST | PBSE_OTHER int

text \<open>The sizes of \<^verbatim>\<open>include/pbs_ifl.h\<close>, without \<open>USE_MAXINT_JOBIDS\<close>.\<close>

definition PBS_MAXHOSTNAME :: nat where "PBS_MAXHOSTNAME = 1024"
definition PBS_MAXUSER :: nat where "PBS_MAXUSER = 32"
definition PBS_MAXGRPN :: nat where "PBS_MAXGRPN = 16"
definition PBS_MAXGPUID :: nat where "PBS_MAXGPUID = 16"
definition PBS_MAXSERVERNAME :: nat where "PBS_MAXSERVERNAME = PBS_MAXHOSTNAME"
definition PBS_MAXJOBARRAYLEN :: nat where "PBS_MAXJOBARRAYLEN = 7"
definition PBS_MAXSEQNUM :: nat where "PBS_MAXSEQNUM = 8"
definition PBS_MAXPORTNUM :: nat where "PBS_MAXPORTNUM = 5"
definition PBS_MAXSVRJOBID :: nat where
  "PBS_MAXSVRJOBID = PBS_MAXSEQNUM + PBS_MAXSERVERNAME + PBS_MAXPORTNUM + PBS_MAXJOBARRAYLEN + 2"
definition PBS_MAXCLTJOBID :: nat where
  "PBS_MAXCLTJOBID = PBS_MAXSVRJOBID + PBS_MAXSERVERNAME + PBS_MAXPORTNUM + PBS_MAXJOBARRAYLEN + 2"
definition PBS_MAXDEST :: nat where "PBS_MAXDEST = 1024"
definition PBS_SIGNAMESZ :: nat where "PBS_SIGNAMESZ = 16"
definition PBS_MAXCREDENTIAL_LEN :: nat where "PBS_MAXCREDENTIAL_LEN = 2048"

abbreviation NUL :: char where "NUL \<equiv> CHR 0x00"

text \<open>The value a \<open>char\<close> has after the usual promotion to \<open>int\<close>.\<close>

definition schar :: "char \<Rightarrow> int" where
  "schar c = (let n = (of_char c :: int) in if 128 \<le> n then n - 256 else n)"

section \<open>Decimal digits\<close>

definition digit_char :: "nat \<Rightarrow> char" where
  "digit_char n = char_of (48 + n)"

definition is_digit :: "char \<Rightarrow> bool" where
  "is_digit c \<longleftrightarrow> 48 \<le> (of_char c :: nat) \<and> (of_char c :: nat) \<le> 57"

definition digit_val :: "char \<Rightarrow> nat" where
  "digit_val c = (of_char c :: nat) - 48"

lemma of_char_digit_char [simp]: "n < 10 \<Longrightarrow> (of_char (digit_char n) :: nat) = 48 + n"
  by (simp add: digit_char_def)

lemma digit_chars [dec_simps]:
  "digit_char 0 = CHR ''0''" "digit_char 1 = CHR ''1''" "digit_char 2 = CHR ''2''" "digit_char 3 = CHR ''3''" "digit_char 4 = CHR ''4''" "digit_char 5 = CHR ''5''" "digit_char 6 = CHR ''6''" "digit_char 7 = CHR ''7''" "digit_char 8 = CHR ''8''" "digit_char 9 = CHR ''9''"
  by code_simp+

lemma digit_chars_Suc [dec_simps]:
  "digit_char (Suc 0) = CHR ''1''"
  "digit_char (Suc (Suc 0)) = CHR ''2''"
  "digit_char (Suc (Suc (Suc 0))) = CHR ''3''"
  "digit_char (Suc (Suc (Suc (Suc 0)))) = CHR ''4''"
  "digit_char (Suc (Suc (Suc (Suc (Suc 0))))) = CHR ''5''"
  "digit_char (Suc (Suc (Suc (Suc (Suc (Suc 0)))))) = CHR ''6''"
  "digit_char (Suc (Suc (Suc (Suc (Suc (Suc (Suc 0))))))) = CHR ''7''"
  "digit_char (Suc (Suc (Suc (Suc (Suc (Suc (Suc (Suc 0)))))))) = CHR ''8''"
  "digit_char (Suc (Suc (Suc (Suc (Suc (Suc (Suc (Suc (Suc 0))))))))) = CHR ''9''"
  by code_simp+

lemma digit_val_digit_char [simp]: "n < 10 \<Longrightarrow> digit_val (digit_char n) = n"
  by (simp add: digit_val_def)

lemma is_digit_digit_char [simp]: "n < 10 \<Longrightarrow> is_digit (digit_char n)"
  by (simp add: is_digit_def)

lemma digit_char_inj [simp]: "m < 10 \<Longrightarrow> n < 10 \<Longrightarrow> digit_char m = digit_char n \<longleftrightarrow> m = n"
  by (metis digit_val_digit_char)

lemma digit_val_less [simp]: "is_digit c \<Longrightarrow> digit_val c < 10"
  by (auto simp: is_digit_def digit_val_def)

lemma digit_char_digit_val [simp]: "is_digit c \<Longrightarrow> digit_char (digit_val c) = c"
  by (simp add: is_digit_def digit_val_def digit_char_def)

lemma schar_nat:
  "schar c = (if 128 \<le> (of_char c :: nat) then int (of_char c) - 256 else int (of_char c))"
proof -
  have "(of_char c :: int) = int (of_char c)" by (simp only: of_nat_of_char)
  then show ?thesis unfolding schar_def Let_def by auto
qed

lemma schar_digit: "is_digit c \<Longrightarrow> schar c = int (48 + digit_val c)"
  by (auto simp: is_digit_def digit_val_def schar_nat)

lemma schar_range: "- 128 \<le> schar c \<and> schar c \<le> 127"
  using nat_of_char_less_256 [of c] by (auto simp: schar_nat simp del: nat_of_char_less_256)

lemma is_digit_schar: "is_digit c \<longleftrightarrow> 48 \<le> schar c \<and> schar c \<le> 57"
  using nat_of_char_less_256 [of c] by (auto simp: is_digit_def schar_nat simp del: nat_of_char_less_256)

lemma schar_inj [simp]: "schar c = schar d \<longleftrightarrow> c = d"
proof
  assume "schar c = schar d"
  then have "(of_char c :: nat) = of_char d"
    using nat_of_char_less_256 [of c] nat_of_char_less_256 [of d]
    by (auto simp: schar_nat simp del: nat_of_char_less_256 of_char_eq_iff split: if_splits)
  then show "c = d" by simp
qed simp

lemma is_digit_not_nul: "is_digit c \<Longrightarrow> c \<noteq> NUL"
  by (auto simp: is_digit_def)

section \<open>Decimal numerals\<close>

text \<open>The reference printing of a number, and the value of a string of digits.\<close>

fun dec :: "nat \<Rightarrow> char list" where
  "dec n = (if n < 10 then [digit_char n] else dec (n div 10) @ [digit_char (n mod 10)])"

declare dec.simps [simp del]

definition dval_from :: "nat \<Rightarrow> char list \<Rightarrow> nat" where
  "dval_from a s = foldl (\<lambda>a c. 10 * a + digit_val c) a s"

abbreviation dval :: "char list \<Rightarrow> nat" where
  "dval \<equiv> dval_from 0"

lemma dval_from_Nil [simp]: "dval_from a [] = a"
  and dval_from_Cons [simp]: "dval_from a (c # s) = dval_from (10 * a + digit_val c) s"
  by (simp_all add: dval_from_def)

lemma dval_from_append: "dval_from a (s @ t) = dval_from (dval_from a s) t"
  by (simp add: dval_from_def)

lemma dval_from_split: "dval_from a s = a * 10 ^ length s + dval s"
proof (induction s arbitrary: a)
  case (Cons c s)
  have "dval_from a (c # s) = (10 * a + digit_val c) * 10 ^ length s + dval s"
    using Cons.IH [of "10 * a + digit_val c"] by (simp only: dval_from_Cons)
  moreover have "dval (c # s) = digit_val c * 10 ^ length s + dval s"
    using Cons.IH [of "digit_val c"] by simp
  ultimately show ?case by (simp only: algebra_simps length_Cons power_Suc)
qed simp

lemma dec_small [dec_simps]: "n < 10 \<Longrightarrow> dec n = [digit_char n]"
  by (simp add: dec.simps)

lemma dec_step [dec_simps]: "10 \<le> n \<Longrightarrow> dec n = dec (n div 10) @ [digit_char (n mod 10)]"
  by (simp add: dec.simps)

lemma dec_not_Nil [simp]: "dec n \<noteq> []"
  by (subst dec.simps) simp

lemma length_dec_pos [simp]: "0 < length (dec n)"
  by simp

lemma dval_dec [simp]: "dval (dec n) = n"
proof (induction n rule: dec.induct)
  case (1 n)
  then show ?case
    by (cases "n < 10") (simp_all add: dec_small dec_step dval_from_append)
qed

lemma dec_digits: "c \<in> set (dec n) \<Longrightarrow> is_digit c"
proof (induction n rule: dec.induct)
  case (1 n)
  then show ?case
    by (cases "n < 10") (auto simp: dec_small dec_step)
qed

lemma dec_nul_free [simp]: "NUL \<notin> set (dec n)"
  using dec_digits is_digit_not_nul by blast

lemma dec_inj [simp]: "dec m = dec n \<longleftrightarrow> m = n"
  by (metis dval_dec)

lemma dval_bound: "(\<And>c. c \<in> set s \<Longrightarrow> is_digit c) \<Longrightarrow> dval s < 10 ^ length s"
proof (induction s)
  case (Cons c s)
  have d: "digit_val c \<le> 9" using digit_val_less [OF Cons.prems [of c]] by simp
  have "digit_val c * 10 ^ length s \<le> 9 * 10 ^ length s"
    by (rule mult_right_mono [OF d]) simp
  moreover have "dval s < 10 ^ length s" using Cons by simp
  ultimately have "digit_val c * 10 ^ length s + dval s < 10 * 10 ^ length s" by linarith
  then show ?case by (simp add: dval_from_split [of "digit_val c" s])
qed simp

lemma dec_upper: "n < 10 ^ length (dec n)"
  using dval_bound [of "dec n"] dec_digits by simp

lemma dec_lower: "0 < n \<Longrightarrow> 10 ^ (length (dec n) - 1) \<le> n"
proof (induction n rule: dec.induct)
  case (1 n)
  show ?case
  proof (cases "n < 10")
    case True
    with "1.prems" show ?thesis by (simp add: dec_small)
  next
    case False
    then have "10 ^ (length (dec (n div 10)) - 1) \<le> n div 10"
      using "1.IH" by simp
    then have "10 * 10 ^ (length (dec (n div 10)) - 1) \<le> n"
      by linarith
    moreover have "(10::nat) ^ length (dec (n div 10)) = 10 * 10 ^ (length (dec (n div 10)) - 1)"
      by (cases "dec (n div 10)") simp_all
    ultimately have "10 ^ length (dec (n div 10)) \<le> n" by (simp only:)
    then show ?thesis using False by (simp add: dec_step)
  qed
qed

lemma length_dec_le: "0 < k \<Longrightarrow> n < 10 ^ k \<Longrightarrow> length (dec n) \<le> k"
proof (rule ccontr)
  assume k: "0 < k" and n: "n < 10 ^ k" and "\<not> length (dec n) \<le> k"
  then have len: "k \<le> length (dec n) - 1" by simp
  have "0 < n"
  proof (rule ccontr)
    assume "\<not> 0 < n"
    then show False using len k by (simp add: dec.simps)
  qed
  then have "10 ^ (length (dec n) - 1) \<le> n" by (rule dec_lower)
  moreover have "(10::nat) ^ k \<le> 10 ^ (length (dec n) - 1)"
    using len by (intro power_increasing) simp_all
  ultimately show False using n by linarith
qed

text \<open>The count of digits is smaller than the number, from 2 on: the count prefixes shrink.\<close>

lemma length_dec_less: "1 < n \<Longrightarrow> length (dec n) < n"
proof (induction n rule: dec.induct)
  case (1 n)
  show ?case
  proof (cases "n < 10")
    case True
    with "1.prems" show ?thesis by (simp add: dec_small)
  next
    case False
    show ?thesis
    proof (cases "1 < n div 10")
      case True
      with "1.IH" False have "length (dec (n div 10)) < n div 10" by simp
      with False show ?thesis by (simp add: dec_step)
    next
      case small: False
      with False have "n div 10 = 1" by linarith
      with False show ?thesis by (simp add: dec_step dec_small)
    qed
  qed
qed

lemma hd_dec_nonzero: "0 < n \<Longrightarrow> hd (dec n) \<noteq> CHR ''0''"
proof (induction n rule: dec.induct)
  case (1 n)
  show ?case
  proof (cases "n < 10")
    case True
    have "digit_char n \<noteq> digit_char 0" using "1.prems" True by simp
    moreover have "digit_char 0 = CHR ''0''" by code_simp
    ultimately show ?thesis using True by (simp add: dec_small)
  next
    case False
    with "1.IH" show ?thesis by (simp add: dec_step)
  qed
qed

section \<open>memcmp\<close>

fun memcmp :: "char list \<Rightarrow> char list \<Rightarrow> int" where
  "memcmp (a # as) (b # bs) =
     (if a = b then memcmp as bs
      else if (of_char a :: nat) < of_char b then - 1 else 1)"
| "memcmp _ _ = 0"

text \<open>On digit strings of one length, \<open>memcmp\<close> compares the numbers.\<close>

lemma memcmp_digits:
  assumes "length s = length t"
    and "\<And>c. c \<in> set s \<Longrightarrow> is_digit c" and "\<And>c. c \<in> set t \<Longrightarrow> is_digit c"
  shows "memcmp s t > 0 \<longleftrightarrow> dval t < dval s"
  using assms
proof (induction s t rule: list_induct2)
  case (Cons a s b t)
  have ds: "dval (a # s) = digit_val a * 10 ^ length s + dval s"
    and dt: "dval (b # t) = digit_val b * 10 ^ length s + dval t"
    using Cons.hyps dval_from_split [of "digit_val a" s] dval_from_split [of "digit_val b" t] by simp_all
  have bs: "dval s < 10 ^ length s" using Cons.prems by (intro dval_bound) auto
  have bt: "dval t < 10 ^ length s" unfolding Cons.hyps using Cons.prems by (intro dval_bound) auto
  have dig: "is_digit a" "is_digit b" using Cons.prems by auto
  show ?case
  proof (cases "a = b")
    case True
    then show ?thesis using Cons.IH Cons.prems ds dt by simp
  next
    case False
    then have ne: "digit_val a \<noteq> digit_val b"
      using dig digit_char_digit_val by metis
    have less: "(of_char a :: nat) < of_char b \<longleftrightarrow> digit_val a < digit_val b"
      using dig by (auto simp: is_digit_def digit_val_def)
    show ?thesis
    proof (cases "digit_val a < digit_val b")
      case True
      then have "(digit_val a + 1) * 10 ^ length s \<le> digit_val b * 10 ^ length s"
        by (intro mult_right_mono) simp_all
      then have "dval (a # s) < dval (b # t)" unfolding ds dt using bs by simp
      with True less False show ?thesis by simp
    next
      case gt: False
      with ne have "(digit_val b + 1) * 10 ^ length s \<le> digit_val a * 10 ^ length s"
        by (intro mult_right_mono) simp_all
      then have "dval (b # t) < dval (a # s)" unfolding ds dt using bt by simp
      with gt less False show ?thesis by simp
    qed
  qed
qed simp

section \<open>Lists of bytes\<close>

text \<open>
  Reading \<open>n\<close> bytes at an offset of a zero-filled block of which the first \<open>length b\<close> bytes have
  been written.
\<close>

definition buf_slice :: "char list \<Rightarrow> nat \<Rightarrow> nat \<Rightarrow> char list" where
  "buf_slice b start n = take n (drop start b @ replicate n NUL)"

definition cstring :: "char list \<Rightarrow> char list" where
  "cstring b = takeWhile (\<lambda>c. c \<noteq> NUL) b"

lemma length_buf_slice [simp]: "length (buf_slice b s n) = n"
  by (simp add: buf_slice_def)

lemma buf_slice_inside: "s + n \<le> length b \<Longrightarrow> buf_slice b s n = take n (drop s b)"
  by (simp add: buf_slice_def)

lemma cstring_nul_free [simp]: "NUL \<notin> set b \<Longrightarrow> cstring b = b"
  by (auto simp: cstring_def takeWhile_eq_all_conv)

lemma cstring_prefix:
  assumes "NUL \<notin> set (take n b)" and "n \<le> length b" and "n < length b \<Longrightarrow> b ! n = NUL"
  shows "cstring b = take n b"
proof (cases "n < length b")
  case True
  then have "b = take n b @ NUL # drop (Suc n) b"
    using assms(3) id_take_nth_drop [OF True] by simp
  then have "cstring b = takeWhile (\<lambda>c. c \<noteq> NUL) (take n b @ NUL # drop (Suc n) b)"
    by (simp add: cstring_def)
  also have "\<dots> = take n b"
    using assms(1) by (subst takeWhile_append2) auto
  finally show ?thesis .
next
  case False
  then show ?thesis using assms(1,2) by simp
qed

end
