(* ===== verification/Tcp_Chan.thy ===== *)
theory Tcp_Chan
  imports Torque_Base
begin

text \<open>
  The buffered TCP channel under the Data-is-Strings codec: \<^verbatim>\<open>src/include/tcp.h\<close> and
  \<^verbatim>\<open>src/lib/Libifl/tcp_dis.c\<close>.

  Pointers into a buffer are offsets from \<open>tdis_thebuf\<close>. The block itself is allocated zero-filled;
  \<open>tdis_thebuf\<close> is the prefix of it that has been written so far. What the operating system does is
  part of the state: \<open>sock_in\<close> lists the results of the coming calls of \<open>socket_read\<close>
  (\<^verbatim>\<open>Libnet/net_common.c\<close>), which time out once the list is used up; \<open>sock_wr\<close> lists the outcomes of
  the coming calls of \<open>write_ac_socket\<close>, which write everything once it is used up; \<open>sock_out\<close>
  collects what was written; \<open>heap_ok n\<close> says whether \<open>calloc(1, n)\<close> succeeds. Messages to the log
  are left out.

  The abstract view of the read side is a pair of byte strings: what has been read since the last
  commit (\<open>uncommitted\<close>) and what is still to come (\<open>pending\<close>). The view of the write side is the
  bytes written and not yet flushed (\<open>wdata\<close>).
\<close>

section \<open>State\<close>

text \<open>The ways \<open>socket_read\<close> fails, and the code it returns for each.\<close>

datatype sock_err = SE_TIMEOUT | SE_READ | SE_CLOSE | SE_MEM

fun sock_err_rc :: "sock_err \<Rightarrow> pbse" where
  "sock_err_rc SE_TIMEOUT = PBSE_TIMEOUT"
| "sock_err_rc SE_READ = PBSE_SOCKET_READ"
| "sock_err_rc SE_CLOSE = PBSE_SOCKET_CLOSE"
| "sock_err_rc SE_MEM = PBSE_MEM_MALLOC"

lemma sock_err_rc_not_none [simp]: "sock_err_rc e \<noteq> PBSE_NONE"
  by (cases e) simp_all

datatype sock_result = Sock_Data "char list" | Sock_Err sock_err

datatype sock_write = Wrote nat | Wr_EINTR | Wr_Fail

record tcpdisbuf =
  tdis_bufsize :: nat
  tdis_leadp :: nat
  tdis_trailp :: nat
  tdis_eod :: nat
  tdis_thebuf :: "char list"

record tcp_chan =
  readbuf :: tcpdisbuf
  writebuf :: tcpdisbuf
  IsTimeout :: bool
  ReadErrno :: pbse
  SelectErrno :: pbse
  sock :: int
  reused :: bool
  sock_in :: "sock_result list"
  sock_wr :: "sock_write list"
  sock_out :: "char list"
  heap_ok :: "nat \<Rightarrow> bool"

definition THE_BUF_SIZE :: nat where
  "THE_BUF_SIZE = 262144"

section \<open>Operations\<close>

definition tcp_pack_buff :: "tcpdisbuf \<Rightarrow> tcpdisbuf" where
  "tcp_pack_buff tp =
     (let start = tdis_trailp tp in
      if start \<noteq> 0 then
        (let amt = tdis_eod tp - tdis_trailp tp in
         tp\<lparr>tdis_thebuf := buf_slice (tdis_thebuf tp) start amt @ NUL # drop (Suc amt) (tdis_thebuf tp),
            tdis_leadp := tdis_leadp tp - start,
            tdis_trailp := tdis_trailp tp - start,
            tdis_eod := tdis_eod tp - start\<rparr>)
      else tp)"

text \<open>The outcome of the next call of \<open>socket_read\<close>, which is the peer's doing; when the list is exhausted the call times out.\<close>

definition sock_next :: "tcp_chan \<Rightarrow> sock_result \<times> tcp_chan" where
  "sock_next chan =
     (case sock_in chan of
        [] \<Rightarrow> (Sock_Err SE_TIMEOUT, chan)
      | r # rs \<Rightarrow> (r, chan\<lparr>sock_in := rs\<rparr>))"

text \<open>
  Storing \<open>n\<close> bytes at offset \<open>p\<close>; when \<open>p\<close> lies past the written prefix the gap is the zeros of
  the fresh block.
\<close>

definition buf_store :: "char list \<Rightarrow> nat \<Rightarrow> char list \<Rightarrow> char list" where
  "buf_store b p s = buf_slice b 0 p @ s @ drop (p + length s) b"

text \<open>
  \<open>tcp_read\<close> returns the code, the new value of \<open>*read_len\<close> (left alone on an error), the new value
  of \<open>*avail_len\<close> and the channel.
\<close>

definition tcp_read :: "tcp_chan \<Rightarrow> nat \<Rightarrow> nat \<Rightarrow> pbse \<times> nat \<times> nat \<times> tcp_chan" where
  "tcp_read chan0 read_len avail_len =
     (let tp = tcp_pack_buff (readbuf chan0);
          chan1 = chan0\<lparr>readbuf := tp, IsTimeout := False, SelectErrno := PBSE_NONE,
                        ReadErrno := PBSE_NONE\<rparr>;
          tdis_buf_len = tdis_bufsize tp;
          max_read_len = int (tdis_bufsize tp) - int (tdis_eod tp);
          (res, chan) = sock_next chan1
      in case res of
           Sock_Err e \<Rightarrow>
             (let rc = sock_err_rc e in
              (rc, read_len, avail_len,
               (if rc = PBSE_TIMEOUT then chan\<lparr>IsTimeout := True\<rparr>
                else chan\<lparr>SelectErrno := rc, ReadErrno := rc\<rparr>)))
         | Sock_Data new_data \<Rightarrow>
             (let n = length new_data in
              if int n < max_read_len then
                (let tp' = tp\<lparr>tdis_thebuf := buf_store (tdis_thebuf tp) (tdis_eod tp) (new_data @ [NUL]),
                              tdis_eod := tdis_eod tp + n\<rparr>
                 in (PBSE_NONE, n, tdis_eod tp' - tdis_leadp tp', chan\<lparr>readbuf := tp'\<rparr>))
              else
                (let newsize = (tdis_buf_len + n) * 2 in
                 if \<not> heap_ok chan (newsize + 1) then (PBSE_MEM_MALLOC, n, avail_len, chan)
                 else
                   (let tp' = tp\<lparr>tdis_thebuf :=
                                    take (newsize - 1) (cstring (tdis_thebuf tp) @ cstring new_data),
                                 tdis_bufsize := newsize,
                                 tdis_eod := tdis_eod tp + n\<rparr>
                    in (PBSE_NONE, n, tdis_eod tp' - tdis_leadp tp', chan\<lparr>readbuf := tp'\<rparr>)))))"

text \<open>\<open>tcp_gets\<close>: the loop reads until enough bytes are buffered; each turn uses up one socket result.\<close>

lemma tcp_read_ok_consumes:
  "tcp_read chan rl al = (PBSE_NONE, rl', al', chan') \<Longrightarrow> length (sock_in chan') < length (sock_in chan)"
  by (auto simp: tcp_read_def sock_next_def Let_def split: list.splits sock_result.splits if_splits)

function tcp_fill :: "tcp_chan \<Rightarrow> nat \<Rightarrow> nat \<Rightarrow> nat \<Rightarrow> int \<times> tcp_chan" where
  "tcp_fill chan ct data_read data_avail =
     (if data_avail < ct then
        (case tcp_read chan data_read data_avail of
           (rc, data_read', data_avail', chan') \<Rightarrow>
             if rc \<noteq> PBSE_NONE then (if data_read' = 0 then - 2 else - 1, chan')
             else tcp_fill chan' ct data_read' data_avail')
      else (0, chan))"
  by pat_completeness auto
termination
  by (relation "measure (\<lambda>(chan, ct, dr, da). length (sock_in chan))")
    (auto dest: tcp_read_ok_consumes [OF sym])

declare tcp_fill.simps [simp del]

definition tcp_gets :: "tcp_chan \<Rightarrow> nat \<Rightarrow> int \<times> char list \<times> tcp_chan" where
  "tcp_gets chan ct =
     (case tcp_fill chan ct 0 (tdis_eod (readbuf chan) - tdis_leadp (readbuf chan)) of
        (rc, chan') \<Rightarrow>
          if rc < 0 then (rc, [], chan')
          else (let tp = readbuf chan' in
                (int ct, buf_slice (tdis_thebuf tp) (tdis_leadp tp) ct,
                 chan'\<lparr>readbuf := tp\<lparr>tdis_leadp := tdis_leadp tp + ct\<rparr>\<rparr>)))"

definition tcp_getc :: "tcp_chan \<Rightarrow> int \<times> tcp_chan" where
  "tcp_getc chan =
     (case tcp_gets chan 1 of
        (rc, s, chan') \<Rightarrow> if rc < 0 then (rc, chan') else (schar (hd s), chan'))"

definition tcp_puts :: "tcp_chan \<Rightarrow> char list \<Rightarrow> int \<times> tcp_chan" where
  "tcp_puts chan str =
     (let tp = writebuf chan; ct = length str in
      if tdis_bufsize tp = 0 then (- 1, chan)
      else if int (tdis_bufsize tp) - int (tdis_leadp tp) < int ct then
        (let newbufsize = tdis_bufsize tp + THE_BUF_SIZE + ct * 2 in
         if \<not> heap_ok chan (newbufsize + 1) then (- 1, chan)
         else
           (let tp' = tp\<lparr>tdis_thebuf := buf_store (take (tdis_bufsize tp) (tdis_thebuf tp)) (tdis_leadp tp) str,
                         tdis_bufsize := newbufsize,
                         tdis_eod := newbufsize,
                         tdis_leadp := tdis_leadp tp + ct\<rparr>
            in (int ct, chan\<lparr>writebuf := tp'\<rparr>)))
      else
        (let tp' = tp\<lparr>tdis_thebuf := buf_store (tdis_thebuf tp) (tdis_leadp tp) str,
                      tdis_leadp := tdis_leadp tp + ct\<rparr>
         in (int ct, chan\<lparr>writebuf := tp'\<rparr>)))"

definition tcp_rcommit :: "tcp_chan \<Rightarrow> bool \<Rightarrow> int \<times> tcp_chan" where
  "tcp_rcommit chan commit_flag =
     (let tp = readbuf chan in
      if commit_flag then (0, chan\<lparr>readbuf := tp\<lparr>tdis_trailp := tdis_leadp tp\<rparr>\<rparr>)
      else (0, chan\<lparr>readbuf := tp\<lparr>tdis_leadp := tdis_trailp tp\<rparr>\<rparr>))"

definition tcp_wcommit :: "tcp_chan \<Rightarrow> bool \<Rightarrow> int \<times> tcp_chan" where
  "tcp_wcommit chan commit_flag =
     (let tp = writebuf chan in
      if commit_flag then (0, chan\<lparr>writebuf := tp\<lparr>tdis_trailp := tdis_leadp tp\<rparr>\<rparr>)
      else (0, chan\<lparr>writebuf := tp\<lparr>tdis_leadp := tdis_trailp tp\<rparr>\<rparr>))"

definition tcp_rskip :: "tcp_chan \<Rightarrow> nat \<Rightarrow> int \<times> tcp_chan" where
  "tcp_rskip chan ct =
     (let tp = readbuf chan in
      if int (tdis_leadp tp) - int (tdis_eod tp) < int ct then (- 1, chan)
      else (0, chan\<lparr>readbuf := tp\<lparr>tdis_leadp := tdis_leadp tp + ct\<rparr>\<rparr>))"

definition tcp_chan_has_data :: "tcp_chan \<Rightarrow> bool" where
  "tcp_chan_has_data chan \<longleftrightarrow> tdis_eod (readbuf chan) \<noteq> tdis_leadp (readbuf chan)"

text \<open>The write loop: \<open>EINTR\<close> retries, a short write goes on with the rest, any other error gives up.\<close>

fun wflush_loop :: "sock_write list \<Rightarrow> char list \<Rightarrow> char list \<Rightarrow> bool \<times> sock_write list \<times> char list" where
  "wflush_loop [] pb out = (True, [], out @ pb)"
| "wflush_loop (Wrote n # ws) pb out =
     (if length pb \<le> n then (True, ws, out @ pb)
      else wflush_loop ws (drop n pb) (out @ take n pb))"
| "wflush_loop (Wr_EINTR # ws) pb out = wflush_loop ws pb out"
| "wflush_loop (Wr_Fail # ws) pb out = (False, ws, out)"

definition DIS_tcp_wflush :: "tcp_chan \<Rightarrow> int \<times> tcp_chan" where
  "DIS_tcp_wflush chan =
     (let tp = writebuf chan;
          ct = tdis_trailp tp;
          (ok, ws, out) = wflush_loop (sock_wr chan) (buf_slice (tdis_thebuf tp) 0 ct) (sock_out chan);
          chan' = chan\<lparr>sock_wr := ws, sock_out := out\<rparr>
      in if ok then
           (0, chan'\<lparr>writebuf := tcp_pack_buff (tp\<lparr>tdis_eod := tdis_leadp tp\<rparr>)\<rparr>)
         else (- 1, chan'))"

definition DIS_tcp_clear :: "tcpdisbuf \<Rightarrow> tcpdisbuf" where
  "DIS_tcp_clear tp = tp\<lparr>tdis_leadp := 0, tdis_trailp := 0, tdis_eod := 0\<rparr>"

definition DIS_tcp_reset :: "tcp_chan \<Rightarrow> int \<Rightarrow> tcp_chan" where
  "DIS_tcp_reset chan i =
     (if i = 0 then chan\<lparr>readbuf := DIS_tcp_clear (readbuf chan)\<rparr>
      else chan\<lparr>writebuf := DIS_tcp_clear (writebuf chan)\<rparr>)"

text \<open>
  \<open>DIS_tcp_setup\<close> on descriptor \<open>fd\<close>, given the environment the descriptor is connected to. The
  first allocation is the channel structure itself: two buffers of 40 bytes and five ints, padded to
  104 bytes on the 64-bit platforms.
\<close>

definition sizeof_tcp_chan :: nat where
  "sizeof_tcp_chan = 104"

definition fresh_buf :: tcpdisbuf where
  "fresh_buf = \<lparr>tdis_bufsize = THE_BUF_SIZE, tdis_leadp = 0, tdis_trailp = 0, tdis_eod = 0, tdis_thebuf = []\<rparr>"

definition DIS_tcp_setup ::
  "int \<Rightarrow> sock_result list \<Rightarrow> sock_write list \<Rightarrow> (nat \<Rightarrow> bool) \<Rightarrow> tcp_chan option" where
  "DIS_tcp_setup fd inp wr heap =
     (if fd < 0 then None
      else if \<not> heap sizeof_tcp_chan then None
      else if \<not> heap (THE_BUF_SIZE + 1) then None
      else Some \<lparr>readbuf = fresh_buf, writebuf = fresh_buf, IsTimeout = False,
                 ReadErrno = PBSE_NONE, SelectErrno = PBSE_NONE, sock = fd, reused = False,
                 sock_in = inp, sock_wr = wr, sock_out = [], heap_ok = heap\<rparr>)"

section \<open>The abstract view of a channel\<close>

definition unread_buf :: "tcpdisbuf \<Rightarrow> char list" where
  "unread_buf tp = take (tdis_eod tp - tdis_leadp tp) (drop (tdis_leadp tp) (tdis_thebuf tp))"

definition uncommitted_buf :: "tcpdisbuf \<Rightarrow> char list" where
  "uncommitted_buf tp = take (tdis_leadp tp - tdis_trailp tp) (drop (tdis_trailp tp) (tdis_thebuf tp))"

abbreviation unread :: "tcp_chan \<Rightarrow> char list" where
  "unread c \<equiv> unread_buf (readbuf c)"

abbreviation uncommitted :: "tcp_chan \<Rightarrow> char list" where
  "uncommitted c \<equiv> uncommitted_buf (readbuf c)"

fun incoming :: "sock_result list \<Rightarrow> char list" where
  "incoming [] = []"
| "incoming (Sock_Data d # rs) = d @ incoming rs"
| "incoming (Sock_Err e # rs) = []"

definition pending :: "tcp_chan \<Rightarrow> char list" where
  "pending c = unread c @ incoming (sock_in c)"

fun all_in :: "sock_result list \<Rightarrow> char list" where
  "all_in [] = []"
| "all_in (Sock_Data d # rs) = d @ all_in rs"
| "all_in (Sock_Err e # rs) = all_in rs"

text \<open>
  The read buffer is in order; and either all data is text (without NUL), or the buffer is large
  enough for everything that will arrive. Without the last condition \<open>tcp_read\<close> loses data: it grows
  the buffer with a string print. Memory is available.
\<close>

definition rbuf_inv :: "tcpdisbuf \<Rightarrow> bool" where
  "rbuf_inv tp \<longleftrightarrow> tdis_trailp tp \<le> tdis_leadp tp \<and> tdis_leadp tp \<le> tdis_eod tp \<and>
     tdis_eod tp \<le> length (tdis_thebuf tp) \<and> tdis_eod tp \<le> tdis_bufsize tp \<and> 0 < tdis_bufsize tp"

definition text_buf :: "tcpdisbuf \<Rightarrow> bool" where
  "text_buf tp \<longleftrightarrow> NUL \<notin> set (take (tdis_eod tp) (tdis_thebuf tp)) \<and>
     (tdis_eod tp < length (tdis_thebuf tp) \<longrightarrow> tdis_thebuf tp ! tdis_eod tp = NUL)"

definition clean :: "tcp_chan \<Rightarrow> bool" where
  "clean c \<longleftrightarrow> (text_buf (readbuf c) \<and> NUL \<notin> set (all_in (sock_in c))) \<or>
     tdis_eod (readbuf c) + length (all_in (sock_in c)) < tdis_bufsize (readbuf c)"

definition rchan_ok :: "tcp_chan \<Rightarrow> bool" where
  "rchan_ok c \<longleftrightarrow> rbuf_inv (readbuf c) \<and> clean c \<and> (\<forall>n. heap_ok c n)"

definition wdata :: "tcp_chan \<Rightarrow> char list" where
  "wdata c = take (tdis_leadp (writebuf c)) (tdis_thebuf (writebuf c))"

definition wchan_ok :: "tcp_chan \<Rightarrow> bool" where
  "wchan_ok c \<longleftrightarrow> tdis_bufsize (writebuf c) \<noteq> 0 \<and> (\<forall>n. heap_ok c n) \<and>
     tdis_trailp (writebuf c) \<le> tdis_leadp (writebuf c) \<and>
     tdis_leadp (writebuf c) \<le> length (tdis_thebuf (writebuf c)) \<and>
     tdis_leadp (writebuf c) \<le> tdis_bufsize (writebuf c)"

text \<open>What the read operations leave alone, and what the write operations leave alone.\<close>

definition same_write :: "tcp_chan \<Rightarrow> tcp_chan \<Rightarrow> bool" where
  "same_write c c' \<longleftrightarrow> writebuf c' = writebuf c \<and> sock_out c' = sock_out c \<and> sock_wr c' = sock_wr c \<and>
     heap_ok c' = heap_ok c"

definition same_read :: "tcp_chan \<Rightarrow> tcp_chan \<Rightarrow> bool" where
  "same_read c c' \<longleftrightarrow> readbuf c' = readbuf c \<and> sock_in c' = sock_in c \<and> heap_ok c' = heap_ok c"

lemma same_write_refl [simp]: "same_write c c" and same_read_refl [simp]: "same_read c c"
  by (simp_all add: same_write_def same_read_def)

lemma same_write_trans [trans]: "same_write a b \<Longrightarrow> same_write b c \<Longrightarrow> same_write a c"
  and same_read_trans [trans]: "same_read a b \<Longrightarrow> same_read b c \<Longrightarrow> same_read a c"
  by (auto simp: same_write_def same_read_def)

lemma same_write_wchan: "same_write c c' \<Longrightarrow> wdata c' = wdata c \<and> (wchan_ok c' = wchan_ok c)"
  by (auto simp: same_write_def wdata_def wchan_ok_def)

lemma same_read_rchan:
  "same_read c c' \<Longrightarrow> pending c' = pending c \<and> uncommitted c' = uncommitted c \<and> rchan_ok c' = rchan_ok c"
  by (auto simp: same_read_def pending_def rchan_ok_def clean_def)

section \<open>Packing and reading\<close>

lemma rbuf_inv_pack: "rbuf_inv tp \<Longrightarrow> rbuf_inv (tcp_pack_buff tp)"
  by (auto simp: rbuf_inv_def tcp_pack_buff_def Let_def)

lemma pack_eod_le: "tdis_eod (tcp_pack_buff tp) \<le> tdis_eod tp"
  and pack_bufsize [simp]: "tdis_bufsize (tcp_pack_buff tp) = tdis_bufsize tp"
  by (simp_all add: tcp_pack_buff_def Let_def)

lemma pack_view:
  assumes "rbuf_inv tp"
  shows "unread_buf (tcp_pack_buff tp) = unread_buf tp"
    and "uncommitted_buf (tcp_pack_buff tp) = uncommitted_buf tp"
  using assms
  by (auto simp: unread_buf_def uncommitted_buf_def rbuf_inv_def tcp_pack_buff_def Let_def
      buf_slice_inside drop_take min_def)

lemma set_take_drop_subset: "set (take n (drop m xs)) \<subseteq> set (take (m + n) xs)"
  by (metis set_drop_subset take_drop add.commute)

lemma text_buf_pack:
  assumes "rbuf_inv tp" and "text_buf tp"
  shows "text_buf (tcp_pack_buff tp)"
proof (cases "tdis_trailp tp = 0")
  case True
  then show ?thesis using assms by (simp add: tcp_pack_buff_def)
next
  case False
  let ?n = "tdis_eod tp - tdis_trailp tp"
  have s: "buf_slice (tdis_thebuf tp) (tdis_trailp tp) ?n = take ?n (drop (tdis_trailp tp) (tdis_thebuf tp))"
    using assms(1) by (intro buf_slice_inside) (auto simp: rbuf_inv_def)
  have "set (take ?n (drop (tdis_trailp tp) (tdis_thebuf tp))) \<subseteq> set (take (tdis_eod tp) (tdis_thebuf tp))"
    using set_take_drop_subset [of ?n "tdis_trailp tp" "tdis_thebuf tp"] assms(1)
    by (simp add: rbuf_inv_def)
  then have "NUL \<notin> set (buf_slice (tdis_thebuf tp) (tdis_trailp tp) ?n)"
    using assms(2) s by (auto simp: text_buf_def)
  then show ?thesis
    using False by (simp add: tcp_pack_buff_def Let_def text_buf_def nth_append)
qed

lemma buf_store_append:
  "p \<le> length b \<Longrightarrow> buf_store b p (s @ t) = take p b @ s @ t @ drop (p + length (s @ t)) b"
  by (simp add: buf_store_def buf_slice_inside)

text \<open>Data stored behind \<open>tdis_eod\<close> extends what is unread and nothing else.\<close>

lemma extend_view:
  assumes "rbuf_inv tp" and "tdis_thebuf tp' = take (tdis_eod tp) (tdis_thebuf tp) @ d @ x"
    and "tdis_eod tp' = tdis_eod tp + length d" and "tdis_leadp tp' = tdis_leadp tp"
    and "tdis_trailp tp' = tdis_trailp tp" and "tdis_eod tp' \<le> tdis_bufsize tp'"
    and "0 < tdis_bufsize tp'"
  shows "rbuf_inv tp'" and "unread_buf tp' = unread_buf tp @ d"
    and "uncommitted_buf tp' = uncommitted_buf tp"
    and "set (take (tdis_eod tp') (tdis_thebuf tp')) = set (take (tdis_eod tp) (tdis_thebuf tp)) \<union> set d"
proof -
  have le: "tdis_leadp tp \<le> tdis_eod tp" "tdis_trailp tp \<le> tdis_leadp tp"
      "tdis_eod tp \<le> length (tdis_thebuf tp)"
    using assms(1) by (auto simp: rbuf_inv_def)
  show "rbuf_inv tp'" using le assms(2-) by (simp add: rbuf_inv_def)
  have "drop (tdis_leadp tp) (tdis_thebuf tp') =
      (take (tdis_eod tp - tdis_leadp tp) (drop (tdis_leadp tp) (tdis_thebuf tp)) @ d) @ x"
    using le by (simp add: assms(2) drop_take)
  moreover have "length (take (tdis_eod tp - tdis_leadp tp) (drop (tdis_leadp tp) (tdis_thebuf tp)) @ d) =
      tdis_eod tp' - tdis_leadp tp"
    using le assms(3) by simp
  ultimately show "unread_buf tp' = unread_buf tp @ d"
    unfolding unread_buf_def assms(4) by (metis append_eq_conv_conj)
  show "uncommitted_buf tp' = uncommitted_buf tp"
    using le by (simp add: uncommitted_buf_def assms(2,4,5) drop_take min_def)
  have "take (tdis_eod tp') (tdis_thebuf tp') = take (tdis_eod tp) (tdis_thebuf tp) @ d"
    using le by (simp add: assms(2,3))
  then show "set (take (tdis_eod tp') (tdis_thebuf tp')) = set (take (tdis_eod tp) (tdis_thebuf tp)) \<union> set d"
    by simp
qed

lemma length_unread_buf [simp]: "rbuf_inv tp \<Longrightarrow> length (unread_buf tp) = tdis_eod tp - tdis_leadp tp"
  by (auto simp: rbuf_inv_def unread_buf_def)

lemma length_uncommitted_buf [simp]:
  "rbuf_inv tp \<Longrightarrow> length (uncommitted_buf tp) = tdis_leadp tp - tdis_trailp tp"
  by (auto simp: rbuf_inv_def uncommitted_buf_def)

text \<open>
  What \<open>tcp_read\<close> does with the data of a successful socket read: it ends in a buffer whose unread
  part has grown by the data, in both branches.
\<close>

lemma tcp_read_grows:
  assumes inv: "rbuf_inv tp"
    and cl: "(text_buf tp \<and> NUL \<notin> set (d @ rest)) \<or>
      tdis_eod tp + length d + length rest < tdis_bufsize tp"
    and tp': "tp' = (if int (length d) < int (tdis_bufsize tp) - int (tdis_eod tp)
      then tp\<lparr>tdis_thebuf := buf_store (tdis_thebuf tp) (tdis_eod tp) (d @ [NUL]),
        tdis_eod := tdis_eod tp + length d\<rparr>
      else tp\<lparr>tdis_thebuf := take ((tdis_bufsize tp + length d) * 2 - 1) (cstring (tdis_thebuf tp) @ cstring d),
        tdis_bufsize := (tdis_bufsize tp + length d) * 2, tdis_eod := tdis_eod tp + length d\<rparr>)"
  shows "rbuf_inv tp'" and "unread_buf tp' = unread_buf tp @ d"
    and "uncommitted_buf tp' = uncommitted_buf tp"
    and "(text_buf tp' \<and> NUL \<notin> set rest) \<or> tdis_eod tp' + length rest < tdis_bufsize tp'"
proof -
  let ?fits = "int (length d) < int (tdis_bufsize tp) - int (tdis_eod tp)"
  have "\<exists>x. tdis_thebuf tp' = take (tdis_eod tp) (tdis_thebuf tp) @ d @ x \<and> (x \<noteq> [] \<longrightarrow> hd x = NUL)"
  proof (cases ?fits)
    case True
    then show ?thesis using inv by (auto simp: tp' buf_store_append rbuf_inv_def)
  next
    case False
    then have tx: "text_buf tp" "NUL \<notin> set d" using cl by auto
    then have "cstring (tdis_thebuf tp) = take (tdis_eod tp) (tdis_thebuf tp)"
      using inv by (intro cstring_prefix) (auto simp: text_buf_def rbuf_inv_def)
    moreover have "length (take (tdis_eod tp) (tdis_thebuf tp) @ d) \<le> (tdis_bufsize tp + length d) * 2 - 1"
      using inv by (auto simp: rbuf_inv_def)
    ultimately have "tdis_thebuf tp' = take (tdis_eod tp) (tdis_thebuf tp) @ d"
      using False tx(2) by (simp add: tp' take_all del: take_append take_take)
    then show ?thesis by simp
  qed
  then obtain x where x: "tdis_thebuf tp' = take (tdis_eod tp) (tdis_thebuf tp) @ d @ x"
    and hx: "x \<noteq> [] \<longrightarrow> hd x = NUL" by blast
  have eod: "tdis_eod tp' = tdis_eod tp + length d"
    and same: "tdis_leadp tp' = tdis_leadp tp" "tdis_trailp tp' = tdis_trailp tp"
    and size: "tdis_eod tp' \<le> tdis_bufsize tp'" "0 < tdis_bufsize tp'"
    using inv by (auto simp: tp' rbuf_inv_def)
  note ext = extend_view [OF inv x eod same size]
  show "rbuf_inv tp'" "unread_buf tp' = unread_buf tp @ d" "uncommitted_buf tp' = uncommitted_buf tp"
    by (fact ext)+
  have nul: "tdis_eod tp' < length (tdis_thebuf tp') \<longrightarrow> tdis_thebuf tp' ! tdis_eod tp' = NUL"
    using inv hx by (auto simp: x eod nth_append rbuf_inv_def hd_conv_nth)
  show "(text_buf tp' \<and> NUL \<notin> set rest) \<or> tdis_eod tp' + length rest < tdis_bufsize tp'"
  proof (cases "text_buf tp \<and> NUL \<notin> set (d @ rest)")
    case True
    then show ?thesis using ext(4) nul by (auto simp: text_buf_def)
  next
    case False
    then show ?thesis using cl by (auto simp: tp')
  qed
qed

lemma tcp_read_data:
  assumes ok: "rchan_ok c" and inp: "sock_in c = Sock_Data d # rs"
  obtains c' where "tcp_read c dr da = (PBSE_NONE, length d, length (unread c'), c')" and "rchan_ok c'"
    and "unread c' = unread c @ d" and "uncommitted c' = uncommitted c" and "sock_in c' = rs"
    and "same_write c c'"
proof -
  define tp where "tp = tcp_pack_buff (readbuf c)"
  define tp' where "tp' = (if int (length d) < int (tdis_bufsize tp) - int (tdis_eod tp)
      then tp\<lparr>tdis_thebuf := buf_store (tdis_thebuf tp) (tdis_eod tp) (d @ [NUL]),
        tdis_eod := tdis_eod tp + length d\<rparr>
      else tp\<lparr>tdis_thebuf := take ((tdis_bufsize tp + length d) * 2 - 1) (cstring (tdis_thebuf tp) @ cstring d),
        tdis_bufsize := (tdis_bufsize tp + length d) * 2, tdis_eod := tdis_eod tp + length d\<rparr>)"
  define c' where "c' = c\<lparr>readbuf := tp', IsTimeout := False, SelectErrno := PBSE_NONE,
        ReadErrno := PBSE_NONE, sock_in := rs\<rparr>"
  have inv0: "rbuf_inv (readbuf c)" and mem: "\<And>n. heap_ok c n"
    using ok by (simp_all add: rchan_ok_def)
  have inv: "rbuf_inv tp" using inv0 by (simp add: tp_def rbuf_inv_pack)
  have cl: "(text_buf tp \<and> NUL \<notin> set (d @ all_in rs)) \<or>
      tdis_eod tp + length d + length (all_in rs) < tdis_bufsize tp"
    using ok inp pack_eod_le [of "readbuf c"] text_buf_pack [OF inv0]
    by (auto simp: rchan_ok_def clean_def tp_def)
  note g = tcp_read_grows [OF inv cl tp'_def]
  have read: "tcp_read c dr da = (PBSE_NONE, length d, tdis_eod tp' - tdis_leadp tp', c')"
    using inp mem by (simp add: tcp_read_def sock_next_def Let_def tp_def [symmetric] tp'_def c'_def)
  show ?thesis
  proof (rule that)
    show "tcp_read c dr da = (PBSE_NONE, length d, length (unread c'), c')"
      using read g(1) by (simp add: c'_def)
    show "rchan_ok c'"
      using g(1,4) ok inp by (auto simp: rchan_ok_def clean_def c'_def)
    show "unread c' = unread c @ d" "uncommitted c' = uncommitted c"
      using g(2,3) pack_view [OF inv0] by (simp_all add: c'_def tp_def)
    show "sock_in c' = rs" "same_write c c'" by (simp_all add: c'_def same_write_def)
  qed
qed

text \<open>A socket error leaves the buffered data where it is.\<close>

lemma tcp_read_err:
  assumes ok: "rchan_ok c" and inp: "sock_in c = [] \<or> sock_in c = Sock_Err e # rs"
  obtains rc c' where "tcp_read c dr da = (rc, dr, da, c')" and "rc \<noteq> PBSE_NONE" and "rchan_ok c'"
    and "unread c' = unread c" and "uncommitted c' = uncommitted c" and "same_write c c'"
proof -
  define tp where "tp = tcp_pack_buff (readbuf c)"
  have inv0: "rbuf_inv (readbuf c)" using ok by (simp add: rchan_ok_def)
  have v: "rbuf_inv tp" "unread_buf tp = unread c" "uncommitted_buf tp = uncommitted c"
    using inv0 pack_view [OF inv0] by (simp_all add: tp_def rbuf_inv_pack)
  have cl: "clean (c\<lparr>readbuf := tp, sock_in := rs'\<rparr>)" if "all_in rs' = all_in (sock_in c)" for rs'
    using ok that pack_eod_le [of "readbuf c"] text_buf_pack [OF inv0]
    by (auto simp: rchan_ok_def clean_def tp_def)
  show ?thesis
  proof (cases "sock_in c = []")
    case True
    show ?thesis
    proof (rule that)
      show "tcp_read c dr da = (PBSE_TIMEOUT, dr, da, c\<lparr>readbuf := tp, IsTimeout := True,
          SelectErrno := PBSE_NONE, ReadErrno := PBSE_NONE\<rparr>)"
        using True by (simp add: tcp_read_def sock_next_def Let_def tp_def)
    qed (use True v ok cl [of "[]"] in \<open>auto simp: rchan_ok_def same_write_def clean_def\<close>)
  next
    case False
    with inp have e: "sock_in c = Sock_Err e # rs" by simp
    show ?thesis
    proof (rule that)
      show "tcp_read c dr da = (sock_err_rc e, dr, da, (if sock_err_rc e = PBSE_TIMEOUT then c\<lparr>readbuf := tp, IsTimeout := True,
          SelectErrno := PBSE_NONE, ReadErrno := PBSE_NONE, sock_in := rs\<rparr>
          else c\<lparr>readbuf := tp, IsTimeout := False, SelectErrno := sock_err_rc e, ReadErrno := sock_err_rc e, sock_in := rs\<rparr>))"
        using e by (simp add: tcp_read_def sock_next_def Let_def tp_def)
    qed (use e v ok cl [of rs] in \<open>auto simp: rchan_ok_def same_write_def clean_def\<close>)
  qed
qed

text \<open>\<open>tcp_fill\<close> buffers the bytes asked for when they will arrive, and fails otherwise.\<close>

lemma tcp_fill_ok:
  assumes "rchan_ok c" and "ct \<le> length (pending c)" and "da = length (unread c)"
  shows "\<exists>c'. tcp_fill c ct dr da = (0, c') \<and> rchan_ok c' \<and> uncommitted c' = uncommitted c \<and>
    pending c' = pending c \<and> ct \<le> length (unread c') \<and> same_write c c'"
  using assms
proof (induction c ct dr da rule: tcp_fill.induct)
  case (1 c ct dr da)
  show ?case
  proof (cases "da < ct")
    case False
    then show ?thesis
      using 1(2-) by (subst tcp_fill.simps) simp
  next
    case True
    then have "incoming (sock_in c) \<noteq> []" using 1(3,4) by (auto simp: pending_def)
    then obtain d rs where inp: "sock_in c = Sock_Data d # rs"
      by (cases "sock_in c" rule: incoming.cases) auto
    from tcp_read_data [OF 1(2) inp, of dr da] obtain c1 where
      r: "tcp_read c dr da = (PBSE_NONE, length d, length (unread c1), c1)" and c1: "rchan_ok c1"
      "unread c1 = unread c @ d" "uncommitted c1 = uncommitted c" "sock_in c1 = rs" "same_write c c1" .
    have p: "pending c1 = pending c" using c1 inp by (simp add: pending_def)
    have "\<exists>c'. tcp_fill c1 ct (length d) (length (unread c1)) = (0, c') \<and> rchan_ok c' \<and>
        uncommitted c' = uncommitted c1 \<and> pending c' = pending c1 \<and> ct \<le> length (unread c') \<and> same_write c1 c'"
      using 1(1) [OF True r [symmetric] refl refl] c1(1) p 1(3) by auto
    then show ?thesis
      using True r c1 p same_write_trans [OF c1(5)] by (subst tcp_fill.simps) auto
  qed
qed

lemma tcp_fill_err:
  assumes "rchan_ok c" and "length (pending c) < ct" and "da = length (unread c)"
  shows "\<exists>rc c'. tcp_fill c ct dr da = (rc, c') \<and> rc < 0 \<and> rchan_ok c' \<and> uncommitted c' = uncommitted c \<and>
    unread c' = pending c \<and> same_write c c'"
  using assms
proof (induction c ct dr da rule: tcp_fill.induct)
  case (1 c ct dr da)
  have lt: "da < ct" using 1(3,4) by (simp add: pending_def)
  show ?case
  proof (cases "\<exists>d rs. sock_in c = Sock_Data d # rs")
    case True
    then obtain d rs where inp: "sock_in c = Sock_Data d # rs" by blast
    from tcp_read_data [OF 1(2) inp, of dr da] obtain c1 where
      r: "tcp_read c dr da = (PBSE_NONE, length d, length (unread c1), c1)" and c1: "rchan_ok c1"
      "unread c1 = unread c @ d" "uncommitted c1 = uncommitted c" "sock_in c1 = rs" "same_write c c1" .
    have p: "pending c1 = pending c" using c1 inp by (simp add: pending_def)
    have "\<exists>rc c'. tcp_fill c1 ct (length d) (length (unread c1)) = (rc, c') \<and> rc < 0 \<and> rchan_ok c' \<and>
        uncommitted c' = uncommitted c1 \<and> unread c' = pending c1 \<and> same_write c1 c'"
      using 1(1) [OF lt r [symmetric] refl refl] c1(1) p 1(3) by auto
    then show ?thesis
      using lt r c1 p same_write_trans [OF c1(5)] by (subst tcp_fill.simps) auto
  next
    case False
    then obtain e rs where inp: "sock_in c = [] \<or> sock_in c = Sock_Err e # rs"
      by (cases "sock_in c" rule: incoming.cases) auto
    then have p: "pending c = unread c" by (auto simp: pending_def)
    from tcp_read_err [OF 1(2) inp, of dr da] obtain rc c1 where
      "tcp_read c dr da = (rc, dr, da, c1)" "rc \<noteq> PBSE_NONE" "rchan_ok c1"
      "unread c1 = unread c" "uncommitted c1 = uncommitted c" "same_write c c1" .
    then show ?thesis using lt p by (subst tcp_fill.simps) auto
  qed
qed

lemma tcp_gets_ok:
  assumes "rchan_ok c" and "ct \<le> length (pending c)"
  obtains c' where "tcp_gets c ct = (int ct, take ct (pending c), c')" and "rchan_ok c'"
    and "uncommitted c' = uncommitted c @ take ct (pending c)" and "pending c' = drop ct (pending c)"
    and "same_write c c'"
proof -
  have inv0: "rbuf_inv (readbuf c)" using assms(1) by (simp add: rchan_ok_def)
  from tcp_fill_ok [OF assms refl, of 0] obtain c1 where
    f: "tcp_fill c ct 0 (length (unread c)) = (0, c1)" and ok1: "rchan_ok c1"
    and u1: "uncommitted c1 = uncommitted c" and p1: "pending c1 = pending c"
    and len: "ct \<le> length (unread c1)" and w1: "same_write c c1" by auto
  define tp where "tp = readbuf c1"
  have inv: "rbuf_inv tp" using ok1 by (simp add: rchan_ok_def tp_def)
  define c' where "c' = c1\<lparr>readbuf := tp\<lparr>tdis_leadp := tdis_leadp tp + ct\<rparr>\<rparr>"
  have le: "tdis_leadp tp + ct \<le> tdis_eod tp" using len inv by (auto simp: tp_def rbuf_inv_def)
  have s: "buf_slice (tdis_thebuf tp) (tdis_leadp tp) ct = take ct (drop (tdis_leadp tp) (tdis_thebuf tp))"
    using le inv by (intro buf_slice_inside) (auto simp: rbuf_inv_def)
  also have "\<dots> = take ct (unread c1)"
    using le by (simp add: unread_buf_def tp_def [symmetric] min_def)
  also have "\<dots> = take ct (pending c1)"
    using len by (simp add: pending_def)
  also have "\<dots> = take ct (pending c)"
    by (simp only: p1)
  finally have sl: "buf_slice (tdis_thebuf tp) (tdis_leadp tp) ct = take ct (pending c)" .
  have un: "unread c' = drop ct (unread c1)"
    using le by (simp add: c'_def unread_buf_def tp_def [symmetric] drop_take add.commute)
  have "uncommitted c' = uncommitted c1 @ take ct (drop (tdis_leadp tp) (tdis_thebuf tp))"
    using inv by (simp add: c'_def uncommitted_buf_def tp_def [symmetric] rbuf_inv_def take_add
        flip: add_diff_assoc2)
  then have uc: "uncommitted c' = uncommitted c @ take ct (pending c)"
    using s sl u1 by simp
  show ?thesis
  proof (rule that)
    show "tcp_gets c ct = (int ct, take ct (pending c), c')"
      using f sl inv0 by (simp add: tcp_gets_def Let_def tp_def c'_def)
    show "rchan_ok c'"
      using ok1 le by (auto simp: rchan_ok_def clean_def text_buf_def c'_def rbuf_inv_def tp_def)
    show "uncommitted c' = uncommitted c @ take ct (pending c)" by (fact uc)
    show "pending c' = drop ct (pending c)"
      using un len unfolding p1 [symmetric] by (simp add: pending_def) (simp add: c'_def)
    show "same_write c c'" using w1 by (simp add: c'_def same_write_def)
  qed
qed

lemma tcp_gets_err:
  assumes "rchan_ok c" and "length (pending c) < ct"
  obtains rc c' where "tcp_gets c ct = (rc, [], c')" and "rc < 0" and "rchan_ok c'"
    and "uncommitted c' = uncommitted c" and "unread c' = pending c" and "same_write c c'"
proof -
  have inv0: "rbuf_inv (readbuf c)" using assms(1) by (simp add: rchan_ok_def)
  from tcp_fill_err [OF assms refl, of 0] obtain rc c1 where
    "tcp_fill c ct 0 (length (unread c)) = (rc, c1)" "rc < 0" "rchan_ok c1"
    "uncommitted c1 = uncommitted c" "unread c1 = pending c" "same_write c c1" by auto
  then show ?thesis using that inv0 by (simp add: tcp_gets_def)
qed

lemma tcp_getc_ok:
  assumes "rchan_ok c" and "pending c = x # xs"
  obtains c' where "tcp_getc c = (schar x, c')" and "rchan_ok c'"
    and "uncommitted c' = uncommitted c @ [x]" and "pending c' = xs" and "same_write c c'"
proof -
  from tcp_gets_ok [OF assms(1), of 1] assms(2) obtain c' where
    "tcp_gets c 1 = (1, [x], c')" "rchan_ok c'" "uncommitted c' = uncommitted c @ [x]"
    "pending c' = xs" "same_write c c'" by auto
  then show ?thesis using that by (simp add: tcp_getc_def)
qed

section \<open>Commit and roll-back\<close>

lemma rcommit_True:
  assumes "rchan_ok c"
  obtains c' where "tcp_rcommit c True = (0, c')" and "rchan_ok c'" and "uncommitted c' = []"
    and "pending c' = pending c" and "same_write c c'"
proof (rule that)
  let ?c = "c\<lparr>readbuf := readbuf c\<lparr>tdis_trailp := tdis_leadp (readbuf c)\<rparr>\<rparr>"
  show "tcp_rcommit c True = (0, ?c)" by (simp add: tcp_rcommit_def Let_def)
  show "rchan_ok ?c" using assms by (auto simp: rchan_ok_def clean_def text_buf_def rbuf_inv_def)
  show "uncommitted ?c = []" "pending ?c = pending c" "same_write c ?c"
    by (simp_all add: uncommitted_buf_def pending_def unread_buf_def same_write_def)
qed

lemma rcommit_False:
  assumes "rchan_ok c"
  obtains c' where "tcp_rcommit c False = (0, c')" and "rchan_ok c'" and "uncommitted c' = []"
    and "unread c' = uncommitted c @ unread c" and "pending c' = uncommitted c @ pending c"
    and "same_write c c'"
proof (rule that)
  let ?c = "c\<lparr>readbuf := readbuf c\<lparr>tdis_leadp := tdis_trailp (readbuf c)\<rparr>\<rparr>"
  have inv: "rbuf_inv (readbuf c)" using assms by (simp add: rchan_ok_def)
  show "tcp_rcommit c False = (0, ?c)" by (simp add: tcp_rcommit_def Let_def)
  show "rchan_ok ?c" using assms by (auto simp: rchan_ok_def clean_def text_buf_def rbuf_inv_def)
  show "uncommitted ?c = []" "same_write c ?c" by (simp_all add: uncommitted_buf_def same_write_def)
  have "take (tdis_eod (readbuf c) - tdis_trailp (readbuf c)) (drop (tdis_trailp (readbuf c)) (tdis_thebuf (readbuf c)))
      = uncommitted c @ unread c"
  proof -
    have le: "tdis_trailp (readbuf c) \<le> tdis_leadp (readbuf c)" "tdis_leadp (readbuf c) \<le> tdis_eod (readbuf c)"
      using inv by (auto simp: rbuf_inv_def)
    then have "tdis_eod (readbuf c) - tdis_trailp (readbuf c) =
        (tdis_leadp (readbuf c) - tdis_trailp (readbuf c)) + (tdis_eod (readbuf c) - tdis_leadp (readbuf c))"
      by simp
    then show ?thesis
      using le by (simp only: take_add drop_drop uncommitted_buf_def unread_buf_def le_add_diff_inverse2)
  qed
  then show un: "unread ?c = uncommitted c @ unread c" by (simp add: unread_buf_def)
  show "pending ?c = uncommitted c @ pending c" using un by (simp add: pending_def)
qed

section \<open>Writing and flushing\<close>

lemma tcp_puts_ok:
  assumes ok: "wchan_ok c"
  obtains c' where "tcp_puts c s = (int (length s), c')" and "wchan_ok c'" and "wdata c' = wdata c @ s"
    and "same_read c c'" and "tdis_trailp (writebuf c') = tdis_trailp (writebuf c)"
    and "sock_out c' = sock_out c" and "sock_wr c' = sock_wr c"
proof -
  define tp where "tp = writebuf c"
  define tp' where "tp' = (if int (tdis_bufsize tp) - int (tdis_leadp tp) < int (length s)
    then tp\<lparr>tdis_thebuf := buf_store (take (tdis_bufsize tp) (tdis_thebuf tp)) (tdis_leadp tp) s,
            tdis_bufsize := tdis_bufsize tp + THE_BUF_SIZE + length s * 2,
            tdis_eod := tdis_bufsize tp + THE_BUF_SIZE + length s * 2, tdis_leadp := tdis_leadp tp + length s\<rparr>
    else tp\<lparr>tdis_thebuf := buf_store (tdis_thebuf tp) (tdis_leadp tp) s,
            tdis_leadp := tdis_leadp tp + length s\<rparr>)"
  have t: "tcp_puts c s = (int (length s), c\<lparr>writebuf := tp'\<rparr>)"
    using ok by (simp add: tcp_puts_def Let_def tp_def tp'_def wchan_ok_def)
  have le: "tdis_leadp tp \<le> length (tdis_thebuf tp)" "tdis_leadp tp \<le> tdis_bufsize tp"
    using ok by (auto simp: wchan_ok_def tp_def)
  have b: "\<exists>x. tdis_thebuf tp' = take (tdis_leadp tp) (tdis_thebuf tp) @ s @ x"
    using le by (auto simp: tp'_def buf_store_def buf_slice_inside min_def)
  show ?thesis
  proof (rule that [OF t])
    show "wchan_ok (c\<lparr>writebuf := tp'\<rparr>)"
      using ok b le by (auto simp: wchan_ok_def tp_def [symmetric]) (auto simp: tp'_def)
    show "wdata (c\<lparr>writebuf := tp'\<rparr>) = wdata c @ s"
      using b le by (auto simp: wdata_def tp_def [symmetric]) (auto simp: tp'_def)
  qed (simp_all add: same_read_def tp'_def tp_def)
qed

lemma wcommit_True:
  assumes "wchan_ok c"
  obtains c' where "tcp_wcommit c True = (0, c')" and "wchan_ok c'" and "wdata c' = wdata c"
    and "same_read c c'" and "tdis_trailp (writebuf c') = tdis_leadp (writebuf c')"
    and "sock_out c' = sock_out c" and "sock_wr c' = sock_wr c"
  using assms that [of "c\<lparr>writebuf := writebuf c\<lparr>tdis_trailp := tdis_leadp (writebuf c)\<rparr>\<rparr>"]
  by (simp add: tcp_wcommit_def Let_def wchan_ok_def wdata_def same_read_def)

lemma wflush_loop_sends:
  "Wr_Fail \<notin> set ws \<Longrightarrow> \<exists>ws'. wflush_loop ws pb out = (True, ws', out @ pb) \<and> set ws' \<subseteq> set ws"
proof (induction ws pb out rule: wflush_loop.induct)
  case (2 n ws pb out)
  then show ?case by (cases "length pb \<le> n") auto
qed auto

text \<open>
  A flush sends exactly the committed bytes, in order, whatever the sizes of the partial writes, and
  keeps the uncommitted ones; a failing write keeps the buffer as it was.
\<close>

lemma wflush_committed:
  assumes ok: "wchan_ok c" and nofail: "Wr_Fail \<notin> set (sock_wr c)"
  obtains c' where "DIS_tcp_wflush c = (0, c')" and "wchan_ok c'"
    and "sock_out c' = sock_out c @ take (tdis_trailp (writebuf c)) (wdata c)"
    and "wdata c' = drop (tdis_trailp (writebuf c)) (wdata c)"
    and "tdis_trailp (writebuf c') = 0" and "same_read c c'"
proof -
  define tp where "tp = writebuf c"
  have le: "tdis_trailp tp \<le> tdis_leadp tp" "tdis_leadp tp \<le> length (tdis_thebuf tp)"
      "tdis_leadp tp \<le> tdis_bufsize tp"
    using ok by (auto simp: wchan_ok_def tp_def)
  have sl: "buf_slice (tdis_thebuf tp) 0 (tdis_trailp tp) = take (tdis_trailp tp) (tdis_thebuf tp)"
    using le by (simp add: buf_slice_inside)
  obtain ws' where w: "wflush_loop (sock_wr c) (take (tdis_trailp tp) (tdis_thebuf tp)) (sock_out c)
      = (True, ws', sock_out c @ take (tdis_trailp tp) (tdis_thebuf tp))"
    using wflush_loop_sends [OF nofail] by metis
  define c' where "c' = c\<lparr>sock_wr := ws', sock_out := sock_out c @ take (tdis_trailp tp) (tdis_thebuf tp),
      writebuf := tcp_pack_buff (tp\<lparr>tdis_eod := tdis_leadp tp\<rparr>)\<rparr>"
  show ?thesis
  proof (rule that)
    show "DIS_tcp_wflush c = (0, c')"
      using w sl by (simp add: DIS_tcp_wflush_def Let_def tp_def [symmetric] c'_def)
    show "wchan_ok c'"
      using ok le by (auto simp: wchan_ok_def c'_def tcp_pack_buff_def Let_def tp_def)
    show "sock_out c' = sock_out c @ take (tdis_trailp (writebuf c)) (wdata c)"
      using le by (simp add: c'_def wdata_def tp_def min_def)
    show "wdata c' = drop (tdis_trailp (writebuf c)) (wdata c)"
      using le by (auto simp: c'_def wdata_def tcp_pack_buff_def Let_def tp_def buf_slice_inside drop_take min_def)
    show "tdis_trailp (writebuf c') = 0" by (simp add: c'_def tcp_pack_buff_def Let_def)
    show "same_read c c'" by (simp add: same_read_def c'_def)
  qed
qed

lemma wflush_fail_keeps_buffer:
  "DIS_tcp_wflush c = (rc, c') \<Longrightarrow> rc \<noteq> 0 \<Longrightarrow> rc = - 1 \<and> writebuf c' = writebuf c"
  by (auto simp: DIS_tcp_wflush_def Let_def split: prod.splits if_splits)

lemma setup_views:
  assumes "DIS_tcp_setup fd inp wr heap = Some c"
  shows "unread c = []" "uncommitted c = []" "wdata c = []" "sock_in c = inp" "sock_wr c = wr"
    "sock_out c = []" "heap_ok c = heap" "tdis_trailp (writebuf c) = 0" "pending c = incoming inp"
  using assms
  by (auto simp: DIS_tcp_setup_def fresh_buf_def unread_buf_def uncommitted_buf_def wdata_def pending_def
      split: if_splits)

text \<open>A fresh channel is in order, on a text stream or a stream that fits into the buffer.\<close>

lemma setup_ok:
  assumes "DIS_tcp_setup fd inp wr heap = Some c" and "\<And>n. heap n"
  shows "wchan_ok c"
    and "NUL \<notin> set (all_in inp) \<or> length (all_in inp) < THE_BUF_SIZE \<Longrightarrow> rchan_ok c"
  using assms
  by (auto simp: DIS_tcp_setup_def fresh_buf_def wchan_ok_def rchan_ok_def rbuf_inv_def clean_def
      text_buf_def THE_BUF_SIZE_def split: if_splits)

end
