(* ===== verification/Dis_Write.thy ===== *)
theory Dis_Write
  imports Tcp_Chan
begin

text \<open>
  The writers of the Data-is-Strings codec (\<^verbatim>\<open>src/lib/Libdis/disw*.c\<close> and the digit routines
  \<^verbatim>\<open>discui_.c\<close>, \<^verbatim>\<open>discul_.c\<close>). A number is written as its digits after a sign, with the count of digits
  before the sign, the count of digits of that count before it, and so on down to a single digit. A
  string is written as its length, then its bytes.

  The C code builds the text backwards in a scratch array of 64 bytes; the model's \<open>cp\<close> is the text
  from the pointer to the closing NUL. The array is never overrun, as \<open>Dis_Props\<close> shows.
\<close>

section \<open>Return codes\<close>

text \<open>
  The codes of \<^verbatim>\<open>include/dis.h\<close>. \<open>DIS_ABORT\<close> is not one of them: it stands for the process ending in
  a failed \<open>assert\<close>.
\<close>

datatype dis_rc =
    DIS_SUCCESS | DIS_OVERFLOW | DIS_HUGEVAL | DIS_BADSIGN | DIS_LEADZRO | DIS_NONDIGIT
  | DIS_NULLSTR | DIS_EOD | DIS_NOMALLOC | DIS_PROTO | DIS_NOCOMMIT | DIS_EOF | DIS_INVALID
  | DIS_ABORT

section \<open>Digits\<close>

lemma uint_div10_less: "9 < (v :: c_uint) \<Longrightarrow> unat (v div 10) < unat v"
  by (simp add: unat_div word_less_nat_alt)

lemma ulong_div10_less: "9 < (v :: c_ulong) \<Longrightarrow> unat (v div 10) < unat v"
  by (simp add: unat_div word_less_nat_alt)

function discui_loop :: "c_uint \<Rightarrow> char list \<Rightarrow> char list" where
  "discui_loop value cp =
     (if value > 9 then discui_loop (value div 10) (digit_char (unat (value mod 10)) # cp)
      else digit_char (unat value) # cp)"
  by pat_completeness auto
termination
  by (relation "measure (\<lambda>(value, cp). unat value)") (auto intro: uint_div10_less)

function discul_loop :: "c_ulong \<Rightarrow> char list \<Rightarrow> char list" where
  "discul_loop value cp =
     (if value > 9 then discul_loop (value div 10) (digit_char (unat (value mod 10)) # cp)
      else digit_char (unat value) # cp)"
  by pat_completeness auto
termination
  by (relation "measure (\<lambda>(value, cp). unat value)") (auto intro: ulong_div10_less)

declare discui_loop.simps [simp del] discul_loop.simps [simp del]

definition discui_0 :: "char list \<Rightarrow> c_uint \<Rightarrow> char list \<times> c_uint" where
  "discui_0 cp value = (let cp' = discui_loop value cp in (cp', of_nat (length cp' - length cp)))"

definition discul_0 :: "char list \<Rightarrow> c_ulong \<Rightarrow> char list \<times> c_uint" where
  "discul_0 cp value = (let cp' = discul_loop value cp in (cp', of_nat (length cp' - length cp)))"

lemma discui_loop_dec: "discui_loop v cp = dec (unat v) @ cp"
proof (induction v cp rule: discui_loop.induct)
  case (1 v cp)
  show ?case
  proof (cases "v > 9")
    case True
    then have "10 \<le> unat v" by (simp add: word_less_nat_alt)
    then show ?thesis
      using "1.IH" [OF True] True
      by (subst discui_loop.simps) (simp add: dec_step unat_div unat_mod)
  next
    case False
    then have "unat v < 10" by (simp add: word_less_nat_alt)
    then show ?thesis using False by (subst discui_loop.simps) (simp add: dec_small)
  qed
qed

lemma discul_loop_dec: "discul_loop v cp = dec (unat v) @ cp"
proof (induction v cp rule: discul_loop.induct)
  case (1 v cp)
  show ?case
  proof (cases "v > 9")
    case True
    then have "10 \<le> unat v" by (simp add: word_less_nat_alt)
    then show ?thesis
      using "1.IH" [OF True] True
      by (subst discul_loop.simps) (simp add: dec_step unat_div unat_mod)
  next
    case False
    then have "unat v < 10" by (simp add: word_less_nat_alt)
    then show ?thesis using False by (subst discul_loop.simps) (simp add: dec_small)
  qed
qed

lemma discui_eq: "discui_0 cp v = (dec (unat v) @ cp, of_nat (length (dec (unat v))))"
  and discul_eq: "discul_0 cp w = (dec (unat w) @ cp, of_nat (length (dec (unat w))))"
  by (simp_all add: discui_0_def discul_0_def discui_loop_dec discul_loop_dec Let_def)

lemma length_dec_uint: "length (dec (unat (v :: c_uint))) \<le> 10"
proof (rule length_dec_le)
  have "unat v < 2 ^ 32" using unsigned_less [of v] by simp
  then show "unat v < 10 ^ 10" by simp
qed simp

lemma length_dec_ulong: "length (dec (unat (v :: c_ulong))) \<le> 20"
proof (rule length_dec_le)
  have "unat v < 2 ^ 64" using unsigned_less [of v] by simp
  then show "unat v < 10 ^ 20" by simp
qed simp

lemma unat_of_nat_small: "n < 2 ^ 32 \<Longrightarrow> unat (of_nat n :: c_uint) = n"
  by (simp add: unat_of_nat)

lemma unat_ndigs_uint: "unat (of_nat (length (dec (unat (v :: c_uint)))) :: c_uint) = length (dec (unat v))"
  using length_dec_uint [of v] by (intro unat_of_nat_small) simp

lemma unat_ndigs_ulong: "unat (of_nat (length (dec (unat (v :: c_ulong)))) :: c_uint) = length (dec (unat v))"
  using length_dec_ulong [of v] by (intro unat_of_nat_small) simp

section \<open>The writers\<close>

function dis_count_loop :: "char list \<Rightarrow> c_uint \<Rightarrow> char list" where
  "dis_count_loop cp ndigs =
     (if ndigs > 1 then (case discui_0 cp ndigs of (cp', ndigs') \<Rightarrow> dis_count_loop cp' ndigs') else cp)"
  by pat_completeness auto
termination
  by (relation "measure (\<lambda>(cp, ndigs). unat ndigs)")
    (auto simp: discui_eq unat_ndigs_uint word_less_nat_alt intro: length_dec_less)

declare dis_count_loop.simps [simp del]

definition wcommit_rc :: "tcp_chan \<Rightarrow> dis_rc \<Rightarrow> dis_rc \<times> tcp_chan" where
  "wcommit_rc chan retval =
     (case tcp_wcommit chan (retval = DIS_SUCCESS) of
        (n, chan') \<Rightarrow> (if n < 0 then DIS_NOCOMMIT else retval, chan'))"

definition diswui_0 :: "tcp_chan \<Rightarrow> c_uint \<Rightarrow> dis_rc \<times> tcp_chan" where
  "diswui_0 chan value =
     (case discui_0 [] value of
        (cp, ndigs) \<Rightarrow>
          (case tcp_puts chan (dis_count_loop (CHR ''+'' # cp) ndigs) of
             (n, chan') \<Rightarrow> if n < 0 then (DIS_PROTO, chan') else (DIS_SUCCESS, chan')))"

definition diswui :: "tcp_chan \<Rightarrow> c_uint \<Rightarrow> dis_rc \<times> tcp_chan" where
  "diswui chan value = (case diswui_0 chan value of (retval, chan') \<Rightarrow> wcommit_rc chan' retval)"

definition diswsi :: "tcp_chan \<Rightarrow> c_int \<Rightarrow> dis_rc \<times> tcp_chan" where
  "diswsi chan value =
     (let (uval, c) = (if sint value < 0 then (- (value + 1) + 1, CHR ''-'') else (value, CHR ''+''));
          (cp, ndigs) = discui_0 [] uval
      in case tcp_puts chan (dis_count_loop (c # cp) ndigs) of
           (n, chan') \<Rightarrow> wcommit_rc chan' (if n < 0 then DIS_PROTO else DIS_SUCCESS))"

definition diswul :: "tcp_chan \<Rightarrow> c_ulong \<Rightarrow> dis_rc \<times> tcp_chan" where
  "diswul chan value =
     (let (cp, ndigs) = discul_0 [] value
      in case tcp_puts chan (dis_count_loop (CHR ''+'' # cp) ndigs) of
           (n, chan') \<Rightarrow> wcommit_rc chan' (if n < 0 then DIS_PROTO else DIS_SUCCESS))"

definition diswsl :: "tcp_chan \<Rightarrow> c_long \<Rightarrow> dis_rc \<times> tcp_chan" where
  "diswsl chan value =
     (let (ulval, c) = (if sint value < 0 then (- (value + 1) + 1, CHR ''-'') else (value, CHR ''+''));
          (cp, ndigs) = discul_0 [] ulval
      in case tcp_puts chan (dis_count_loop (c # cp) ndigs) of
           (n, chan') \<Rightarrow> wcommit_rc chan' (if n < 0 then DIS_PROTO else DIS_SUCCESS))"

text \<open>
  \<open>diswcs\<close> writes the first \<open>nchars\<close> bytes of \<open>value\<close>, \<open>None\<close> being the null pointer. The count is
  cut to 32 bits on the wire.
\<close>

definition diswcs :: "tcp_chan \<Rightarrow> char list option \<Rightarrow> nat \<Rightarrow> dis_rc \<times> tcp_chan" where
  "diswcs chan value nchars =
     (case value of
        None \<Rightarrow> (DIS_NOMALLOC, chan)
      | Some v \<Rightarrow>
          (case diswui_0 chan (of_nat nchars) of
             (retval, chan1) \<Rightarrow>
               if retval = DIS_SUCCESS \<and> nchars > 0 then
                 (case tcp_puts chan1 (buf_slice v 0 nchars) of
                    (n, chan2) \<Rightarrow> wcommit_rc chan2 (if n \<noteq> int nchars then DIS_PROTO else retval))
               else wcommit_rc chan1 retval))"

text \<open>The macro \<open>diswst\<close> of \<^verbatim>\<open>dis.h\<close>, on a string without NUL; \<open>diswuc\<close> on a byte.\<close>

definition diswst :: "tcp_chan \<Rightarrow> char list \<Rightarrow> dis_rc \<times> tcp_chan" where
  "diswst chan value = diswcs chan (Some value) (length value)"

definition diswuc :: "tcp_chan \<Rightarrow> 8 word \<Rightarrow> dis_rc \<times> tcp_chan" where
  "diswuc chan value = diswui chan (ucast value)"

section \<open>What is written\<close>

function dis_prefix :: "nat \<Rightarrow> char list \<Rightarrow> char list" where
  "dis_prefix n cp = (if 1 < n then dis_prefix (length (dec n)) (dec n @ cp) else cp)"
  by pat_completeness auto
termination
  by (relation "measure fst") (auto intro: length_dec_less)

declare dis_prefix.simps [simp del]

definition dis_num :: "char \<Rightarrow> nat \<Rightarrow> char list" where
  "dis_num sign n = dis_prefix (length (dec n)) (sign # dec n)"

definition dis_int :: "int \<Rightarrow> char list" where
  "dis_int i = (if i < 0 then dis_num (CHR ''-'') (nat (- i)) else dis_num (CHR ''+'') (nat i))"

definition dis_str :: "char list \<Rightarrow> char list" where
  "dis_str s = dis_num (CHR ''+'') (length s) @ s"

lemma dis_count_loop_prefix: "dis_count_loop cp v = dis_prefix (unat v) cp"
proof (induction cp v rule: dis_count_loop.induct)
  case (1 cp v)
  show ?case
  proof (cases "v > 1")
    case True
    then have "1 < unat v" by (simp add: word_less_nat_alt)
    then show ?thesis
      using "1.IH" [OF True discui_eq [symmetric]] True
      by (subst dis_count_loop.simps, subst dis_prefix.simps) (simp add: discui_eq unat_ndigs_uint)
  next
    case False
    then have "\<not> 1 < unat v" by (simp add: word_less_nat_alt)
    then show ?thesis using False by (subst dis_count_loop.simps, subst dis_prefix.simps) simp
  qed
qed

lemmas dis_text_uint = discui_eq dis_count_loop_prefix unat_ndigs_uint dis_num_def [symmetric]

lemmas dis_text_ulong = discul_eq dis_count_loop_prefix unat_ndigs_ulong dis_num_def [symmetric]

lemma unat_neg_value: "sint (v :: 'a::len word) < 0 \<Longrightarrow> unat (- (v + 1) + 1) = nat (- sint v)"
proof -
  assume neg: "sint v < 0"
  have "- sint v \<le> 2 ^ (LENGTH('a) - 1)" using sint_ge [of v] by simp
  also have "(2::int) ^ (LENGTH('a) - 1) < 2 ^ LENGTH('a)" by simp
  finally have small: "- sint v < 2 ^ LENGTH('a)" .
  have "- (v + 1) + 1 = word_of_int (- sint v)" by simp
  then have "uint (- (v + 1) + 1) = (- sint v) mod 2 ^ LENGTH('a)"
    by (metis uint_word_of_int)
  also have "\<dots> = - sint v" using neg small by (intro mod_pos_pos_trivial) simp_all
  finally show ?thesis by (simp only: unat_eq_nat_uint)
qed

lemma unat_nonneg_value: "0 \<le> sint (v :: 'a::len word) \<Longrightarrow> unat v = nat (sint v)"
proof -
  assume pos: "0 \<le> sint v"
  have "sint v < 2 ^ (LENGTH('a) - 1)" by (rule sint_lt)
  also have "(2::int) ^ (LENGTH('a) - 1) < 2 ^ LENGTH('a)" by simp
  finally have small: "sint v < 2 ^ LENGTH('a)" .
  have "v = word_of_int (sint v)" by simp
  then have "uint v = sint v mod 2 ^ LENGTH('a)"
    by (metis uint_word_of_int)
  also have "\<dots> = sint v" using pos small by (intro mod_pos_pos_trivial) simp_all
  finally show ?thesis by (simp only: unat_eq_nat_uint)
qed

text \<open>The predicate of a successful write: the bytes are appended and committed.\<close>

definition wrote :: "dis_rc \<times> tcp_chan \<Rightarrow> tcp_chan \<Rightarrow> char list \<Rightarrow> bool" where
  "wrote r c s \<longleftrightarrow> fst r = DIS_SUCCESS \<and> wchan_ok (snd r) \<and> wdata (snd r) = wdata c @ s \<and>
     same_read c (snd r) \<and> tdis_trailp (writebuf (snd r)) = tdis_leadp (writebuf (snd r)) \<and>
     sock_out (snd r) = sock_out c \<and> sock_wr (snd r) = sock_wr c"

lemma wrote_puts_commit:
  assumes "wchan_ok c"
  shows "wrote (case tcp_puts c s of (n, c') \<Rightarrow> wcommit_rc c' (if n < 0 then DIS_PROTO else DIS_SUCCESS)) c s"
proof -
  from tcp_puts_ok [OF assms, of s] obtain c1 where 1: "tcp_puts c s = (int (length s), c1)" "wchan_ok c1"
    "wdata c1 = wdata c @ s" "same_read c c1" "sock_out c1 = sock_out c" "sock_wr c1 = sock_wr c" by blast
  from wcommit_True [OF 1(2)] obtain c2 where 2: "tcp_wcommit c1 True = (0, c2)" "wchan_ok c2"
    "wdata c2 = wdata c1" "same_read c1 c2" "tdis_trailp (writebuf c2) = tdis_leadp (writebuf c2)"
    "sock_out c2 = sock_out c1" "sock_wr c2 = sock_wr c1" by blast
  show ?thesis
    using 1 2 same_read_trans by (auto simp: wrote_def wcommit_rc_def)
qed

lemma diswui_0_eq:
  "diswui_0 c v = (case tcp_puts c (dis_num (CHR ''+'') (unat v)) of
     (n, c') \<Rightarrow> if n < 0 then (DIS_PROTO, c') else (DIS_SUCCESS, c'))"
  by (simp add: diswui_0_def dis_text_uint)

lemma diswui_wrote: "wchan_ok c \<Longrightarrow> wrote (diswui c v) c (dis_num (CHR ''+'') (unat v))"
proof -
  have "diswui c v = (case tcp_puts c (dis_num (CHR ''+'') (unat v)) of
      (n, c') \<Rightarrow> wcommit_rc c' (if n < 0 then DIS_PROTO else DIS_SUCCESS))"
    by (simp add: diswui_def diswui_0_eq split: prod.split)
  then show "wchan_ok c \<Longrightarrow> ?thesis" by (simp add: wrote_puts_commit)
qed

lemma diswul_wrote: "wchan_ok c \<Longrightarrow> wrote (diswul c v) c (dis_num (CHR ''+'') (unat v))"
  by (simp add: diswul_def Let_def dis_text_ulong wrote_puts_commit)

lemma diswsi_wrote: "wchan_ok c \<Longrightarrow> wrote (diswsi c v) c (dis_int (sint v))"
proof (cases "sint v < 0")
  case True
  show "wchan_ok c \<Longrightarrow> ?thesis"
    unfolding diswsi_def Let_def dis_int_def if_P [OF True] prod.case dis_text_uint append_Nil2
      unat_neg_value [OF True] by (rule wrote_puts_commit)
next
  case False
  then show "wchan_ok c \<Longrightarrow> ?thesis"
    by (simp add: diswsi_def Let_def dis_int_def dis_text_uint unat_nonneg_value wrote_puts_commit)
qed

lemma diswsl_wrote: "wchan_ok c \<Longrightarrow> wrote (diswsl c v) c (dis_int (sint v))"
proof (cases "sint v < 0")
  case True
  show "wchan_ok c \<Longrightarrow> ?thesis"
    unfolding diswsl_def Let_def dis_int_def if_P [OF True] prod.case dis_text_ulong append_Nil2
      unat_neg_value [OF True] by (rule wrote_puts_commit)
next
  case False
  then show "wchan_ok c \<Longrightarrow> ?thesis"
    by (simp add: diswsl_def Let_def dis_int_def dis_text_ulong unat_nonneg_value wrote_puts_commit)
qed

lemma wrote_trans:
  assumes "wrote r c s" and "wrote r' (snd r) t"
  shows "wrote r' c (s @ t)"
  using assms same_read_trans by (auto simp: wrote_def)

lemma diswcs_wrote:
  assumes ok: "wchan_ok c" and len: "n < 2 ^ 32" and n: "n \<le> length v"
  shows "wrote (diswcs c (Some v) n) c (dis_str (take n v))"
proof -
  have u: "unat (of_nat n :: c_uint) = n" using len by (rule unat_of_nat_small)
  from tcp_puts_ok [OF ok] obtain c1 where 1: "tcp_puts c (dis_num (CHR ''+'') n) = (int (length (dis_num (CHR ''+'') n)), c1)"
    "wchan_ok c1" "wdata c1 = wdata c @ dis_num (CHR ''+'') n" "same_read c c1"
    "sock_out c1 = sock_out c" "sock_wr c1 = sock_wr c" by blast
  have w: "diswui_0 c (of_nat n) = (DIS_SUCCESS, c1)"
    using 1(1) by (simp add: diswui_0_eq u)
  have m: "length (take n v) = n" and sl: "buf_slice v 0 n = take n v"
    using n by (simp_all add: buf_slice_inside)
  show ?thesis
  proof (cases "n > 0")
    case True
    from tcp_puts_ok [OF 1(2), of "take n v"] obtain c2 where 2: "tcp_puts c1 (take n v) = (int n, c2)"
      "wchan_ok c2" "wdata c2 = wdata c1 @ take n v" "same_read c1 c2"
      "sock_out c2 = sock_out c1" "sock_wr c2 = sock_wr c1" by (metis m)
    from wcommit_True [OF 2(2)] obtain c3 where 3: "tcp_wcommit c2 True = (0, c3)" "wchan_ok c3"
      "wdata c3 = wdata c2" "same_read c2 c3" "tdis_trailp (writebuf c3) = tdis_leadp (writebuf c3)"
      "sock_out c3 = sock_out c2" "sock_wr c3 = sock_wr c2" by blast
    have "diswcs c (Some v) n = (DIS_SUCCESS, c3)"
      using True w sl 2(1) 3(1) by (simp add: diswcs_def wcommit_rc_def)
    moreover have "same_read c c3" using 1(4) 2(4) 3(4) same_read_trans by blast
    ultimately show ?thesis using 1 2 3 m by (simp add: wrote_def dis_str_def)
  next
    case False
    from wcommit_True [OF 1(2)] obtain c3 where 3: "tcp_wcommit c1 True = (0, c3)" "wchan_ok c3"
      "wdata c3 = wdata c1" "same_read c1 c3" "tdis_trailp (writebuf c3) = tdis_leadp (writebuf c3)"
      "sock_out c3 = sock_out c1" "sock_wr c3 = sock_wr c1" by blast
    have "diswcs c (Some v) n = (DIS_SUCCESS, c3)"
      using False w 3(1) by (simp add: diswcs_def wcommit_rc_def)
    moreover have "same_read c c3" using 1(4) 3(4) same_read_trans by blast
    ultimately show ?thesis using False 1 3 by (simp add: wrote_def dis_str_def)
  qed
qed

lemma diswst_wrote: "wchan_ok c \<Longrightarrow> length s < 2 ^ 32 \<Longrightarrow> wrote (diswst c s) c (dis_str s)"
  using diswcs_wrote [of c "length s" s] by (simp add: diswst_def)

lemma diswuc_wrote: "wchan_ok c \<Longrightarrow> wrote (diswuc c b) c (dis_num (CHR ''+'') (unat b))"
proof -
  have "unat (ucast b :: c_uint) = unat b"
  proof -
    have "unat b < 2 ^ LENGTH(8)" by (rule unsigned_less)
    then show ?thesis by (simp add: unsigned_ucast_eq take_bit_eq_mod)
  qed
  then show "wchan_ok c \<Longrightarrow> ?thesis" using diswui_wrote [of c "ucast b"] by (simp add: diswuc_def)
qed

section \<open>The scratch array\<close>

text \<open>
  The longest text any number writer builds has 24 bytes, so with its closing NUL it fits into the
  scratch array of \<open>DIS_BUFSIZ\<close> (64) bytes.
\<close>

definition DIS_BUFSIZ :: nat where
  "DIS_BUFSIZ = 64"

lemma length_dis_prefix_small: "n \<le> 20 \<Longrightarrow> length (dis_prefix n cp) \<le> 3 + length cp"
proof -
  assume n: "n \<le> 20"
  have step1: "length (dis_prefix k cp') \<le> 1 + length cp'" if "k < 10" for k cp'
    using that by (subst dis_prefix.simps) (simp add: dec_small dis_prefix.simps)
  show ?thesis
  proof (cases "n < 10")
    case True
    then show ?thesis using step1 [of n cp] by simp
  next
    case False
    then have "dec n = dec (n div 10) @ [digit_char (n mod 10)]" by (simp add: dec_step)
    moreover have "n div 10 < 10" using n by simp
    ultimately have "length (dec n) = 2" by (simp add: dec_small)
    then show ?thesis using False step1 [of 2 "dec n @ cp"] by (subst dis_prefix.simps) simp
  qed
qed

lemma dis_num_length: "length (dec n) \<le> 20 \<Longrightarrow> length (dis_num c n) \<le> 4 + length (dec n)"
  using length_dis_prefix_small [of "length (dec n)" "c # dec n"] by (simp add: dis_num_def)

end
