(* ===== verification/Dis_Read.thy ===== *)
theory Dis_Read
  imports Dis_Write
begin

text \<open>
  The readers of the Data-is-Strings codec (\<^verbatim>\<open>src/lib/Libdis/disr*.c\<close>). \<open>disrsi_0\<close> and \<open>disrsl_0\<close> are the
  code's \<open>disrsi_\<close> and \<open>disrsl_\<close> (a name of the logic cannot end in an underscore): they read a count,
  then a count of that length, until a sign comes, then the digits.

  The output parameters \<open>negate\<close> and \<open>value\<close> are passed in and returned: what the caller's local
  variables hold before the call is visible in the result on the paths where the code does not assign
  them. A function whose locals start indeterminate takes that first value of \<open>negate\<close> as the argument
  \<open>junk\<close>. The time-out argument only reaches \<open>socket_read\<close> and is left out.
\<close>

section \<open>How much input there is\<close>

definition avail :: "tcp_chan \<Rightarrow> nat" where
  "avail c = (tdis_eod (readbuf c) - tdis_leadp (readbuf c)) + length (all_in (sock_in c))"

lemma tcp_read_avail:
  assumes "tcp_read c dr da = (PBSE_NONE, dr', da', c')"
  shows "avail c' \<le> avail c \<and> da' = tdis_eod (readbuf c') - tdis_leadp (readbuf c')"
  using assms
  by (auto simp: tcp_read_def sock_next_def tcp_pack_buff_def avail_def Let_def
      split: list.splits sock_result.splits if_splits)

lemma tcp_fill_avail:
  "tcp_fill c ct dr da = (0, c') \<Longrightarrow> da = tdis_eod (readbuf c) - tdis_leadp (readbuf c) \<Longrightarrow>
   avail c' \<le> avail c \<and> ct \<le> tdis_eod (readbuf c') - tdis_leadp (readbuf c')"
proof (induction c ct dr da rule: tcp_fill.induct)
  case (1 c ct dr da)
  show ?case
  proof (cases "da < ct")
    case False
    then have "tcp_fill c ct dr da = (0, c)" by (simp add: tcp_fill.simps)
    then show ?thesis using "1.prems" False by simp
  next
    case True
    obtain rc dr' da' c1 where r: "tcp_read c dr da = (rc, dr', da', c1)"
      by (metis prod.exhaust)
    have none: "rc = PBSE_NONE" and f: "tcp_fill c1 ct dr' da' = (0, c')"
      using "1.prems"(1) True r by (auto simp: tcp_fill.simps [of c ct dr da] split: if_splits)
    note av = tcp_read_avail [OF r [unfolded none]]
    then show ?thesis
      using "1.IH" [OF True r [symmetric] refl refl] none f by auto
  qed
qed

lemma tcp_fill_rc: "tcp_fill c ct dr da = (rc, c') \<Longrightarrow> rc < 0 \<or> rc = 0"
proof (induction c ct dr da rule: tcp_fill.induct)
  case (1 c ct dr da)
  show ?case
  proof (cases "da < ct")
    case False
    then show ?thesis using "1.prems" by (simp add: tcp_fill.simps)
  next
    case True
    obtain rc' dr' da' c1 where r: "tcp_read c dr da = (rc', dr', da', c1)"
      by (metis prod.exhaust)
    show ?thesis
      using "1.prems" True r "1.IH" [OF True r [symmetric] refl refl]
      by (auto simp: tcp_fill.simps [of c ct dr da] split: if_splits)
  qed
qed

lemma tcp_gets_avail:
  assumes "tcp_gets c ct = (n, s, c')" and "0 \<le> n"
  shows "avail c' + ct \<le> avail c"
proof -
  obtain rc c1 where f: "tcp_fill c ct 0 (tdis_eod (readbuf c) - tdis_leadp (readbuf c)) = (rc, c1)"
    by (metis prod.exhaust)
  have rc: "rc = 0" using tcp_fill_rc [OF f] f assms by (auto simp: tcp_gets_def)
  have c': "c' = c1\<lparr>readbuf := readbuf c1\<lparr>tdis_leadp := tdis_leadp (readbuf c1) + ct\<rparr>\<rparr>"
    using f rc assms(1) by (simp add: tcp_gets_def Let_def)
  show ?thesis
    using tcp_fill_avail [OF f [unfolded rc] refl] by (auto simp: c' avail_def)
qed

lemma tcp_getc_avail: "tcp_getc c = (x, c') \<Longrightarrow> 0 \<le> x \<Longrightarrow> avail c' < avail c"
  using tcp_gets_avail [of c 1] by (fastforce simp: tcp_getc_def split: prod.splits if_splits)

section \<open>Numbers\<close>

lemma schar_digits:
  "schar (CHR ''-'') = 45" "schar (CHR ''+'') = 43" "schar (CHR ''0'') = 48" "schar (CHR ''1'') = 49"
  "schar (CHR ''9'') = 57"
  by (simp_all add: schar_def)

text \<open>The digit loop: each byte must be a digit, the value wraps at the width of the type.\<close>

fun conv_digits :: "'a::len word \<Rightarrow> char list \<Rightarrow> 'a word option" where
  "conv_digits v [] = Some v"
| "conv_digits v (c # s) =
     (if schar c < 48 \<or> schar c > 57 then None
      else conv_digits (10 * v + word_of_int (schar c) - 48) s)"

text \<open>\<open>disiui_\<close>: the digits of \<open>UINT_MAX\<close>; and the same for \<open>ULONG_MAX\<close> in \<open>disrsl_\<close>.\<close>

definition dis_umax :: "char list" where
  "dis_umax = fst (discui_0 [] (- 1))"

definition dis_umaxd :: nat where
  "dis_umaxd = unat (snd (discui_0 [] (- 1)))"

definition ulmax :: "char list" where
  "ulmax = fst (discul_0 [] (- 1))"

definition ulmaxdigs :: nat where
  "ulmaxdigs = unat (snd (discul_0 [] (- 1)))"

function disrsi_0 :: "tcp_chan \<Rightarrow> bool \<Rightarrow> c_uint \<Rightarrow> c_uint \<Rightarrow> dis_rc \<times> bool \<times> c_uint \<times> tcp_chan" where
  "disrsi_0 chan negate value count =
     (if count = 0 then (DIS_INVALID, negate, value, chan)
      else if unat count > DIS_BUFSIZ - 1 then (DIS_INVALID, negate, value, chan)
      else
        (case tcp_getc chan of
           (c, chan1) \<Rightarrow>
             if c = schar (CHR ''-'') \<or> c = schar (CHR ''+'') then
               (let negate' = (c = schar (CHR ''-'')) in
                case tcp_gets chan1 (unat count) of
                  (n, scratch, chan2) \<Rightarrow>
                    if n \<noteq> int (unat count) then (DIS_EOD, negate', value, chan2)
                    else if unat count > dis_umaxd then (DIS_OVERFLOW, negate', - 1, chan2)
                    else if unat count = dis_umaxd \<and> memcmp scratch dis_umax > 0
                      then (DIS_OVERFLOW, negate', - 1, chan2)
                    else
                      (case conv_digits 0 scratch of
                         None \<Rightarrow> (DIS_NONDIGIT, negate', value, chan2)
                       | Some locval \<Rightarrow> (DIS_SUCCESS, negate', locval, chan2)))
             else if c = schar (CHR ''0'') then (DIS_LEADZRO, negate, value, chan1)
             else if schar (CHR ''1'') \<le> c \<and> c \<le> schar (CHR ''9'') then
               (let ndigs = word_of_int (c - 48) in
                if count > 1 then
                  (case tcp_gets chan1 (unat count - 1) of
                     (n, rest, chan2) \<Rightarrow>
                       if n \<noteq> int (unat count) - 1 then (DIS_EOD, negate, value, chan2)
                       else if unat count > dis_umaxd \<or>
                         (unat count = dis_umaxd \<and> memcmp (char_of (nat c) # rest) dis_umax > 0)
                         then (DIS_OVERFLOW, False, - 1, chan2)
                       else
                         (case conv_digits ndigs rest of
                            None \<Rightarrow> (DIS_NONDIGIT, negate, value, chan2)
                          | Some ndigs' \<Rightarrow> disrsi_0 chan2 negate value ndigs'))
                else disrsi_0 chan1 negate value ndigs)
             else if c = - 1 then (DIS_EOD, negate, value, chan1)
             else if c = - 2 then (DIS_EOF, negate, value, chan1)
             else (DIS_NONDIGIT, negate, value, chan1)))"
  by pat_completeness auto
termination
proof (relation "measure (\<lambda>(chan, negate, value, count). avail chan)", goal_cases)
  case 1
  show ?case by simp
next
  case (2 chan negate v count c chan1 ndigs n y rest chan2 ndigs')
  have "avail chan1 < avail chan"
    using 2(3,6) by (intro tcp_getc_avail [of chan c chan1]) (auto simp: schar_digits)
  moreover have "avail chan2 + (unat count - 1) \<le> avail chan1"
  proof (rule tcp_gets_avail)
    show "tcp_gets chan1 (unat count - 1) = (n, rest, chan2)" using 2(9,10) by simp
    have "1 < unat count" using 2(8) by (simp add: word_less_nat_alt)
    then show "0 \<le> n" using 2(11) by linarith
  qed
  ultimately show ?case by simp
next
  case (3 chan negate v count c chan1 ndigs)
  then show ?case using tcp_getc_avail [of chan c chan1] by (auto simp: schar_digits)
qed

text \<open>
  \<open>disrsl_\<close> checks the count against the digits of \<open>ULONG_MAX\<close> before it reads anything; the scratch
  array is all zero then, and \<open>negate\<close> has not been assigned.
\<close>

function disrsl_0 :: "tcp_chan \<Rightarrow> bool \<Rightarrow> c_ulong \<Rightarrow> c_ulong \<Rightarrow> dis_rc \<times> bool \<times> c_ulong \<times> tcp_chan" where
  "disrsl_0 chan negate value count =
     (if count = 0 then (DIS_ABORT, negate, value, chan)
      else if unat count > ulmaxdigs then (DIS_OVERFLOW, negate, - 1, chan)
      else if unat count = ulmaxdigs \<and> memcmp (replicate ulmaxdigs NUL) ulmax > 0
        then (DIS_OVERFLOW, negate, - 1, chan)
      else
        (case tcp_getc chan of
           (c, chan1) \<Rightarrow>
             if c = schar (CHR ''-'') \<or> c = schar (CHR ''+'') then
               (let negate' = (c = schar (CHR ''-'')) in
                case tcp_gets chan1 (unat count) of
                  (n, scratch, chan2) \<Rightarrow>
                    if n \<noteq> int (unat count) then (DIS_EOD, negate', value, chan2)
                    else if unat count > ulmaxdigs then (DIS_OVERFLOW, negate', - 1, chan2)
                    else if unat count = ulmaxdigs \<and> memcmp scratch ulmax > 0
                      then (DIS_OVERFLOW, negate', - 1, chan2)
                    else
                      (case conv_digits 0 scratch of
                         None \<Rightarrow> (DIS_NONDIGIT, negate', value, chan2)
                       | Some locval \<Rightarrow> (DIS_SUCCESS, negate', locval, chan2)))
             else if c = schar (CHR ''0'') then (DIS_LEADZRO, negate, value, chan1)
             else if schar (CHR ''1'') \<le> c \<and> c \<le> schar (CHR ''9'') then
               (let ndigs = word_of_int (c - 48) in
                if count > 1 then
                  (case tcp_gets chan1 (unat count - 1) of
                     (n, rest, chan2) \<Rightarrow>
                       if n \<noteq> int (unat count) - 1 then (DIS_EOD, negate, value, chan2)
                       else if unat count > ulmaxdigs \<or>
                         (unat count = ulmaxdigs \<and> memcmp (char_of (nat c) # rest) ulmax > 0)
                         then (DIS_OVERFLOW, False, - 1, chan2)
                       else
                         (case conv_digits ndigs rest of
                            None \<Rightarrow> (DIS_NONDIGIT, negate, value, chan2)
                          | Some ndigs' \<Rightarrow> disrsl_0 chan2 negate value ndigs'))
                else disrsl_0 chan1 negate value ndigs)
             else if c = - 1 then (DIS_EOD, negate, value, chan1)
             else if c = - 2 then (DIS_EOF, negate, value, chan1)
             else (DIS_NONDIGIT, negate, value, chan1)))"
  by pat_completeness auto
termination
proof (relation "measure (\<lambda>(chan, negate, value, count). avail chan)", goal_cases)
  case 1
  show ?case by simp
next
  case (2 chan negate v count c chan1 ndigs n y rest chan2 ndigs')
  have "avail chan1 < avail chan"
    using 2(4,7) by (intro tcp_getc_avail [of chan c chan1]) (auto simp: schar_digits)
  moreover have "avail chan2 + (unat count - 1) \<le> avail chan1"
  proof (rule tcp_gets_avail)
    show "tcp_gets chan1 (unat count - 1) = (n, rest, chan2)" using 2(10,11) by simp
    have "1 < unat count" using 2(9) by (simp add: word_less_nat_alt)
    then show "0 \<le> n" using 2(12) by linarith
  qed
  ultimately show ?case by simp
next
  case (3 chan negate v count c chan1 ndigs)
  then show ?case using tcp_getc_avail [of chan c chan1] by (auto simp: schar_digits)
qed

declare disrsi_0.simps [simp del] disrsl_0.simps [simp del]

definition rcommit_rc :: "tcp_chan \<Rightarrow> dis_rc \<Rightarrow> dis_rc \<times> tcp_chan" where
  "rcommit_rc chan locret =
     (case tcp_rcommit chan (locret = DIS_SUCCESS) of
        (n, chan') \<Rightarrow> (if n < 0 then DIS_NOCOMMIT else locret, chan'))"

definition disrui :: "tcp_chan \<Rightarrow> c_uint \<times> dis_rc \<times> tcp_chan" where
  "disrui chan =
     (case disrsi_0 chan False 0 1 of
        (locret, negate, value, chan1) \<Rightarrow>
          (let (value', locret') =
                 (if locret \<noteq> DIS_SUCCESS then (0, locret)
                  else if negate then (0, DIS_BADSIGN)
                  else (value, locret))
           in (value', rcommit_rc chan1 locret')))"

definition disrui_peek :: "tcp_chan \<Rightarrow> c_uint \<times> dis_rc \<times> tcp_chan" where
  "disrui_peek chan =
     (case disrsi_0 chan False 0 1 of
        (locret, negate, value, chan1) \<Rightarrow>
          if locret \<noteq> DIS_SUCCESS then (0, locret, chan1)
          else if negate then (0, DIS_BADSIGN, chan1)
          else (value, locret, chan1))"

text \<open>\<open>disrsi\<close> commits on success only; on every error the read position stays where it is.\<close>

definition disrsi :: "tcp_chan \<Rightarrow> c_int \<times> dis_rc \<times> tcp_chan" where
  "disrsi chan =
     (case disrsi_0 chan False 0 1 of
        (locret, negate, uvalue, chan1) \<Rightarrow>
          (if locret = DIS_SUCCESS then
             (if (if negate then uvalue \<le> 2 ^ 31 else uvalue \<le> 2 ^ 31 - 1)
              then ((if negate then - uvalue else uvalue), rcommit_rc chan1 locret)
              else ((if negate then 2 ^ 31 else 2 ^ 31 - 1), DIS_OVERFLOW, chan1))
           else if locret = DIS_OVERFLOW then ((if negate then 2 ^ 31 else 2 ^ 31 - 1), locret, chan1)
           else (0, locret, chan1)))"

definition disrul :: "tcp_chan \<Rightarrow> c_ulong \<times> dis_rc \<times> tcp_chan" where
  "disrul chan =
     (case disrsl_0 chan False 0 1 of
        (locret, negate, value, chan1) \<Rightarrow>
          (let (value', locret') =
                 (if locret \<noteq> DIS_SUCCESS then (0, locret)
                  else if negate then (0, DIS_BADSIGN)
                  else (value, locret))
           in (value', rcommit_rc chan1 locret')))"

definition disrsl :: "bool \<Rightarrow> tcp_chan \<Rightarrow> c_long \<times> dis_rc \<times> tcp_chan" where
  "disrsl junk chan =
     (case disrsl_0 chan junk 0 1 of
        (locret, negate, uvalue, chan1) \<Rightarrow>
          (if locret = DIS_SUCCESS \<and> (if negate then uvalue \<le> 2 ^ 63 else uvalue \<le> 2 ^ 63 - 1)
           then ((if negate then - uvalue else uvalue), rcommit_rc chan1 locret)
           else if locret = DIS_SUCCESS \<or> locret = DIS_OVERFLOW
           then ((if negate then 2 ^ 63 else 2 ^ 63 - 1), rcommit_rc chan1 DIS_OVERFLOW)
           else (0, rcommit_rc chan1 locret)))"

text \<open>The narrow readers: \<open>disruc\<close>, \<open>disrus\<close> saturate; \<open>disrsc\<close>, \<open>disrss\<close> test the negated value as an \<open>int\<close>.\<close>

definition disruc :: "tcp_chan \<Rightarrow> 8 word \<times> dis_rc \<times> tcp_chan" where
  "disruc chan =
     (case disrsi_0 chan False 0 1 of
        (locret, negate, value, chan1) \<Rightarrow>
          (let (value', locret') =
                 (if locret \<noteq> DIS_SUCCESS then (0, locret)
                  else if negate then (0, DIS_BADSIGN)
                  else if value > 255 then (255, DIS_OVERFLOW)
                  else (value, locret))
           in (ucast value', rcommit_rc chan1 locret')))"

definition disrus :: "tcp_chan \<Rightarrow> 16 word \<times> dis_rc \<times> tcp_chan" where
  "disrus chan =
     (case disrsi_0 chan False 0 1 of
        (locret, negate, value, chan1) \<Rightarrow>
          (let (value', locret') =
                 (if locret \<noteq> DIS_SUCCESS then (0, locret)
                  else if negate then (0, DIS_BADSIGN)
                  else if value > 65535 then (65535, DIS_OVERFLOW)
                  else (value, locret))
           in (ucast value', rcommit_rc chan1 locret')))"

definition disrsc :: "tcp_chan \<Rightarrow> 8 word \<times> dis_rc \<times> tcp_chan" where
  "disrsc chan =
     (case disrsi_0 chan False 0 1 of
        (locret, negate, uvalue, chan1) \<Rightarrow>
          (if locret = DIS_SUCCESS \<and> (if negate then - 128 \<le> sint (- uvalue) else uvalue \<le> 127)
           then (ucast (if negate then - uvalue else uvalue), rcommit_rc chan1 locret)
           else if locret = DIS_SUCCESS \<or> locret = DIS_OVERFLOW
           then ((if negate then - 128 else 127), rcommit_rc chan1 DIS_OVERFLOW)
           else (0, rcommit_rc chan1 locret)))"

definition disrss :: "tcp_chan \<Rightarrow> 16 word \<times> dis_rc \<times> tcp_chan" where
  "disrss chan =
     (case disrsi_0 chan False 0 1 of
        (locret, negate, uvalue, chan1) \<Rightarrow>
          (if locret = DIS_SUCCESS \<and> (if negate then - 32768 \<le> sint (- uvalue) else uvalue \<le> 32767)
           then (ucast (if negate then - uvalue else uvalue), rcommit_rc chan1 locret)
           else if locret = DIS_SUCCESS \<or> locret = DIS_OVERFLOW
           then ((if negate then - 32768 else 32767), rcommit_rc chan1 DIS_OVERFLOW)
           else (0, rcommit_rc chan1 locret)))"

section \<open>Strings\<close>

text \<open>
  \<open>disrst\<close> and \<open>disrcs\<close> allocate the string; \<open>disrfst\<close> and \<open>disrfcs\<close> fill an array of \<open>achars + 1\<close> (or
  \<open>achars\<close>) bytes of the caller and return what they stored there. \<open>disrst\<close> leaves the read position alone when
  the count cannot be read; \<open>disrcs\<close> looks at \<open>negate\<close> even then.
\<close>

definition disrst :: "tcp_chan \<Rightarrow> char list option \<times> dis_rc \<times> tcp_chan" where
  "disrst chan =
     (case disrsi_0 chan False 0 1 of
        (locret, negate, count, chan1) \<Rightarrow>
          if locret = DIS_SUCCESS then
            (let (value, locret', chan2) =
                   (if negate then (None, DIS_BADSIGN, chan1)
                    else if \<not> heap_ok chan1 (unat count + 1) then (None, DIS_NOMALLOC, chan1)
                    else (case tcp_gets chan1 (unat count) of
                            (n, v, chan2) \<Rightarrow>
                              if n \<noteq> int (unat count) then (None, DIS_PROTO, chan2)
                              else if NUL \<in> set v then (None, DIS_NULLSTR, chan2)
                              else (Some v, locret, chan2)));
                 (rc, chan3) = rcommit_rc chan2 locret'
             in (if rc \<noteq> DIS_SUCCESS then None else value, rc, chan3))
          else (None, locret, chan1))"

definition disrcs :: "bool \<Rightarrow> tcp_chan \<Rightarrow> char list option \<times> nat \<times> dis_rc \<times> tcp_chan" where
  "disrcs junk chan =
     (case disrsi_0 chan junk 0 1 of
        (locret0, negate, count, chan1) \<Rightarrow>
          (let locret = (if negate then DIS_BADSIGN else locret0);
               (value, locret', chan2) =
                 (if locret = DIS_SUCCESS then
                    (if \<not> heap_ok chan1 (unat count + 1) then (None, DIS_NOMALLOC, chan1)
                     else (case tcp_gets chan1 (unat count) of
                             (n, v, chan2) \<Rightarrow>
                               if n \<noteq> int (unat count) then (Some [], DIS_PROTO, chan2)
                               else (Some v, locret, chan2)))
                  else (None, locret, chan1));
               (rc, chan3) = rcommit_rc chan2 locret'
           in if rc \<noteq> DIS_SUCCESS \<and> value \<noteq> None then (None, 0, rc, chan3)
              else (value, unat count, rc, chan3)))"

definition disrfst :: "tcp_chan \<Rightarrow> nat \<Rightarrow> dis_rc \<times> char list \<times> tcp_chan" where
  "disrfst chan achars =
     (case disrsi_0 chan False 0 1 of
        (locret, negate, count, chan1) \<Rightarrow>
          (let (value, locret', chan2) =
                 (if locret = DIS_SUCCESS then
                    (if negate then ([], DIS_BADSIGN, chan1)
                     else if unat count > achars then ([], DIS_OVERFLOW, chan1)
                     else (case tcp_gets chan1 (unat count) of
                             (n, v, chan2) \<Rightarrow>
                               if n \<noteq> int (unat count) then ([], DIS_PROTO, chan2)
                               else if NUL \<in> set v then (v, DIS_NULLSTR, chan2)
                               else (v, locret, chan2)))
                  else ([], locret, chan1));
               (rc, chan3) = (case tcp_rcommit chan2 (locret' = DIS_SUCCESS) of
                                (n, chan3) \<Rightarrow> (if n \<noteq> 0 then DIS_NOCOMMIT else locret', chan3))
           in (rc, (if rc \<noteq> DIS_SUCCESS then [] else value), chan3)))"

definition disrfcs :: "tcp_chan \<Rightarrow> nat \<Rightarrow> dis_rc \<times> nat \<times> char list \<times> tcp_chan" where
  "disrfcs chan achars =
     (case disrsi_0 chan False 0 1 of
        (locret, negate, count, chan1) \<Rightarrow>
          (let (value, locret', chan2) =
                 (if locret = DIS_SUCCESS then
                    (if negate then ([], DIS_BADSIGN, chan1)
                     else if unat count > achars then ([], DIS_OVERFLOW, chan1)
                     else (case tcp_gets chan1 (unat count) of
                             (n, v, chan2) \<Rightarrow>
                               if n \<noteq> int (unat count) then ([], DIS_PROTO, chan2)
                               else (v, locret, chan2)))
                  else ([], locret, chan1));
               (rc, chan3) = (case tcp_rcommit chan2 (locret' = DIS_SUCCESS) of
                                (n, chan3) \<Rightarrow> (if n \<noteq> 0 then DIS_NOCOMMIT else locret', chan3))
           in (rc, (if rc \<noteq> DIS_SUCCESS then 0 else unat count), value, chan3)))"

section \<open>Reading what was written\<close>

lemma length_dec_umax [simp]: "length (dec 4294967295) = 10"
  by (simp add: dec.simps)

lemma length_dec_ulmax [simp]: "length (dec 18446744073709551615) = 20"
  by (simp add: dec.simps)

lemma umax_facts: "dis_umax = dec 4294967295" "dis_umaxd = 10"
  by (simp_all add: dis_umax_def dis_umaxd_def discui_eq unsigned_minus_1_eq_mask mask_eq_exp_minus_1)

lemma ulmax_facts: "ulmax = dec 18446744073709551615" "ulmaxdigs = 20"
  by (simp_all add: ulmax_def ulmaxdigs_def discul_eq unsigned_minus_1_eq_mask mask_eq_exp_minus_1)

lemma conv_digits_dval:
  "(\<And>c. c \<in> set s \<Longrightarrow> is_digit c) \<Longrightarrow> conv_digits (of_nat a) s = Some (of_nat (dval_from a s))"
proof (induction s arbitrary: a)
  case (Cons c s)
  have d: "is_digit c" using Cons.prems by simp
  then have range: "\<not> (schar c < 48 \<or> schar c > 57)" by (auto simp: is_digit_schar)
  have e: "10 * of_nat a + word_of_int (schar c) - 48 = (of_nat (10 * a + digit_val c) :: 'a word)"
    by (simp add: schar_digit [OF d])
  have "conv_digits (of_nat (10 * a + digit_val c) :: 'a word) s = Some (of_nat (dval_from (10 * a + digit_val c) s))"
    by (rule Cons.IH) (simp add: Cons.prems)
  then show ?case by (simp only: conv_digits.simps range if_False e dval_from_Cons)
qed simp

lemma conv_digits_dec: "conv_digits 0 (dec n) = Some (of_nat n)"
  using conv_digits_dval [of "dec n" 0] dec_digits by auto

text \<open>What has been read and not committed, then what is still to come: no reader loses any of it.\<close>

definition whole :: "tcp_chan \<Rightarrow> char list" where
  "whole c = uncommitted c @ pending c"

definition read_step :: "tcp_chan \<Rightarrow> tcp_chan \<Rightarrow> char list \<Rightarrow> bool" where
  "read_step c c' rest \<longleftrightarrow> rchan_ok c' \<and> pending c' = rest \<and> whole c' = whole c \<and> same_write c c'"

lemma read_step_trans: "read_step a b r \<Longrightarrow> read_step b c r' \<Longrightarrow> read_step a c r'"
  by (auto simp: read_step_def intro: same_write_trans)

lemma getc_step:
  assumes "rchan_ok c" and "pending c = x # xs"
  obtains c' where "tcp_getc c = (schar x, c')" and "read_step c c' xs"
  using tcp_getc_ok [OF assms] assms(2) by (metis (no_types) append_Cons append_Nil append_assoc read_step_def whole_def)

lemma gets_step:
  assumes "rchan_ok c" and "pending c = s @ t"
  obtains c' where "tcp_gets c (length s) = (int (length s), s, c')" and "read_step c c' t"
proof -
  from tcp_gets_ok [OF assms(1), of "length s"] assms(2) obtain c' where
    "tcp_gets c (length s) = (int (length s), s, c')" "rchan_ok c'" "uncommitted c' = uncommitted c @ s"
    "pending c' = t" "same_write c c'" by auto
  then show ?thesis using that assms(2) by (simp add: read_step_def whole_def)
qed

lemma hd_dec_range: "0 < n \<Longrightarrow> 49 \<le> schar (hd (dec n)) \<and> schar (hd (dec n)) \<le> 57"
proof -
  assume "0 < n"
  then have "hd (dec n) \<noteq> CHR ''0''" by (rule hd_dec_nonzero)
  then have "schar (hd (dec n)) \<noteq> 48" using schar_inj schar_digits(3) by metis
  moreover have "is_digit (hd (dec n))" by (simp add: dec_digits [of _ n])
  ultimately show ?thesis by (auto simp: is_digit_schar)
qed

lemma length_dec_two: "n \<le> 63 \<Longrightarrow> length (dec n) \<le> 2"
  by (rule length_dec_le) simp_all

text \<open>One round of the count loop: the digits of a count are replaced by the count.\<close>

lemma disrsi_count:
  assumes ok: "rchan_ok c" and p: "pending c = dec n @ t" and n: "1 < n" "n \<le> 63"
  obtains c' where "disrsi_0 c neg v (of_nat (length (dec n))) = disrsi_0 c' neg v (of_nat n)"
    and "read_step c c' t"
proof -
  let ?k = "length (dec n)"
  obtain x xs where d: "dec n = x # xs" by (cases "dec n") auto
  have k: "0 < ?k" "?k \<le> 2" using length_dec_two n by auto
  have uk: "unat (of_nat ?k :: c_uint) = ?k" using k by (simp add: unat_of_nat)
  have nz: "(of_nat ?k :: c_uint) \<noteq> 0" using uk k by (metis less_irrefl unat_0)
  have rng: "49 \<le> schar x" "schar x \<le> 57" using hd_dec_range [of n] n d by auto
  have dig: "is_digit x" "\<And>y. y \<in> set xs \<Longrightarrow> is_digit y" using dec_digits [of _ n] d by auto
  obtain c1 where c1: "tcp_getc c = (schar x, c1)" "read_step c c1 (xs @ t)"
    using getc_step [OF ok, of x "xs @ t"] p d by auto
  have ok1: "rchan_ok c1" "pending c1 = xs @ t" using c1(2) by (auto simp: read_step_def)
  obtain c2 where c2: "tcp_gets c1 (length xs) = (int (length xs), xs, c2)" "read_step c1 c2 t"
    using gets_step [OF ok1] by blast
  have nd: "word_of_int (schar x - 48) = (of_nat (digit_val x) :: c_uint)"
    by (simp add: schar_digit [OF dig(1)])
  have val: "dval_from (digit_val x) xs = n" using dval_dec [of n] d by simp
  have len: "length xs = ?k - 1" using d by simp
  have one: "of_nat ?k > (1 :: c_uint) \<longleftrightarrow> 1 < ?k" by (simp add: word_less_nat_alt uk)
  show ?thesis
  proof (cases "1 < ?k")
    case True
    have "disrsi_0 c neg v (of_nat ?k) = disrsi_0 c2 neg v (of_nat n)"
      using c1(1) c2(1) rng k uk nz one True len nd
      by (subst disrsi_0.simps) (simp add: DIS_BUFSIZ_def schar_digits umax_facts Let_def
          conv_digits_dval [OF dig(2)] val)
    then show ?thesis using that read_step_trans [OF c1(2) c2(2)] by blast
  next
    case False
    then have xs: "xs = []" using len k by simp
    then have "disrsi_0 c neg v (of_nat ?k) = disrsi_0 c1 neg v (of_nat n)"
      using c1(1) rng k uk nz one False nd val
      by (subst disrsi_0.simps) (simp add: DIS_BUFSIZ_def schar_digits Let_def)
    then show ?thesis using that c1(2) xs by simp
  qed
qed

lemma disrsi_prefix:
  "rchan_ok c \<Longrightarrow> pending c = dis_prefix n cp @ t \<Longrightarrow> 0 < n \<Longrightarrow> n \<le> 63 \<Longrightarrow>
   \<exists>c'. disrsi_0 c neg v 1 = disrsi_0 c' neg v (of_nat n) \<and> read_step c c' (cp @ t)"
proof (induction n cp rule: dis_prefix.induct)
  case (1 n cp)
  show ?case
  proof (cases "1 < n")
    case True
    have len: "0 < length (dec n)" "length (dec n) \<le> 63"
      using length_dec_two [OF "1.prems"(4)] by auto
    have "pending c = dis_prefix (length (dec n)) (dec n @ cp) @ t"
      using "1.prems"(2) True by (simp add: dis_prefix.simps [of n])
    then obtain c1 where c1: "disrsi_0 c neg v 1 = disrsi_0 c1 neg v (of_nat (length (dec n)))"
      "read_step c c1 ((dec n @ cp) @ t)"
      using "1.IH" [OF True "1.prems"(1) _ len] by blast
    from c1(2) have "rchan_ok c1" "pending c1 = dec n @ (cp @ t)" by (auto simp: read_step_def)
    then obtain c2 where "disrsi_0 c1 neg v (of_nat (length (dec n))) = disrsi_0 c2 neg v (of_nat n)"
      "read_step c1 c2 (cp @ t)"
      using disrsi_count True "1.prems"(4) by blast
    then show ?thesis using c1(1) read_step_trans [OF c1(2)] by (metis (no_types))
  next
    case False
    then have "n = 1" using "1.prems" by simp
    then show ?thesis
      using "1.prems" by (auto simp: dis_prefix.simps read_step_def)
  qed
qed

text \<open>The digits after the sign, for every number of at most 63 digits.\<close>

lemma disrsi_digits:
  assumes ok: "rchan_ok c" and p: "pending c = sign # dec n @ t" and sign: "sign = CHR ''-'' \<or> sign = CHR ''+''"
    and n: "length (dec n) \<le> 63"
  obtains c' where "disrsi_0 c neg v (of_nat (length (dec n))) =
      (if n < 2 ^ 32 then (DIS_SUCCESS, sign = CHR ''-'', of_nat n, c')
       else (DIS_OVERFLOW, sign = CHR ''-'', - 1, c'))"
    and "read_step c c' t"
proof -
  let ?k = "length (dec n)"
  have uk: "unat (of_nat ?k :: c_uint) = ?k" using n by (simp add: unat_of_nat)
  have nz: "(of_nat ?k :: c_uint) \<noteq> 0" using uk length_dec_pos [of n] by (metis less_irrefl unat_0)
  obtain c1 where c1: "tcp_getc c = (schar sign, c1)" "read_step c c1 (dec n @ t)"
    using getc_step [OF ok p] by blast
  have ok1: "rchan_ok c1" "pending c1 = dec n @ t" using c1(2) by (auto simp: read_step_def)
  obtain c2 where c2: "tcp_gets c1 ?k = (int ?k, dec n, c2)" "read_step c1 c2 t"
    using gets_step [OF ok1] by blast
  have big: "n < 2 ^ 32 \<longleftrightarrow> \<not> (?k > dis_umaxd \<or> ?k = dis_umaxd \<and> memcmp (dec n) dis_umax > 0)"
  proof (cases "?k = 10")
    case True
    then have "memcmp (dec n) dis_umax > 0 \<longleftrightarrow> 4294967295 < n"
      unfolding umax_facts by (subst memcmp_digits) (simp_all add: dec_digits)
    then show ?thesis using True by (auto simp: umax_facts)
  next
    case False
    show ?thesis
    proof (cases "10 < ?k")
      case True
      have "(10::nat) ^ 10 \<le> 10 ^ (?k - 1)" using True by (intro power_increasing) simp_all
      also have "\<dots> \<le> n" by (rule dec_lower) (use True in \<open>cases n; simp add: dec_small\<close>)
      finally show ?thesis using True by (simp add: umax_facts)
    next
      case small: False
      then have "?k \<le> 9" using False by simp
      then have "n < 10 ^ 9" using dec_upper [of n] power_increasing [of ?k 9 "10::nat"] by linarith
      then show ?thesis using small False by (simp add: umax_facts)
    qed
  qed
  have sg: "schar sign = schar (CHR ''-'') \<or> schar sign = schar (CHR ''+'')" using sign by auto
  have "disrsi_0 c neg v (of_nat ?k) =
      (if n < 2 ^ 32 then (DIS_SUCCESS, sign = CHR ''-'', of_nat n, c2)
       else (DIS_OVERFLOW, sign = CHR ''-'', - 1, c2))"
    using c1(1) c2(1) uk nz n sg big
    by (subst disrsi_0.simps) (simp add: DIS_BUFSIZ_def Let_def conv_digits_dec umax_facts(2))
  then show ?thesis using that read_step_trans [OF c1(2) c2(2)] by blast
qed

lemma disrsi_num:
  assumes ok: "rchan_ok c" and p: "pending c = dis_num sign n @ t" and sign: "sign = CHR ''-'' \<or> sign = CHR ''+''"
    and n: "length (dec n) \<le> 63"
  obtains c' where "disrsi_0 c neg v 1 =
      (if n < 2 ^ 32 then (DIS_SUCCESS, sign = CHR ''-'', of_nat n, c')
       else (DIS_OVERFLOW, sign = CHR ''-'', - 1, c'))"
    and "read_step c c' t"
proof -
  from disrsi_prefix [OF ok p [unfolded dis_num_def] length_dec_pos n, of neg v] obtain c1 where
    c1: "disrsi_0 c neg v 1 = disrsi_0 c1 neg v (of_nat (length (dec n)))"
    "read_step c c1 ((sign # dec n) @ t)" by blast
  then have "rchan_ok c1" "pending c1 = sign # dec n @ t" by (auto simp: read_step_def)
  from disrsi_digits [OF this sign n, of neg v] obtain c2 where
    "disrsi_0 c1 neg v (of_nat (length (dec n))) =
      (if n < 2 ^ 32 then (DIS_SUCCESS, sign = CHR ''-'', of_nat n, c2)
       else (DIS_OVERFLOW, sign = CHR ''-'', - 1, c2))" "read_step c1 c2 t" .
  then show ?thesis using that [of c2] c1 read_step_trans [OF c1(2)] by simp
qed

text \<open>The same for \<open>disrsl_\<close>.\<close>

lemma no_early_overflow: "\<not> 0 < memcmp (replicate 20 NUL) ulmax"
proof -
  obtain x xs where d: "ulmax = x # xs" by (cases ulmax) (auto simp: ulmax_facts)
  then have "is_digit x" using dec_digits [of x 18446744073709551615] by (simp add: ulmax_facts)
  then have "(of_char NUL :: nat) < of_char x" by (simp add: is_digit_def)
  then have "memcmp (NUL # replicate 19 NUL) (x # xs) = - 1" by auto
  then show ?thesis unfolding d by (simp add: numeral_eq_Suc)
qed

lemma disrsl_count:
  assumes ok: "rchan_ok c" and p: "pending c = dec n @ t" and n: "1 < n" "n \<le> 20"
  obtains c' where "disrsl_0 c neg v (of_nat (length (dec n))) = disrsl_0 c' neg v (of_nat n)"
    and "read_step c c' t"
proof -
  let ?k = "length (dec n)"
  obtain x xs where d: "dec n = x # xs" by (cases "dec n") auto
  have k: "0 < ?k" "?k \<le> 2" using length_dec_two n by auto
  have uk: "unat (of_nat ?k :: c_ulong) = ?k" using k by (simp add: unat_of_nat)
  have nz: "(of_nat ?k :: c_ulong) \<noteq> 0" using uk k by (metis less_irrefl unat_0)
  have rng: "49 \<le> schar x" "schar x \<le> 57" using hd_dec_range [of n] n d by auto
  have dig: "is_digit x" "\<And>y. y \<in> set xs \<Longrightarrow> is_digit y" using dec_digits [of _ n] d by auto
  obtain c1 where c1: "tcp_getc c = (schar x, c1)" "read_step c c1 (xs @ t)"
    using getc_step [OF ok, of x "xs @ t"] p d by auto
  have ok1: "rchan_ok c1" "pending c1 = xs @ t" using c1(2) by (auto simp: read_step_def)
  obtain c2 where c2: "tcp_gets c1 (length xs) = (int (length xs), xs, c2)" "read_step c1 c2 t"
    using gets_step [OF ok1] by blast
  have nd: "word_of_int (schar x - 48) = (of_nat (digit_val x) :: c_ulong)"
    by (simp add: schar_digit [OF dig(1)])
  have val: "dval_from (digit_val x) xs = n" using dval_dec [of n] d by simp
  have len: "length xs = ?k - 1" using d by simp
  have one: "of_nat ?k > (1 :: c_ulong) \<longleftrightarrow> 1 < ?k" by (simp add: word_less_nat_alt uk)
  show ?thesis
  proof (cases "1 < ?k")
    case True
    have "disrsl_0 c neg v (of_nat ?k) = disrsl_0 c2 neg v (of_nat n)"
      using c1(1) c2(1) rng k uk nz one True len nd
      by (subst disrsl_0.simps) (simp add: no_early_overflow ulmax_facts(2) schar_digits ulmax_facts Let_def
          conv_digits_dval [OF dig(2)] val)
    then show ?thesis using that read_step_trans [OF c1(2) c2(2)] by blast
  next
    case False
    then have xs: "xs = []" using len k by simp
    then have "disrsl_0 c neg v (of_nat ?k) = disrsl_0 c1 neg v (of_nat n)"
      using c1(1) rng k uk nz one False nd val
      by (subst disrsl_0.simps) (simp add: no_early_overflow ulmax_facts(2) schar_digits Let_def)
    then show ?thesis using that c1(2) xs by simp
  qed
qed

lemma disrsl_prefix:
  "rchan_ok c \<Longrightarrow> pending c = dis_prefix n cp @ t \<Longrightarrow> 0 < n \<Longrightarrow> n \<le> 20 \<Longrightarrow>
   \<exists>c'. disrsl_0 c neg v 1 = disrsl_0 c' neg v (of_nat n) \<and> read_step c c' (cp @ t)"
proof (induction n cp rule: dis_prefix.induct)
  case (1 n cp)
  show ?case
  proof (cases "1 < n")
    case True
    have len: "0 < length (dec n)" "length (dec n) \<le> 20"
      using length_dec_two [of n] "1.prems"(4) by auto
    have "pending c = dis_prefix (length (dec n)) (dec n @ cp) @ t"
      using "1.prems"(2) True by (simp add: dis_prefix.simps [of n])
    then obtain c1 where c1: "disrsl_0 c neg v 1 = disrsl_0 c1 neg v (of_nat (length (dec n)))"
      "read_step c c1 ((dec n @ cp) @ t)"
      using "1.IH" [OF True "1.prems"(1) _ len] by blast
    from c1(2) have "rchan_ok c1" "pending c1 = dec n @ (cp @ t)" by (auto simp: read_step_def)
    then obtain c2 where "disrsl_0 c1 neg v (of_nat (length (dec n))) = disrsl_0 c2 neg v (of_nat n)"
      "read_step c1 c2 (cp @ t)"
      using disrsl_count True "1.prems"(4) by blast
    then show ?thesis using c1(1) read_step_trans [OF c1(2)] by (metis (no_types))
  next
    case False
    then have "n = 1" using "1.prems" by simp
    then show ?thesis
      using "1.prems" by (auto simp: dis_prefix.simps read_step_def)
  qed
qed

lemma disrsl_sign:
  assumes "tcp_getc c = (schar sign, c1)" and "tcp_gets c1 k = (int k, ds, c2)"
    and "sign = CHR ''-'' \<or> sign = CHR ''+''" and "0 < k" "k \<le> 20" and "conv_digits 0 ds = Some w"
  shows "disrsl_0 c neg v (of_nat k) =
    (if k = 20 \<and> memcmp ds ulmax > 0 then (DIS_OVERFLOW, sign = CHR ''-'', - 1, c2)
     else (DIS_SUCCESS, sign = CHR ''-'', w, c2))"
proof -
  have uk: "unat (of_nat k :: c_ulong) = k" using assms(5) by (simp add: unat_of_nat)
  have nz: "(of_nat k :: c_ulong) \<noteq> 0" using uk assms(4) by (metis less_irrefl unat_0)
  show ?thesis
  proof (cases "k = 20")
    case True
    then show ?thesis
      using assms no_early_overflow
      by (subst disrsl_0.simps) (simp add: ulmax_facts(2) Let_def)
  next
    case False
    then show ?thesis
      using assms uk nz by (subst disrsl_0.simps) (simp add: ulmax_facts(2) Let_def)
  qed
qed

lemma disrsl_digits:
  assumes ok: "rchan_ok c" and p: "pending c = sign # dec n @ t" and sign: "sign = CHR ''-'' \<or> sign = CHR ''+''"
    and n: "length (dec n) \<le> 20"
  obtains c' where "disrsl_0 c neg v (of_nat (length (dec n))) =
      (if n < 2 ^ 64 then (DIS_SUCCESS, sign = CHR ''-'', of_nat n, c')
       else (DIS_OVERFLOW, sign = CHR ''-'', - 1, c'))"
    and "read_step c c' t"
proof -
  let ?k = "length (dec n)"
  have uk: "unat (of_nat ?k :: c_ulong) = ?k" using n by (simp add: unat_of_nat)
  have nz: "(of_nat ?k :: c_ulong) \<noteq> 0" using uk length_dec_pos [of n] by (metis less_irrefl unat_0)
  obtain c1 where c1: "tcp_getc c = (schar sign, c1)" "read_step c c1 (dec n @ t)"
    using getc_step [OF ok p] by blast
  have ok1: "rchan_ok c1" "pending c1 = dec n @ t" using c1(2) by (auto simp: read_step_def)
  obtain c2 where c2: "tcp_gets c1 ?k = (int ?k, dec n, c2)" "read_step c1 c2 t"
    using gets_step [OF ok1] by blast
  have big: "n < 2 ^ 64 \<longleftrightarrow> \<not> (?k > ulmaxdigs \<or> ?k = ulmaxdigs \<and> memcmp (dec n) ulmax > 0)"
  proof (cases "?k = 20")
    case True
    then have "memcmp (dec n) ulmax > 0 \<longleftrightarrow> 18446744073709551615 < n"
      unfolding ulmax_facts by (subst memcmp_digits) (simp_all add: dec_digits)
    then show ?thesis using True by (auto simp: ulmax_facts)
  next
    case False
    show ?thesis
    proof (cases "20 < ?k")
      case True
      have "(10::nat) ^ 20 \<le> 10 ^ (?k - 1)" using True by (intro power_increasing) simp_all
      also have "\<dots> \<le> n" by (rule dec_lower) (use True in \<open>cases n; simp add: dec_small\<close>)
      finally show ?thesis using True by (simp add: ulmax_facts)
    next
      case small: False
      then have "?k \<le> 19" using False by simp
      then have "n < 10 ^ 19" using dec_upper [of n] power_increasing [of ?k 19 "10::nat"] by linarith
      then show ?thesis using small False by (simp add: ulmax_facts)
    qed
  qed
  have "disrsl_0 c neg v (of_nat ?k) =
      (if n < 2 ^ 64 then (DIS_SUCCESS, sign = CHR ''-'', of_nat n, c2)
       else (DIS_OVERFLOW, sign = CHR ''-'', - 1, c2))"
    unfolding disrsl_sign [OF c1(1) c2(1) sign length_dec_pos n conv_digits_dec]
    using big n by (simp add: ulmax_facts(2))
  then show ?thesis using that read_step_trans [OF c1(2) c2(2)] by blast
qed

lemma disrsl_num:
  assumes ok: "rchan_ok c" and p: "pending c = dis_num sign n @ t" and sign: "sign = CHR ''-'' \<or> sign = CHR ''+''"
    and n: "length (dec n) \<le> 20"
  obtains c' where "disrsl_0 c neg v 1 =
      (if n < 2 ^ 64 then (DIS_SUCCESS, sign = CHR ''-'', of_nat n, c')
       else (DIS_OVERFLOW, sign = CHR ''-'', - 1, c'))"
    and "read_step c c' t"
proof -
  from disrsl_prefix [OF ok p [unfolded dis_num_def] length_dec_pos n, of neg v] obtain c1 where
    c1: "disrsl_0 c neg v 1 = disrsl_0 c1 neg v (of_nat (length (dec n)))"
    "read_step c c1 ((sign # dec n) @ t)" by blast
  then have "rchan_ok c1" "pending c1 = sign # dec n @ t" by (auto simp: read_step_def)
  from disrsl_digits [OF this sign n, of neg v] obtain c2 where
    "disrsl_0 c1 neg v (of_nat (length (dec n))) =
      (if n < 2 ^ 64 then (DIS_SUCCESS, sign = CHR ''-'', of_nat n, c2)
       else (DIS_OVERFLOW, sign = CHR ''-'', - 1, c2))" "read_step c1 c2 t" .
  then show ?thesis using that [of c2] c1 read_step_trans [OF c1(2)] by simp
qed

end
