(* ===== verification/Dis_Codec.thy ===== *)
theory Dis_Codec
  imports Dis_Read
begin

text \<open>
  The Data-is-Strings codec as a whole: what a reader does on every input, and that each reader
  recovers what the writer of the same type wrote. The interface the message layer uses is the locale
  \<open>dis_codec\<close>; it is interpreted on every pair of a writer and a reader of the code.
\<close>

section \<open>No reader loses input\<close>

definition safe_read :: "tcp_chan \<Rightarrow> tcp_chan \<Rightarrow> bool" where
  "safe_read c c' \<longleftrightarrow> rchan_ok c' \<and> (\<exists>x. whole c' = whole c @ x) \<and> same_write c c'"

lemma safe_read_refl: "rchan_ok c \<Longrightarrow> safe_read c c"
  by (simp add: safe_read_def)

lemma safe_read_trans: "safe_read a b \<Longrightarrow> safe_read b c \<Longrightarrow> safe_read a c"
  by (auto simp: safe_read_def intro: same_write_trans)

lemma read_step_safe: "read_step c c' t \<Longrightarrow> safe_read c c'"
  by (simp add: read_step_def safe_read_def)

lemma gets_safe:
  assumes "rchan_ok c" and "tcp_gets c n = (k, s, c')"
  shows "safe_read c c'"
proof (cases "n \<le> length (pending c)")
  case True
  obtain c1 where "tcp_gets c n = (int n, take n (pending c), c1)" "rchan_ok c1"
    "uncommitted c1 = uncommitted c @ take n (pending c)" "pending c1 = drop n (pending c)" "same_write c c1"
    by (rule tcp_gets_ok [OF assms(1) True])
  then show ?thesis using assms(2) by (simp add: safe_read_def whole_def)
next
  case False
  then have "length (pending c) < n" by simp
  then obtain rc c1 where "tcp_gets c n = (rc, [], c1)" "rchan_ok c1" "uncommitted c1 = uncommitted c"
    "unread c1 = pending c" "same_write c c1"
    by (rule tcp_gets_err [OF assms(1)])
  then show ?thesis using assms(2) by (simp add: safe_read_def whole_def pending_def [of c1])
qed

lemma getc_safe: "rchan_ok c \<Longrightarrow> tcp_getc c = (x, c') \<Longrightarrow> safe_read c c'"
  using gets_safe [of c 1] by (auto simp: tcp_getc_def split: prod.splits if_splits)

lemma safe_read_ok: "safe_read c c' \<Longrightarrow> rchan_ok c'"
  by (simp add: safe_read_def)

lemma disrsi_safe:
  "disrsi_0 c neg v k = (rc, n, w, c') \<Longrightarrow> rchan_ok c \<Longrightarrow> safe_read c c'"
proof (induction c neg v k arbitrary: rc n w c' rule: disrsi_0.induct)
  case (1 c neg v k)
  obtain x c1 where g: "tcp_getc c = (x, c1)" by fastforce
  have s1: "safe_read c c1" using getc_safe [OF "1.prems"(2) g] .
  note ok1 = safe_read_ok [OF s1]
  obtain i s c2 where g2: "tcp_gets c1 (unat k) = (i, s, c2)" by (metis prod.exhaust)
  obtain j r c3 where g3: "tcp_gets c1 (unat k - 1) = (j, r, c3)" by (metis prod.exhaust)
  have s2: "safe_read c c2" using safe_read_trans [OF s1 gets_safe [OF ok1 g2]] .
  have s3: "safe_read c c3" using safe_read_trans [OF s1 gets_safe [OF ok1 g3]] .
  note ok3 = safe_read_ok [OF s3]
  have r1: "safe_read c1 c' \<Longrightarrow> safe_read c c'" using safe_read_trans [OF s1] .
  have r3: "safe_read c3 c' \<Longrightarrow> safe_read c c'" using safe_read_trans [OF s3] .
  show ?case
    using "1.prems"(1) s1 s2 s3 safe_read_refl [OF "1.prems"(2)]
      "1.IH"(1) [OF _ _ g [symmetric] _ _ _ refl _ g3 [symmetric] refl _ _ _ _ ok3, THEN r3]
      "1.IH"(2) [OF _ _ g [symmetric] _ _ _ refl _ _ ok1, THEN r1]
    by (subst (asm) disrsi_0.simps) (simp add: g g2 g3 [unfolded One_nat_def] Let_def split: if_splits option.splits)
qed

lemma disrsl_safe:
  "disrsl_0 c neg v k = (rc, n, w, c') \<Longrightarrow> rchan_ok c \<Longrightarrow> safe_read c c'"
proof (induction c neg v k arbitrary: rc n w c' rule: disrsl_0.induct)
  case (1 c neg v k)
  obtain x c1 where g: "tcp_getc c = (x, c1)" by fastforce
  have s1: "safe_read c c1" using getc_safe [OF "1.prems"(2) g] .
  note ok1 = safe_read_ok [OF s1]
  obtain i s c2 where g2: "tcp_gets c1 (unat k) = (i, s, c2)" by (metis prod.exhaust)
  obtain j r c3 where g3: "tcp_gets c1 (unat k - 1) = (j, r, c3)" by (metis prod.exhaust)
  have s2: "safe_read c c2" using safe_read_trans [OF s1 gets_safe [OF ok1 g2]] .
  have s3: "safe_read c c3" using safe_read_trans [OF s1 gets_safe [OF ok1 g3]] .
  note ok3 = safe_read_ok [OF s3]
  have r1: "safe_read c1 c' \<Longrightarrow> safe_read c c'" using safe_read_trans [OF s1] .
  have r3: "safe_read c3 c' \<Longrightarrow> safe_read c c'" using safe_read_trans [OF s3] .
  show ?case
    using "1.prems"(1) s1 s2 s3 safe_read_refl [OF "1.prems"(2)]
      "1.IH"(1) [OF _ _ _ g [symmetric] _ _ _ refl _ g3 [symmetric] refl _ _ _ _ ok3, THEN r3]
      "1.IH"(2) [OF _ _ _ g [symmetric] _ _ _ refl _ _ ok1, THEN r1]
    by (subst (asm) disrsl_0.simps) (simp add: g g2 g3 [unfolded One_nat_def] Let_def split: if_splits option.splits)
qed

section \<open>Committed and rolled-back reads\<close>

definition got :: "tcp_chan \<Rightarrow> tcp_chan \<Rightarrow> char list \<Rightarrow> bool" where
  "got c c' rest \<longleftrightarrow> rchan_ok c' \<and> uncommitted c' = [] \<and> pending c' = rest \<and> same_write c c'"

lemma got_trans: "got a b r \<Longrightarrow> got b c r' \<Longrightarrow> got a c r'"
  by (auto simp: got_def intro: same_write_trans)

lemma rcommit_rc_success:
  assumes "read_step c c1 t"
  obtains c' where "rcommit_rc c1 DIS_SUCCESS = (DIS_SUCCESS, c')"
    and "tcp_rcommit c1 True = (0, c')" and "got c c' t"
proof -
  have "rchan_ok c1" using assms by (simp add: read_step_def)
  then obtain c' where c': "tcp_rcommit c1 True = (0, c')" "rchan_ok c'" "uncommitted c' = []"
    "pending c' = pending c1" "same_write c1 c'" by (rule rcommit_True)
  then have "got c c' t" using assms by (auto simp: got_def read_step_def intro: same_write_trans)
  with c'(1) show ?thesis using that by (simp add: rcommit_rc_def)
qed

text \<open>After a failed read the position is back where the last commit left it.\<close>

definition rolled_back :: "tcp_chan \<Rightarrow> tcp_chan \<Rightarrow> bool" where
  "rolled_back c c' \<longleftrightarrow> rchan_ok c' \<and> uncommitted c' = [] \<and> (\<exists>x. pending c' = whole c @ x) \<and> same_write c c'"

lemma rcommit_rc_failure:
  assumes "safe_read c c1" and "rc \<noteq> DIS_SUCCESS"
  obtains c' where "rcommit_rc c1 rc = (rc, c')" and "tcp_rcommit c1 False = (0, c')" and "rolled_back c c'"
proof -
  have "rchan_ok c1" using assms by (simp add: safe_read_def)
  then obtain c' where c': "tcp_rcommit c1 False = (0, c')" "rchan_ok c'" "uncommitted c' = []"
    "pending c' = uncommitted c1 @ pending c1" "same_write c1 c'" by (rule rcommit_False)
  then have "rolled_back c c'"
    using assms by (auto simp: rolled_back_def safe_read_def whole_def [of c1] intro: same_write_trans)
  with c'(1) assms(2) show ?thesis using that by (simp add: rcommit_rc_def)
qed

lemma rcommit_rc_fst: "fst (rcommit_rc c rc) = rc"
  by (simp add: rcommit_rc_def tcp_rcommit_def Let_def)

section \<open>Each reader on the text of its writer\<close>

lemma unat_of_nat_32: "n < 2 ^ 32 \<Longrightarrow> unat (of_nat n :: c_uint) = n"
  by (simp add: unat_of_nat)

lemma unat_of_nat_64: "n < 2 ^ 64 \<Longrightarrow> unat (of_nat n :: c_ulong) = n"
  by (simp add: unat_of_nat)

lemma length_dec_32: "n < 2 ^ 32 \<Longrightarrow> length (dec n) \<le> 63"
  using length_dec_le [of 10 n] by simp

lemma length_dec_64: "n < 2 ^ 64 \<Longrightarrow> length (dec n) \<le> 20"
  using length_dec_le [of 20 n] by simp

lemma disrsi_num_ok:
  assumes "rchan_ok c" and "pending c = dis_num sign n @ t" and "sign = CHR ''-'' \<or> sign = CHR ''+''"
    and n: "n < 2 ^ 32"
  obtains c' where "disrsi_0 c neg v 1 = (DIS_SUCCESS, sign = CHR ''-'', of_nat n, c')" and "read_step c c' t"
  using disrsi_num [OF assms(1-3) length_dec_32 [OF n], of neg v] n by auto

lemma disrsi_num_over:
  assumes "rchan_ok c" and "pending c = dis_num sign n @ t" and "sign = CHR ''-'' \<or> sign = CHR ''+''"
    and n: "\<not> n < 2 ^ 32" "length (dec n) \<le> 63"
  obtains c' where "disrsi_0 c neg v 1 = (DIS_OVERFLOW, sign = CHR ''-'', - 1, c')" and "read_step c c' t"
  using disrsi_num [OF assms(1-3) n(2), of neg v] n(1) by auto

lemma disrsl_num_ok:
  assumes "rchan_ok c" and "pending c = dis_num sign n @ t" and "sign = CHR ''-'' \<or> sign = CHR ''+''"
    and n: "n < 2 ^ 64"
  obtains c' where "disrsl_0 c neg v 1 = (DIS_SUCCESS, sign = CHR ''-'', of_nat n, c')" and "read_step c c' t"
  using disrsl_num [OF assms(1-3) length_dec_64 [OF n], of neg v] n by auto

lemma disrui_got:
  assumes "rchan_ok c" and "pending c = dis_num (CHR ''+'') n @ t" and "n < 2 ^ 32"
  shows "\<exists>c'. disrui c = (of_nat n, DIS_SUCCESS, c') \<and> got c c' t"
proof -
  obtain c1 where c1: "disrsi_0 c False 0 1 = (DIS_SUCCESS, False, of_nat n, c1)" "read_step c c1 t"
    by (rule disrsi_num_ok [OF assms(1,2) _ assms(3), of False 0]) simp_all
  obtain c' where "rcommit_rc c1 DIS_SUCCESS = (DIS_SUCCESS, c')" "got c c' t"
    by (rule rcommit_rc_success [OF c1(2)])
  with c1(1) show ?thesis by (simp add: disrui_def)
qed

lemma disrul_got:
  assumes "rchan_ok c" and "pending c = dis_num (CHR ''+'') n @ t" and "n < 2 ^ 64"
  shows "\<exists>c'. disrul c = (of_nat n, DIS_SUCCESS, c') \<and> got c c' t"
proof -
  obtain c1 where c1: "disrsl_0 c False 0 1 = (DIS_SUCCESS, False, of_nat n, c1)" "read_step c c1 t"
    by (rule disrsl_num_ok [OF assms(1,2) _ assms(3), of False 0]) simp_all
  obtain c' where "rcommit_rc c1 DIS_SUCCESS = (DIS_SUCCESS, c')" "got c c' t"
    by (rule rcommit_rc_success [OF c1(2)])
  with c1(1) show ?thesis by (simp add: disrul_def)
qed

lemma disruc_got:
  assumes "rchan_ok c" and "pending c = dis_num (CHR ''+'') n @ t" and "n < 256"
  shows "\<exists>c'. disruc c = (of_nat n, DIS_SUCCESS, c') \<and> got c c' t"
proof -
  have n: "n < 2 ^ 32" using assms(3) by simp
  obtain c1 where c1: "disrsi_0 c False 0 1 = (DIS_SUCCESS, False, of_nat n, c1)" "read_step c c1 t"
    by (rule disrsi_num_ok [OF assms(1,2) _ n, of False 0]) simp_all
  obtain c' where c': "rcommit_rc c1 DIS_SUCCESS = (DIS_SUCCESS, c')" "got c c' t"
    by (rule rcommit_rc_success [OF c1(2)])
  have "\<not> (of_nat n :: c_uint) > 255" using assms(3) n by (simp add: word_less_nat_alt unat_of_nat_32)
  moreover have "ucast (of_nat n :: c_uint) = (of_nat n :: 8 word)"
    using assms(3) by (simp add: word_unat_eq_iff unsigned_ucast_eq unat_of_nat take_bit_eq_mod)
  ultimately show ?thesis using c1(1) c' by (simp add: disruc_def)
qed

text \<open>Signed values: the magnitude comes back and is negated in two's complement.\<close>

lemma disrsi_got:
  assumes "rchan_ok c" and p: "pending c = dis_int (sint v) @ t"
  shows "\<exists>c'. disrsi c = (v, DIS_SUCCESS, c') \<and> got c c' t"
proof -
  have lo: "- (2 ^ 31) \<le> sint v" and hi: "sint v < 2 ^ 31" using sint_ge [of v] sint_lt [of v] by simp_all
  let ?n = "nat \<bar>sint v\<bar>"
  have n: "?n < 2 ^ 32" using lo hi by simp
  let ?neg = "sint v < 0"
  have p': "pending c = dis_num (if ?neg then CHR ''-'' else CHR ''+'') ?n @ t"
    using p by (simp add: dis_int_def abs_if)
  obtain c1 where c1: "disrsi_0 c False 0 1 = (DIS_SUCCESS, ?neg, of_nat ?n, c1)" "read_step c c1 t"
    by (rule disrsi_num_ok [OF assms(1) p' _ n, of False 0]) (simp_all split: if_splits)
  obtain c' where c': "rcommit_rc c1 DIS_SUCCESS = (DIS_SUCCESS, c')" "got c c' t"
    by (rule rcommit_rc_success [OF c1(2)])
  have u: "unat (of_nat ?n :: c_uint) = ?n" using n by (rule unat_of_nat_32)
  have "if ?neg then (of_nat ?n :: c_uint) \<le> 2 ^ 31 else (of_nat ?n :: c_uint) \<le> 2 ^ 31 - 1"
    unfolding word_le_nat_alt u using lo hi by auto
  moreover have "(if ?neg then - of_nat ?n else of_nat ?n) = v"
    by (simp add: abs_if)
  ultimately show ?thesis
    unfolding disrsi_def c1(1) prod.case using c' by (simp split: if_splits)
qed

lemma disrsl_got:
  assumes "rchan_ok c" and p: "pending c = dis_int (sint v) @ t"
  shows "\<exists>c'. disrsl junk c = (v, DIS_SUCCESS, c') \<and> got c c' t"
proof -
  have lo: "- (2 ^ 63) \<le> sint v" and hi: "sint v < 2 ^ 63" using sint_ge [of v] sint_lt [of v] by simp_all
  let ?n = "nat \<bar>sint v\<bar>"
  have n: "?n < 2 ^ 64" using lo hi by simp
  let ?neg = "sint v < 0"
  have p': "pending c = dis_num (if ?neg then CHR ''-'' else CHR ''+'') ?n @ t"
    using p by (simp add: dis_int_def abs_if)
  obtain c1 where c1: "disrsl_0 c junk 0 1 = (DIS_SUCCESS, ?neg, of_nat ?n, c1)" "read_step c c1 t"
    by (rule disrsl_num_ok [OF assms(1) p' _ n, of junk 0]) (simp_all split: if_splits)
  obtain c' where c': "rcommit_rc c1 DIS_SUCCESS = (DIS_SUCCESS, c')" "got c c' t"
    by (rule rcommit_rc_success [OF c1(2)])
  have u: "unat (of_nat ?n :: c_ulong) = ?n" using n by (rule unat_of_nat_64)
  have "if ?neg then (of_nat ?n :: c_ulong) \<le> 2 ^ 63 else (of_nat ?n :: c_ulong) \<le> 2 ^ 63 - 1"
    unfolding word_le_nat_alt u using lo hi by auto
  moreover have "(if ?neg then - of_nat ?n else of_nat ?n) = v"
    by (simp add: abs_if)
  ultimately show ?thesis
    unfolding disrsl_def c1(1) prod.case using c' by (simp split: if_splits)
qed

text \<open>Strings. The array readers accept every string that fits the array.\<close>

lemma str_step:
  assumes "rchan_ok c" and "pending c = dis_str s @ t" and "length s < 2 ^ 32"
  obtains c1 c2 where "disrsi_0 c neg v 1 = (DIS_SUCCESS, False, of_nat (length s), c1)"
    and "unat (of_nat (length s) :: c_uint) = length s" and "heap_ok c1 = heap_ok c"
    and "tcp_gets c1 (length s) = (int (length s), s, c2)" and "read_step c c2 t"
proof -
  have p: "pending c = dis_num (CHR ''+'') (length s) @ (s @ t)" using assms(2) by (simp add: dis_str_def)
  obtain c1 where c1: "disrsi_0 c neg v 1 = (DIS_SUCCESS, False, of_nat (length s), c1)" "read_step c c1 (s @ t)"
    by (rule disrsi_num_ok [OF assms(1) p _ assms(3), of neg v]) simp_all
  then have "rchan_ok c1" "pending c1 = s @ t" "heap_ok c1 = heap_ok c"
    by (auto simp: read_step_def same_write_def)
  moreover obtain c2 where "tcp_gets c1 (length s) = (int (length s), s, c2)" "read_step c1 c2 t"
    by (rule gets_step [OF calculation(1,2)])
  ultimately show ?thesis
    using that c1 read_step_trans [OF c1(2)] unat_of_nat_32 [OF assms(3)] by blast
qed

lemma disrst_got:
  assumes ok: "rchan_ok c" and p: "pending c = dis_str s @ t" and s: "length s < 2 ^ 32" "NUL \<notin> set s"
  shows "\<exists>c'. disrst c = (Some s, DIS_SUCCESS, c') \<and> got c c' t"
proof -
  obtain c1 c2 where a: "disrsi_0 c False 0 1 = (DIS_SUCCESS, False, of_nat (length s), c1)"
    "unat (of_nat (length s) :: c_uint) = length s" "heap_ok c1 = heap_ok c"
    "tcp_gets c1 (length s) = (int (length s), s, c2)" "read_step c c2 t"
    by (rule str_step [OF ok p s(1), of False 0])
  obtain c' where c': "rcommit_rc c2 DIS_SUCCESS = (DIS_SUCCESS, c')" "got c c' t"
    by (rule rcommit_rc_success [OF a(5)])
  have "heap_ok c1 n" for n using ok a(3) by (simp add: rchan_ok_def)
  then show ?thesis using a c' s(2) by (simp add: disrst_def Let_def)
qed

lemma disrcs_got:
  assumes ok: "rchan_ok c" and p: "pending c = dis_str s @ t" and s: "length s < 2 ^ 32"
  shows "\<exists>c'. disrcs junk c = (Some s, length s, DIS_SUCCESS, c') \<and> got c c' t"
proof -
  obtain c1 c2 where a: "disrsi_0 c junk 0 1 = (DIS_SUCCESS, False, of_nat (length s), c1)"
    "unat (of_nat (length s) :: c_uint) = length s" "heap_ok c1 = heap_ok c"
    "tcp_gets c1 (length s) = (int (length s), s, c2)" "read_step c c2 t"
    by (rule str_step [OF ok p s, of junk 0])
  obtain c' where c': "rcommit_rc c2 DIS_SUCCESS = (DIS_SUCCESS, c')" "got c c' t"
    by (rule rcommit_rc_success [OF a(5)])
  have "heap_ok c1 n" for n using ok a(3) by (simp add: rchan_ok_def)
  then show ?thesis using a c' by (simp add: disrcs_def Let_def)
qed

lemma disrfst_got:
  assumes ok: "rchan_ok c" and p: "pending c = dis_str s @ t"
    and s: "length s \<le> achars" "length s < 2 ^ 32" "NUL \<notin> set s"
  shows "\<exists>c'. disrfst c achars = (DIS_SUCCESS, s, c') \<and> got c c' t"
proof -
  obtain c1 c2 where a: "disrsi_0 c False 0 1 = (DIS_SUCCESS, False, of_nat (length s), c1)"
    "unat (of_nat (length s) :: c_uint) = length s" "heap_ok c1 = heap_ok c"
    "tcp_gets c1 (length s) = (int (length s), s, c2)" "read_step c c2 t"
    by (rule str_step [OF ok p s(2), of False 0])
  obtain c' where c': "tcp_rcommit c2 True = (0, c')" "got c c' t"
    by (rule rcommit_rc_success [OF a(5)])
  show ?thesis using a c' s by (simp add: disrfst_def Let_def)
qed

lemma disrfcs_got:
  assumes ok: "rchan_ok c" and p: "pending c = dis_str s @ t" and s: "length s \<le> achars" "length s < 2 ^ 32"
  shows "\<exists>c'. disrfcs c achars = (DIS_SUCCESS, length s, s, c') \<and> got c c' t"
proof -
  obtain c1 c2 where a: "disrsi_0 c False 0 1 = (DIS_SUCCESS, False, of_nat (length s), c1)"
    "unat (of_nat (length s) :: c_uint) = length s" "heap_ok c1 = heap_ok c"
    "tcp_gets c1 (length s) = (int (length s), s, c2)" "read_step c c2 t"
    by (rule str_step [OF ok p s(2), of False 0])
  obtain c' where c': "tcp_rcommit c2 True = (0, c')" "got c c' t"
    by (rule rcommit_rc_success [OF a(5)])
  show ?thesis using a c' s by (simp add: disrfcs_def Let_def)
qed

section \<open>The interface of the codec\<close>

text \<open>
  A codec is a writer and a reader of values of one type. \<open>enc v\<close> is the text of \<open>v\<close>, \<open>valid\<close> says which
  values can be sent, and \<open>done v c\<close> is the reader's result when it got \<open>v\<close> and left the channel \<open>c\<close>.
\<close>

locale dis_codec =
  fixes wr :: "tcp_chan \<Rightarrow> 'a \<Rightarrow> dis_rc \<times> tcp_chan"
    and rd :: "tcp_chan \<Rightarrow> 'r"
    and enc :: "'a \<Rightarrow> char list"
    and valid :: "'a \<Rightarrow> bool"
    and done_rd :: "'a \<Rightarrow> tcp_chan \<Rightarrow> 'r"
  assumes wr_wrote: "wchan_ok c \<Longrightarrow> valid v \<Longrightarrow> wrote (wr c v) c (enc v)"
    and rd_got: "rchan_ok c \<Longrightarrow> uncommitted c = [] \<Longrightarrow> pending c = enc v @ t \<Longrightarrow> valid v \<Longrightarrow>
      \<exists>c'. rd c = done_rd v c' \<and> got c c' t"
begin

lemma wr_step:
  assumes "wchan_ok c" and "valid v"
  obtains c' where "wr c v = (DIS_SUCCESS, c')" and "wrote (DIS_SUCCESS, c') c (enc v)" and "wchan_ok c'"
proof -
  have "wrote (wr c v) c (enc v)" using assms by (rule wr_wrote)
  moreover from this have "wr c v = (DIS_SUCCESS, snd (wr c v))" "wchan_ok (snd (wr c v))"
    by (auto simp: wrote_def prod_eq_iff)
  ultimately show ?thesis using that by metis
qed

lemma rd_step:
  assumes "got c0 c (enc v @ t)" and "valid v"
  obtains c' where "rd c = done_rd v c'" and "got c0 c' t"
  using rd_got [of c v t] assms got_trans by (metis got_def)

text \<open>
  What is written to one channel, flushed, and received on another one in any fragments, is read back.
\<close>

lemma transfer:
  assumes w: "wchan_ok cw" "wdata cw = []" "sock_out cw = []" "Wr_Fail \<notin> set (sock_wr cw)"
    and v: "valid v"
    and r: "\<And>sent. sent = sock_out (snd (DIS_tcp_wflush (snd (wr cw v)))) \<Longrightarrow>
      rchan_ok cr \<and> uncommitted cr = [] \<and> pending cr = sent @ t"
  shows "fst (wr cw v) = DIS_SUCCESS" and "fst (DIS_tcp_wflush (snd (wr cw v))) = 0"
    and "\<exists>c'. rd cr = done_rd v c' \<and> got cr c' t"
proof -
  obtain c1 where c1: "wr cw v = (DIS_SUCCESS, c1)" "wrote (DIS_SUCCESS, c1) cw (enc v)" "wchan_ok c1"
    by (rule wr_step [OF w(1) v])
  then have "wdata c1 = enc v" "tdis_trailp (writebuf c1) = tdis_leadp (writebuf c1)"
    "sock_out c1 = []" "Wr_Fail \<notin> set (sock_wr c1)"
    using w by (auto simp: wrote_def)
  moreover obtain c2 where c2: "DIS_tcp_wflush c1 = (0, c2)"
    "sock_out c2 = sock_out c1 @ take (tdis_trailp (writebuf c1)) (wdata c1)"
    by (rule wflush_committed [OF c1(3) calculation(4)])
  moreover have "length (wdata c1) \<le> tdis_leadp (writebuf c1)" by (simp add: wdata_def)
  ultimately have "sock_out c2 = enc v" by simp
  then have "rchan_ok cr \<and> uncommitted cr = [] \<and> pending cr = enc v @ t" using r c1(1) c2(1) by simp
  then show "\<exists>c'. rd cr = done_rd v c' \<and> got cr c' t" using rd_got v by blast
  show "fst (wr cw v) = DIS_SUCCESS" "fst (DIS_tcp_wflush (snd (wr cw v))) = 0"
    using c1(1) c2(1) by simp_all
qed

text \<open>
  The same between two connections just set up: the sender's socket takes the bytes in any portions
  \<open>wrs\<close> (interruptions included), and the receiver's delivers them in any portions \<open>inp\<close>, followed by
  whatever else \<open>t\<close> the peer sends.
\<close>

lemma end_to_end:
  assumes w: "DIS_tcp_setup fd [] wrs heap = Some cw" "\<And>n. heap n" "Wr_Fail \<notin> set wrs" and v: "valid v"
    and r: "DIS_tcp_setup fd' inp wrs' heap' = Some cr" "\<And>n. heap' n"
    and clean: "NUL \<notin> set (all_in inp) \<or> length (all_in inp) < THE_BUF_SIZE"
    and inp: "incoming inp = sock_out (snd (DIS_tcp_wflush (snd (wr cw v)))) @ t"
  shows "fst (wr cw v) = DIS_SUCCESS \<and> fst (DIS_tcp_wflush (snd (wr cw v))) = 0 \<and>
    (\<exists>c'. rd cr = done_rd v c' \<and> pending c' = t)"
proof -
  have w': "wchan_ok cw" "wdata cw = []" "sock_out cw = []" "Wr_Fail \<notin> set (sock_wr cw)"
    using setup_ok(1) [OF w(1,2)] setup_views [OF w(1)] w(3) by simp_all
  have r': "rchan_ok cr" "uncommitted cr = []" "pending cr = incoming inp"
    using setup_ok(2) [OF r(1,2) clean] setup_views [OF r(1)] by simp_all
  have tr: "rchan_ok cr \<and> uncommitted cr = [] \<and> pending cr = sent @ t"
    if "sent = sock_out (snd (DIS_tcp_wflush (snd (wr cw v))))" for sent
    using that r' inp by simp
  show ?thesis using transfer [OF w' v tr] by (auto simp: got_def)
qed

end

text \<open>The strings a peer can send: shorter than \<open>2 ^ 32\<close>, and without NUL where the reader refuses it.\<close>

definition text_upto :: "nat \<Rightarrow> char list \<Rightarrow> bool" where
  "text_upto n s \<longleftrightarrow> length s \<le> n \<and> length s < 2 ^ 32 \<and> NUL \<notin> set s"

definition any_text :: "char list \<Rightarrow> bool" where
  "any_text s \<longleftrightarrow> length s < 2 ^ 32 \<and> NUL \<notin> set s"

interpretation ui: dis_codec diswui disrui "\<lambda>v. dis_num (CHR ''+'') (unat v)" "\<lambda>_. True"
  "\<lambda>v c. (v, DIS_SUCCESS, c)"
proof unfold_locales
  fix c t and v :: c_uint
  assume "rchan_ok c" "pending c = dis_num (CHR ''+'') (unat v) @ t"
  moreover have "unat v < 2 ^ 32" using unsigned_less [of v] by simp
  ultimately show "\<exists>c'. disrui c = (v, DIS_SUCCESS, c') \<and> got c c' t"
    using disrui_got [of c "unat v" t] by simp
qed (rule diswui_wrote)

interpretation ul: dis_codec diswul disrul "\<lambda>v. dis_num (CHR ''+'') (unat v)" "\<lambda>_. True"
  "\<lambda>v c. (v, DIS_SUCCESS, c)"
proof unfold_locales
  fix c t and v :: c_ulong
  assume "rchan_ok c" "pending c = dis_num (CHR ''+'') (unat v) @ t"
  moreover have "unat v < 2 ^ 64" using unsigned_less [of v] by simp
  ultimately show "\<exists>c'. disrul c = (v, DIS_SUCCESS, c') \<and> got c c' t"
    using disrul_got [of c "unat v" t] by simp
qed (rule diswul_wrote)

interpretation uc: dis_codec diswuc disruc "\<lambda>v. dis_num (CHR ''+'') (unat v)" "\<lambda>_. True"
  "\<lambda>v c. (v, DIS_SUCCESS, c)"
proof unfold_locales
  fix c t and v :: "8 word"
  assume "rchan_ok c" "pending c = dis_num (CHR ''+'') (unat v) @ t"
  moreover have "unat v < 256" using unsigned_less [of v] by simp
  ultimately show "\<exists>c'. disruc c = (v, DIS_SUCCESS, c') \<and> got c c' t"
    using disruc_got [of c "unat v" t] by simp
qed (rule diswuc_wrote)

interpretation si: dis_codec diswsi disrsi "\<lambda>v. dis_int (sint v)" "\<lambda>_. True" "\<lambda>v c. (v, DIS_SUCCESS, c)"
  by unfold_locales (simp_all add: diswsi_wrote disrsi_got)

interpretation sl: dis_codec diswsl "disrsl junk" "\<lambda>v. dis_int (sint v)" "\<lambda>_. True" "\<lambda>v c. (v, DIS_SUCCESS, c)"
  for junk
  by unfold_locales (simp_all add: diswsl_wrote disrsl_got)

interpretation st: dis_codec diswst disrst dis_str any_text "\<lambda>v c. (Some v, DIS_SUCCESS, c)"
  by unfold_locales (simp_all add: diswst_wrote disrst_got any_text_def)

interpretation fixst: dis_codec diswst "\<lambda>c. disrfst c n" dis_str "text_upto n" "\<lambda>v c. (DIS_SUCCESS, v, c)"
  for n
  by unfold_locales (simp_all add: diswst_wrote disrfst_got text_upto_def)

interpretation fixcs: dis_codec diswst "\<lambda>c. disrfcs c n" dis_str "\<lambda>s. length s \<le> n \<and> length s < 2 ^ 32"
  "\<lambda>v c. (DIS_SUCCESS, length v, v, c)" for n
  by unfold_locales (simp_all add: diswst_wrote disrfcs_got)

interpretation cs: dis_codec "\<lambda>c s. diswcs c (Some s) (length s)" "disrcs junk" dis_str "\<lambda>s. length s < 2 ^ 32"
  "\<lambda>v c. (Some v, length v, DIS_SUCCESS, c)" for junk
  by unfold_locales (simp_all add: diswst_wrote [unfolded diswst_def] disrcs_got)

end
