(* ===== verification/Dis_Props.thy ===== *)
theory Dis_Props
  imports Dis_Codec
begin

text \<open>
  The properties of the data layer: numbers and strings survive a connection, the readers are exact
  and give a failed read back, the text is uniquely decodable, the writers stay inside their scratch
  array, and a flush sends what was committed.  The last three properties state what the code does
  where it departs from its own comments.
\<close>

section \<open>Channels on a given input\<close>

definition chan_on :: "char list \<Rightarrow> tcp_chan" where
  "chan_on s =
     \<lparr>readbuf = fresh_buf\<lparr>tdis_bufsize := length s + 1\<rparr>, writebuf = fresh_buf, IsTimeout = False,
      ReadErrno = PBSE_NONE, SelectErrno = PBSE_NONE, sock = 0, reused = False,
      sock_in = [Sock_Data s], sock_wr = [], sock_out = [], heap_ok = (\<lambda>_. True)\<rparr>"

lemma chan_on: "rchan_ok (chan_on s)" "pending (chan_on s) = s" "uncommitted (chan_on s) = []" "whole (chan_on s) = s"
  by (simp_all add: chan_on_def rchan_ok_def rbuf_inv_def clean_def fresh_buf_def pending_def unread_buf_def
      uncommitted_buf_def whole_def)

section \<open>Giving a failed read back\<close>

lemma commit_rolled_back:
  assumes "safe_read c c1" and "rcommit_rc c1 rc = (rc', c')" and "rc' \<noteq> DIS_SUCCESS"
  shows "rolled_back c c'"
proof -
  have "rc' = rc" using rcommit_rc_fst [of c1 rc] assms(2) by simp
  with assms(3) have "rc \<noteq> DIS_SUCCESS" by simp
  then obtain c2 where "rcommit_rc c1 rc = (rc, c2)" "rolled_back c c2" by (rule rcommit_rc_failure [OF assms(1)])
  with assms(2) show ?thesis by simp
qed

lemma disrui_rolls_back:
  assumes "rchan_ok c" and "disrui c = (v, rc, c')" and "rc \<noteq> DIS_SUCCESS"
  shows "rolled_back c c'"
proof -
  obtain r n u c1 where r: "disrsi_0 c False 0 1 = (r, n, u, c1)" by (metis prod.exhaust)
  have s: "safe_read c c1" by (rule disrsi_safe [OF r assms(1)])
  show ?thesis using assms(2,3) commit_rolled_back [OF s]
    by (auto simp: disrui_def r Let_def split: if_splits)
qed

lemma disrul_rolls_back:
  assumes "rchan_ok c" and "disrul c = (v, rc, c')" and "rc \<noteq> DIS_SUCCESS"
  shows "rolled_back c c'"
proof -
  obtain r n u c1 where r: "disrsl_0 c False 0 1 = (r, n, u, c1)" by (metis prod.exhaust)
  have s: "safe_read c c1" by (rule disrsl_safe [OF r assms(1)])
  show ?thesis using assms(2,3) commit_rolled_back [OF s]
    by (auto simp: disrul_def r Let_def split: if_splits)
qed

lemma disrsl_rolls_back:
  assumes "rchan_ok c" and "disrsl junk c = (v, rc, c')" and "rc \<noteq> DIS_SUCCESS"
  shows "rolled_back c c'"
proof -
  obtain r n u c1 where r: "disrsl_0 c junk 0 1 = (r, n, u, c1)" by (metis prod.exhaust)
  have s: "safe_read c c1" by (rule disrsl_safe [OF r assms(1)])
  show ?thesis using assms(2,3) commit_rolled_back [OF s]
    by (auto simp: disrsl_def r split: if_splits)
qed

lemma str_safe:
  assumes "rchan_ok c" and "disrsi_0 c neg v 1 = (r, n, u, c1)" and "tcp_gets c1 k = (i, s, c2)"
  shows "safe_read c c1" and "safe_read c c2"
proof -
  show s: "safe_read c c1" by (rule disrsi_safe [OF assms(2,1)])
  have "safe_read c1 c2" using gets_safe [OF safe_read_ok [OF s] assms(3)] .
  with s show "safe_read c c2" by (rule safe_read_trans)
qed

lemma commit_fail_rolled_back:
  assumes "safe_read c c1" and "tcp_rcommit c1 False = (n, c')"
  shows "rolled_back c c'"
proof -
  obtain c2 where "tcp_rcommit c1 False = (0, c2)" "rolled_back c c2"
    by (rule rcommit_rc_failure [OF assms(1), of DIS_PROTO]) simp
  with assms(2) show ?thesis by simp
qed

lemma commit_zero: "tcp_rcommit c b = (n, c') \<Longrightarrow> n = 0"
  by (auto simp: tcp_rcommit_def Let_def split: if_splits)

lemma disrfst_rolls_back:
  assumes "rchan_ok c" and "disrfst c achars = (rc, v, c')" and "rc \<noteq> DIS_SUCCESS"
  shows "rolled_back c c'"
proof -
  obtain r n u c1 where r: "disrsi_0 c False 0 1 = (r, n, u, c1)" by (metis prod.exhaust)
  obtain i s c2 where g: "tcp_gets c1 (unat u) = (i, s, c2)" by (metis prod.exhaust)
  note s = str_safe [OF assms(1) r g]
  show ?thesis using assms(2,3) commit_fail_rolled_back [OF s(1)] commit_fail_rolled_back [OF s(2)]
    by (auto simp: disrfst_def r g Let_def dest: commit_zero split: if_splits prod.splits)
qed

lemma disrfcs_rolls_back:
  assumes "rchan_ok c" and "disrfcs c achars = (rc, k, v, c')" and "rc \<noteq> DIS_SUCCESS"
  shows "rolled_back c c'"
proof -
  obtain r n u c1 where r: "disrsi_0 c False 0 1 = (r, n, u, c1)" by (metis prod.exhaust)
  obtain i s c2 where g: "tcp_gets c1 (unat u) = (i, s, c2)" by (metis prod.exhaust)
  note s = str_safe [OF assms(1) r g]
  show ?thesis using assms(2,3) commit_fail_rolled_back [OF s(1)] commit_fail_rolled_back [OF s(2)]
    by (auto simp: disrfcs_def r g Let_def dest: commit_zero split: if_splits prod.splits)
qed

section \<open>Properties\<close>


lemma disrui_lead_zero:
  assumes "rchan_ok c" and "pending c = CHR ''0'' # t"
  shows "fst (snd (disrui c)) = DIS_LEADZRO"
proof -
  obtain c1 where g: "tcp_getc c = (schar (CHR ''0''), c1)" by (rule tcp_getc_ok [OF assms])
  have "disrsi_0 c False 0 1 = (DIS_LEADZRO, False, 0, c1)"
    by (subst disrsi_0.simps) (simp add: g DIS_BUFSIZ_def schar_def)
  then show ?thesis by (simp add: disrui_def Let_def rcommit_rc_fst)
qed


text \<open>
  C13: \<open>disrui\<close> is exact.  On the text of a number of up to 63 digits it returns that number when it is
  below \<open>2 ^ 32\<close> and leaves the channel behind the text; otherwise it reports \<open>DIS_OVERFLOW\<close> and takes
  nothing.
\<close>

theorem disrui_exact:
  assumes "rchan_ok c" and "pending c = dis_num (CHR ''+'') n @ t" and "length (dec n) \<le> 63"
  shows "if n < 2 ^ 32 then \<exists>c'. disrui c = (of_nat n, DIS_SUCCESS, c') \<and> unat (of_nat n :: c_uint) = n \<and> got c c' t
    else \<exists>v c'. disrui c = (v, DIS_OVERFLOW, c') \<and> rolled_back c c'"
proof (cases "n < 2 ^ 32")
  case True
  then show ?thesis using disrui_got [OF assms(1,2)] by (simp add: unat_of_nat)
next
  case False
  obtain c1 where c1: "disrsi_0 c False 0 1 = (DIS_OVERFLOW, False, - 1, c1)"
    using disrsi_num_over [OF assms(1,2) _ False assms(3), of False 0] by auto
  then have "fst (snd (disrui c)) = DIS_OVERFLOW" by (simp add: disrui_def Let_def rcommit_rc_fst)
  then obtain v c' where "disrui c = (v, DIS_OVERFLOW, c')" by (metis prod.collapse)
  with False show ?thesis using disrui_rolls_back [OF assms(1)] by auto
qed

theorem disrui_exact_witness:
  "\<exists>v c'. disrui (chan_on (dis_num (CHR ''+'') 4294967296)) = (v, DIS_OVERFLOW, c') \<and>
     rolled_back (chan_on (dis_num (CHR ''+'') 4294967296)) c'"
proof -
  have l: "length (dec 4294967296) \<le> 63" by (simp add: dec.simps)
  have p: "pending (chan_on (dis_num (CHR ''+'') 4294967296)) = dis_num (CHR ''+'') 4294967296 @ []"
    by (simp add: chan_on(2))
  show ?thesis using disrui_exact [OF chan_on(1) p l] by simp
qed



text \<open>
  C39: the writers stay inside their scratch array: the digits, the sign and the counts of any \<open>unsigned\<close>
  and of any \<open>unsigned long\<close>, with a closing NUL, take less than the \<open>DIS_BUFSIZ\<close> bytes there are.
\<close>

theorem scratch_bound:
  "length (case discui_0 [] u of (cp, ndigs) \<Rightarrow> dis_count_loop (sg # cp) ndigs) + 1 < DIS_BUFSIZ \<and>
   length (case discul_0 [] ul of (cp, ndigs) \<Rightarrow> dis_count_loop (sg # cp) ndigs) + 1 < DIS_BUFSIZ"
proof -
  have u: "unat u < 2 ^ 32" and ul: "unat ul < 2 ^ 64" using unsigned_less [of u] unsigned_less [of ul] by simp_all
  have "length (dec (unat u)) \<le> 10" "length (dec (unat ul)) \<le> 20"
    using length_dec_le [of 10 "unat u"] u length_dec_le [of 20 "unat ul"] ul by simp_all
  then have "length (dis_num sg (unat u)) \<le> 14" "length (dis_num sg (unat ul)) \<le> 24"
    using dis_num_length [of "unat u" sg] dis_num_length [of "unat ul" sg] by simp_all
  then show ?thesis by (simp add: dis_text_uint dis_text_ulong DIS_BUFSIZ_def)
qed

text \<open>
  C34: a flush over a socket that keeps taking bytes, in whatever portions and with whatever
  interruptions, sends exactly the committed bytes, in order, and keeps the uncommitted ones as the
  whole content of the buffer.
\<close>

theorem flush_sends_committed:
  assumes "wchan_ok c" and "Wr_Fail \<notin> set (sock_wr c)"
  shows "\<exists>c'. DIS_tcp_wflush c = (0, c') \<and> wchan_ok c' \<and>
    sock_out c' = sock_out c @ take (tdis_trailp (writebuf c)) (wdata c) \<and>
    wdata c' = drop (tdis_trailp (writebuf c)) (wdata c)"
proof -
  obtain c' where "DIS_tcp_wflush c = (0, c')" "wchan_ok c'"
    "sock_out c' = sock_out c @ take (tdis_trailp (writebuf c)) (wdata c)"
    "wdata c' = drop (tdis_trailp (writebuf c)) (wdata c)"
    by (rule wflush_committed [OF assms])
  then show ?thesis by blast
qed

definition demo_out :: tcp_chan where
  "demo_out = (chan_on [])\<lparr>writebuf := fresh_buf\<lparr>tdis_thebuf := ''+12+34'', tdis_trailp := 5, tdis_leadp := 6\<rparr>,
     sock_wr := [Wrote 2, Wr_EINTR]\<rparr>"

theorem flush_sends_committed_witness:
  "\<exists>c'. DIS_tcp_wflush demo_out = (0, c') \<and> sock_out c' = ''+12+3'' \<and> wdata c' = ''4''"
proof -
  have "wchan_ok demo_out" "Wr_Fail \<notin> set (sock_wr demo_out)"
    by (simp_all add: wchan_ok_def demo_out_def chan_on_def fresh_buf_def THE_BUF_SIZE_def)
  from flush_sends_committed [OF this] show ?thesis
    by (auto simp: demo_out_def chan_on_def wdata_def fresh_buf_def)
qed

text \<open>
  \<open>disrsi\<close> does not give an overflowing number back.  On a number that fits an \<open>unsigned\<close> but not an
  \<open>int\<close> it returns \<open>INT_MAX\<close> with \<open>DIS_OVERFLOW\<close>, and the next read starts behind the number.
\<close>

theorem disrsi_overflow_consumes:
  assumes "rchan_ok c" and "pending c = dis_num (CHR ''+'') n @ t" and "2 ^ 31 \<le> n" and "n < 2 ^ 32"
  shows "\<exists>c'. disrsi c = (2 ^ 31 - 1, DIS_OVERFLOW, c') \<and> pending c' = t"
proof -
  obtain c1 where c1: "disrsi_0 c False 0 1 = (DIS_SUCCESS, False, of_nat n, c1)" "read_step c c1 t"
    using disrsi_num_ok [OF assms(1,2) _ assms(4), of False 0] by auto
  have "\<not> (of_nat n :: c_uint) \<le> 2 ^ 31 - 1"
    using assms(3) by (simp add: word_le_nat_alt unat_of_nat_32 [OF assms(4)])
  with c1 show ?thesis by (simp add: disrsi_def read_step_def)
qed

theorem disrsi_overflow_consumes_witness:
  "\<exists>c'. disrsi (chan_on (dis_num (CHR ''+'') 3000000000 @ ''+1'')) = (2 ^ 31 - 1, DIS_OVERFLOW, c') \<and> pending c' = ''+1''"
  by (rule disrsi_overflow_consumes [OF chan_on(1,2)]) simp_all

lemma sint_nonneg_of_uint: "uint (x :: c_uint) < 2 ^ 31 \<Longrightarrow> 0 \<le> sint x"
proof -
  assume a: "uint x < 2 ^ 31"
  have "signed_take_bit 31 (uint x) = uint x" using a uint_ge_0 [of x]
    by (intro signed_take_bit_int_eq_self) (simp_all add: order_trans [OF _ uint_ge_0])
  then show "0 \<le> sint x" by (simp add: sint_uint)
qed

text \<open>
  \<open>disrsc\<close> accepts negative numbers far below \<open>SCHAR_MIN\<close>: it tests the negated value as an \<open>int\<close>, so
  every magnitude above \<open>2 ^ 31\<close> passes and is cut to its low byte.
\<close>

theorem disrsc_wraps:
  assumes "rchan_ok c" and "pending c = dis_num (CHR ''-'') n @ t" and "2 ^ 31 < n" and "n < 2 ^ 32"
  shows "\<exists>c'. disrsc c = (ucast (- (of_nat n :: c_uint)), DIS_SUCCESS, c') \<and> got c c' t"
proof -
  obtain c1 where c1: "disrsi_0 c False 0 1 = (DIS_SUCCESS, True, of_nat n, c1)" "read_step c c1 t"
    using disrsi_num_ok [OF assms(1,2) _ assms(4), of False 0] by auto
  have "(- of_nat n :: c_uint) = of_nat (2 ^ 32 - n)"
    using assms(4) of_nat_diff [of n "2 ^ 32", where 'a = c_uint] by simp
  then have "unat (- (of_nat n :: c_uint)) = unat (of_nat (2 ^ 32 - n) :: c_uint)" by (simp only:)
  also have "\<dots> = 2 ^ 32 - n" by (rule unat_of_nat_32) (use assms(3) in simp)
  finally have u: "unat (- (of_nat n :: c_uint)) = 2 ^ 32 - n" .
  have "uint (- (of_nat n :: c_uint)) = int (2 ^ 32 - n)" by (simp only: uint_nat u)
  then have "0 \<le> sint (- (of_nat n :: c_uint))"
    using assms(3) by (intro sint_nonneg_of_uint) simp
  then have "- 128 \<le> sint (- (of_nat n :: c_uint))" by simp
  moreover obtain c' where "rcommit_rc c1 DIS_SUCCESS = (DIS_SUCCESS, c')" "got c c' t"
    by (rule rcommit_rc_success [OF c1(2)])
  ultimately show ?thesis using c1(1) by (simp add: disrsc_def)
qed

theorem disrsc_wraps_witness:
  "\<exists>c'. disrsc (chan_on (dis_num (CHR ''-'') 4294967295 @ [])) = (1, DIS_SUCCESS, c') \<and>
     got (chan_on (dis_num (CHR ''-'') 4294967295 @ [])) c' []"
  using disrsc_wraps [OF chan_on(1,2) , of 4294967295 "[]"] by simp

text \<open>
  \<open>disrcs\<close> tests a sign that was never set.  When the count starts with a zero, the code it returns
  depends on the content of the uninitialised local: \<open>DIS_BADSIGN\<close> or \<open>DIS_LEADZRO\<close>.
\<close>

theorem disrcs_unset_sign:
  assumes "rchan_ok c" and "pending c = CHR ''0'' # t"
  shows "fst (snd (snd (disrcs junk c))) = (if junk then DIS_BADSIGN else DIS_LEADZRO)"
proof -
  obtain c1 where g: "tcp_getc c = (schar (CHR ''0''), c1)" by (rule tcp_getc_ok [OF assms])
  have r: "disrsi_0 c junk 0 1 = (DIS_LEADZRO, junk, 0, c1)"
    by (subst disrsi_0.simps) (simp add: g DIS_BUFSIZ_def schar_def)
  obtain rc c2 where cm: "rcommit_rc c1 (if junk then DIS_BADSIGN else DIS_LEADZRO) = (rc, c2)" by fastforce
  have "rc = (if junk then DIS_BADSIGN else DIS_LEADZRO)" using rcommit_rc_fst [of c1] cm by (metis fst_conv)
  with cm show ?thesis by (simp add: disrcs_def r Let_def split: if_splits)
qed

theorem disrcs_unset_sign_witness:
  "fst (snd (snd (disrcs True (chan_on ''0'')))) = DIS_BADSIGN \<and>
   fst (snd (snd (disrcs False (chan_on ''0'')))) = DIS_LEADZRO"
  using disrcs_unset_sign [where c = "chan_on ''0''" and t = "[]", OF chan_on(1,2)] by simp

text \<open>
  C33: any \<open>long\<close>, the most negative one included, that is written to a fresh channel and flushed is the
  value that \<open>disrsl\<close> reads on the other side, whatever the portions in which it travels and whatever
  its uninitialised local holds; what follows stays unread.
\<close>

theorem long_transfer:
  assumes "DIS_tcp_setup fd [] wrs heap = Some cw" and "\<And>n. heap n" and "Wr_Fail \<notin> set wrs"
    and "DIS_tcp_setup fd' inp wrs' heap' = Some cr" and "\<And>n. heap' n"
    and "NUL \<notin> set (all_in inp) \<or> length (all_in inp) < THE_BUF_SIZE"
    and "incoming inp = sock_out (snd (DIS_tcp_wflush (snd (diswsl cw v)))) @ t"
  shows "fst (diswsl cw v) = DIS_SUCCESS \<and> fst (DIS_tcp_wflush (snd (diswsl cw v))) = 0 \<and>
    (\<exists>c'. disrsl junk cr = (v, DIS_SUCCESS, c') \<and> pending c' = t)"
  by (rule sl.end_to_end [OF assms(1-3) TrueI assms(4-7)])

definition fresh_chan :: "sock_result list \<Rightarrow> sock_write list \<Rightarrow> tcp_chan" where
  "fresh_chan inp wrs = the (DIS_tcp_setup 3 inp wrs (\<lambda>_. True))"

lemma fresh_chan: "DIS_tcp_setup 3 inp wrs (\<lambda>_. True) = Some (fresh_chan inp wrs)"
  by (simp add: fresh_chan_def DIS_tcp_setup_def)

lemma fresh_sent:
  assumes "wrote (w (fresh_chan [] wrs)) (fresh_chan [] wrs) s" and "Wr_Fail \<notin> set wrs"
  shows "sock_out (snd (DIS_tcp_wflush (snd (w (fresh_chan [] wrs))))) = s"
proof -
  let ?c = "snd (w (fresh_chan [] wrs))"
  have v: "wchan_ok ?c" "Wr_Fail \<notin> set (sock_wr ?c)" "wdata ?c = s" "sock_out ?c = []"
    "tdis_trailp (writebuf ?c) = tdis_leadp (writebuf ?c)"
    using assms setup_views [OF fresh_chan [of "[]" wrs]] by (simp_all add: wrote_def)
  obtain c' where "DIS_tcp_wflush ?c = (0, c')" "sock_out c' = sock_out ?c @ take (tdis_trailp (writebuf ?c)) (wdata ?c)"
    by (rule wflush_committed [OF v(1,2)])
  moreover have "length (wdata ?c) \<le> tdis_leadp (writebuf ?c)" by (simp add: wdata_def)
  ultimately show ?thesis using v by simp
qed

lemma fresh_wchan: "wchan_ok (fresh_chan [] wrs)"
  by (rule setup_ok(1) [OF fresh_chan]) simp

theorem long_transfer_witness:
  "\<exists>c'. disrsl True (fresh_chan [Sock_Data ''219-9'', Sock_Data ''223372036854775808+0''] []) = (2 ^ 63, DIS_SUCCESS, c') \<and>
     pending c' = ''+0''"
proof -
  let ?inp = "[Sock_Data ''219-9'', Sock_Data ''223372036854775808+0'']"
  have "sock_out (snd (DIS_tcp_wflush (snd (diswsl (fresh_chan [] [Wrote 2]) (2 ^ 63))))) = dis_int (sint (2 ^ 63 :: c_long))"
    by (rule fresh_sent [of "\<lambda>c. diswsl c (2 ^ 63)", OF diswsl_wrote [OF fresh_wchan]]) simp
  moreover have "dis_int (sint (2 ^ 63 :: c_long)) = ''219-9223372036854775808''"
    by (simp add: dis_int_def dis_num_def dec.simps dis_prefix.simps dec_simps)
  ultimately have i: "incoming ?inp = sock_out (snd (DIS_tcp_wflush (snd (diswsl (fresh_chan [] [Wrote 2]) (2 ^ 63))))) @ ''+0''"
    by simp
  show ?thesis using long_transfer [OF fresh_chan _ _ fresh_chan _ _ i, of True] by simp
qed

text \<open>
  Any string without NUL, of up to \<open>2 ^ 32 - 1\<close> bytes, that is written with \<open>diswst\<close> and flushed is
  what \<open>disrst\<close> returns on the other side, in freshly allocated memory; what follows stays unread.
\<close>

theorem string_transfer:
  assumes "DIS_tcp_setup fd [] wrs heap = Some cw" and "\<And>n. heap n" and "Wr_Fail \<notin> set wrs"
    and "any_text s"
    and "DIS_tcp_setup fd' inp wrs' heap' = Some cr" and "\<And>n. heap' n"
    and "NUL \<notin> set (all_in inp) \<or> length (all_in inp) < THE_BUF_SIZE"
    and "incoming inp = sock_out (snd (DIS_tcp_wflush (snd (diswst cw s)))) @ t"
  shows "fst (diswst cw s) = DIS_SUCCESS \<and> fst (DIS_tcp_wflush (snd (diswst cw s))) = 0 \<and>
    (\<exists>c'. disrst cr = (Some s, DIS_SUCCESS, c') \<and> pending c' = t)"
  by (rule st.end_to_end [OF assms])

theorem string_transfer_witness:
  "\<exists>c'. disrst (fresh_chan [Sock_Data ''+3a'', Sock_Data ''bc''] []) = (Some ''abc'', DIS_SUCCESS, c') \<and> pending c' = []"
proof -
  let ?inp = "[Sock_Data ''+3a'', Sock_Data ''bc'']"
  have a: "any_text ''abc''" by (simp add: any_text_def)
  have "sock_out (snd (DIS_tcp_wflush (snd (diswst (fresh_chan [] []) ''abc'')))) = dis_str ''abc''"
    by (rule fresh_sent [of "\<lambda>c. diswst c ''abc''", OF diswst_wrote [OF fresh_wchan]]) simp_all
  then have i: "incoming ?inp = sock_out (snd (DIS_tcp_wflush (snd (diswst (fresh_chan [] []) ''abc'')))) @ []"
    by (simp add: dis_str_def dis_num_def dec.simps dis_prefix.simps dec_simps)
  show ?thesis using string_transfer [OF fresh_chan _ _ a fresh_chan _ _ i] by simp
qed

end
