(* ===== verification/Batch_Attr.thy ===== *)
theory Batch_Attr
  imports Dis_Codec
begin

text \<open>
  Attribute lists on the wire (\<open>lib/Libifl/enc_svrattrl.c\<close>, \<open>dec_svrattrl.c\<close>, \<open>enc_attrl.c\<close>,
  \<open>dec_attrl.c\<close>, \<open>enc_attropl.c\<close>, \<open>dec_attropl.c\<close>) and the two ways in which the message functions
  of that library compose the primitive writers and readers.

  An encoder is a chain \<open>(rc = w1) || (rc = w2) || ...\<close>: the writers run until one fails and its code
  is the result (\<open>wseq\<close>).  Most encoders are written \<open>(rc = w1 != 0) || ...\<close>, where C assigns the
  truth value of the comparison: a failure of any kind is then the code 1, which is \<open>DIS_OVERFLOW\<close>
  (\<open>nz\<close>).  A decoder reads one field after the other into the request and returns at the first
  failure (\<open>fld\<close>).
\<close>

type_synonym writer = "tcp_chan \<Rightarrow> dis_rc \<times> tcp_chan"
type_synonym 'a reader = "tcp_chan \<Rightarrow> dis_rc \<times> 'a \<times> tcp_chan"

section \<open>Chains of writers and of readers\<close>

fun wseq :: "writer list \<Rightarrow> writer" where
  "wseq [] chan = (DIS_SUCCESS, chan)"
| "wseq (w # ws) chan =
     (case w chan of (rc, chan1) \<Rightarrow> if rc \<noteq> DIS_SUCCESS then (rc, chan1) else wseq ws chan1)"

declare wseq.simps [simp del]

definition nz :: "writer \<Rightarrow> writer" where
  "nz w chan = (case w chan of (rc, chan1) \<Rightarrow> (if rc \<noteq> DIS_SUCCESS then DIS_OVERFLOW else DIS_SUCCESS, chan1))"

definition fld :: "'a reader \<Rightarrow> ('a \<Rightarrow> 'r \<Rightarrow> 'r) \<Rightarrow> ('r \<Rightarrow> 'r reader) \<Rightarrow> 'r \<Rightarrow> 'r reader" where
  "fld m upd k r chan =
     (case m chan of (rc, v, chan1) \<Rightarrow>
        if rc \<noteq> DIS_SUCCESS then (rc, upd v r, chan1) else k (upd v r) chan1)"

definition fin :: "'r \<Rightarrow> 'r reader" where
  "fin r chan = (DIS_SUCCESS, r, chan)"

text \<open>The readers that return their value and report the code through a pointer, in the shape of the others.\<close>

definition rc_first :: "(tcp_chan \<Rightarrow> 'a \<times> dis_rc \<times> tcp_chan) \<Rightarrow> 'a reader" where
  "rc_first m chan = (case m chan of (v, rc, chan1) \<Rightarrow> (rc, v, chan1))"

abbreviation r_ui :: "c_uint reader" where "r_ui \<equiv> rc_first disrui"
abbreviation r_si :: "c_int reader" where "r_si \<equiv> rc_first disrsi"
abbreviation r_sl :: "bool \<Rightarrow> c_long reader" where "r_sl junk \<equiv> rc_first (disrsl junk)"
abbreviation r_uc :: "8 word reader" where "r_uc \<equiv> rc_first disruc"
abbreviation r_st :: "char list option reader" where "r_st \<equiv> rc_first disrst"
abbreviation r_fst :: "nat \<Rightarrow> char list reader" where "r_fst n \<equiv> (\<lambda>chan. disrfst chan n)"

definition r_fcs :: "nat \<Rightarrow> (nat \<times> char list) reader" where
  "r_fcs n chan = (case disrfcs chan n of (rc, ls, v, chan1) \<Rightarrow> (rc, (ls, v), chan1))"

definition r_cs :: "bool \<Rightarrow> (char list option \<times> nat) reader" where
  "r_cs junk chan = (case disrcs junk chan of (v, n, rc, chan1) \<Rightarrow> (rc, (v, n), chan1))"

subsection \<open>Their contracts\<close>

definition writes :: "writer \<Rightarrow> char list \<Rightarrow> bool" where
  "writes w bs \<longleftrightarrow> (\<forall>c. wchan_ok c \<longrightarrow> wrote (w c) c bs)"

definition reads :: "'a reader \<Rightarrow> char list \<Rightarrow> 'a \<Rightarrow> bool" where
  "reads m bs v \<longleftrightarrow>
     (\<forall>c t. rchan_ok c \<longrightarrow> uncommitted c = [] \<longrightarrow> pending c = bs @ t \<longrightarrow>
        (\<exists>c'. m c = (DIS_SUCCESS, v, c') \<and> got c c' t))"

lemma writesD:
  assumes "writes w s" and "wchan_ok c"
  obtains c' where "w c = (DIS_SUCCESS, c')" and "wrote (DIS_SUCCESS, c') c s"
proof -
  have a: "wrote (w c) c s" using assms by (simp add: writes_def)
  then have "w c = (DIS_SUCCESS, snd (w c))" by (simp add: wrote_def prod_eq_iff)
  with a show ?thesis using that by metis
qed

lemma writesI:
  assumes "\<And>c. wchan_ok c \<Longrightarrow> wrote (w c) c s"
  shows "writes w s"
  using assms by (simp add: writes_def)

lemma wrote_wchan_ok: "wrote (rc, c') c s \<Longrightarrow> wchan_ok c'"
  by (simp add: wrote_def)

lemma writes_one:
  assumes "writes w s"
  shows "writes (wseq [w]) s"
proof (rule writesI)
  fix c
  assume "wchan_ok c"
  with assms obtain c' where "w c = (DIS_SUCCESS, c')" "wrote (DIS_SUCCESS, c') c s" by (rule writesD)
  then show "wrote (wseq [w] c) c s" by (simp add: wseq.simps)
qed

lemma wseq_append:
  "wseq (ws @ ws') c = (case wseq ws c of (rc, c1) \<Rightarrow> if rc \<noteq> DIS_SUCCESS then (rc, c1) else wseq ws' c1)"
proof (induction ws arbitrary: c)
  case (Cons w ws)
  obtain rc c1 where "w c = (rc, c1)" by fastforce
  then show ?case using Cons.IH by (simp add: wseq.simps)
qed (simp add: wseq.simps)

lemma writes_append:
  assumes "writes (wseq ws) s" and "writes (wseq ws') s'"
  shows "writes (wseq (ws @ ws')) (s @ s')"
proof (rule writesI)
  fix c
  assume c: "wchan_ok c"
  obtain c1 where c1: "wseq ws c = (DIS_SUCCESS, c1)" "wrote (DIS_SUCCESS, c1) c s"
    by (rule writesD [OF assms(1) c])
  obtain c2 where c2: "wseq ws' c1 = (DIS_SUCCESS, c2)" "wrote (DIS_SUCCESS, c2) c1 s'"
    by (rule writesD [OF assms(2) wrote_wchan_ok [OF c1(2)]])
  have "wrote (DIS_SUCCESS, c2) c (s @ s')" using c1(2) c2(2) by (intro wrote_trans [of "(DIS_SUCCESS, c1)"]) simp_all
  then show "wrote (wseq (ws @ ws') c) c (s @ s')" by (simp add: wseq_append c1 c2)
qed

lemma writes_cons:
  assumes "writes w s" and "writes (wseq ws) s'"
  shows "writes (wseq (w # ws)) (s @ s')"
  using writes_append [OF writes_one [OF assms(1)] assms(2)] by simp

lemma writes_nz:
  assumes "writes w s"
  shows "writes (nz w) s"
proof (rule writesI)
  fix c
  assume "wchan_ok c"
  with assms obtain c' where "w c = (DIS_SUCCESS, c')" "wrote (DIS_SUCCESS, c') c s" by (rule writesD)
  then show "wrote (nz w c) c s" by (simp add: nz_def)
qed

lemma writes_diswui: "writes (\<lambda>c. diswui c v) (dis_num (CHR ''+'') (unat v))"
  by (simp add: writes_def diswui_wrote)

lemma writes_diswsi: "writes (\<lambda>c. diswsi c v) (dis_int (sint v))"
  by (simp add: writes_def diswsi_wrote)

lemma writes_diswsl: "writes (\<lambda>c. diswsl c v) (dis_int (sint v))"
  by (simp add: writes_def diswsl_wrote)

lemma writes_diswuc: "writes (\<lambda>c. diswuc c v) (dis_num (CHR ''+'') (unat v))"
  by (simp add: writes_def uc.wr_wrote)

lemma writes_diswst: "length s < 2 ^ 32 \<Longrightarrow> writes (\<lambda>c. diswst c s) (dis_str s)"
  by (simp add: writes_def diswst_wrote)

lemma writes_diswcs: "length s < 2 ^ 32 \<Longrightarrow> writes (\<lambda>c. diswcs c (Some s) (length s)) (dis_str s)"
  by (simp add: writes_def cs.wr_wrote)

lemmas writes_intros = writes_nz writes_diswui writes_diswsi writes_diswsl writes_diswuc writes_diswst writes_diswcs

lemma reads_fin: "reads (fin r) [] r"
  by (auto simp: reads_def fin_def got_def same_write_def)

lemma readsD:
  assumes "reads m bs v" and "rchan_ok c" and "uncommitted c = []" and "pending c = bs @ t"
  obtains c' where "m c = (DIS_SUCCESS, v, c')" and "got c c' t"
proof -
  have "\<exists>c'. m c = (DIS_SUCCESS, v, c') \<and> got c c' t"
    using assms(2-4) by (rule assms(1) [unfolded reads_def, rule_format])
  then show ?thesis using that by blast
qed

lemma reads_fld:
  assumes "reads m bs v" and "reads (k (upd v r)) bs' r'"
  shows "reads (fld m upd k r) (bs @ bs') r'"
  unfolding reads_def
proof (intro allI impI)
  fix c t
  assume c: "rchan_ok c" "uncommitted c = []" "pending c = (bs @ bs') @ t"
  have p: "pending c = bs @ (bs' @ t)" using c(3) by simp
  obtain c1 where c1: "m c = (DIS_SUCCESS, v, c1)" "got c c1 (bs' @ t)"
    by (rule readsD [OF assms(1) c(1,2) p])
  have g: "rchan_ok c1" "uncommitted c1 = []" "pending c1 = bs' @ t" using c1(2) by (simp_all add: got_def)
  obtain c2 where c2: "k (upd v r) c1 = (DIS_SUCCESS, r', c2)" "got c1 c2 t"
    by (rule readsD [OF assms(2) g])
  have "got c c2 t" using c1(2) c2(2) by (rule got_trans)
  then show "\<exists>c'. fld m upd k r c = (DIS_SUCCESS, r', c') \<and> got c c' t"
    by (simp add: fld_def c1(1) c2(1))
qed

lemma reads_last:
  assumes "reads m bs v" and "r' = upd v r"
  shows "reads (fld m upd fin r) bs r'"
  using reads_fld [of m bs v fin upd r "[]" r'] reads_fin [of r'] assms by simp

lemma reads_of_got:
  assumes "\<And>c t. rchan_ok c \<Longrightarrow> uncommitted c = [] \<Longrightarrow> pending c = bs @ t \<Longrightarrow> \<exists>c'. m c = (DIS_SUCCESS, v, c') \<and> got c c' t"
  shows "reads m bs v"
  using assms by (simp add: reads_def)

lemma reads_rc_first:
  assumes "\<And>c t. rchan_ok c \<Longrightarrow> uncommitted c = [] \<Longrightarrow> pending c = bs @ t \<Longrightarrow> \<exists>c'. m c = (v, DIS_SUCCESS, c') \<and> got c c' t"
  shows "reads (rc_first m) bs v"
proof (rule reads_of_got)
  fix c t
  assume "rchan_ok c" "uncommitted c = []" "pending c = bs @ t"
  from assms [OF this] obtain c' where "m c = (v, DIS_SUCCESS, c')" "got c c' t" by blast
  then show "\<exists>c'. rc_first m c = (DIS_SUCCESS, v, c') \<and> got c c' t" by (simp add: rc_first_def)
qed

lemma reads_ui: "reads r_ui (dis_num (CHR ''+'') (unat v)) v"
  by (rule reads_rc_first, rule ui.rd_got, simp_all)

lemma reads_uc: "reads r_uc (dis_num (CHR ''+'') (unat v)) v"
  by (rule reads_rc_first, rule uc.rd_got, simp_all)

lemma reads_si: "reads r_si (dis_int (sint v)) v"
  by (rule reads_rc_first, rule si.rd_got, simp_all)

lemma reads_sl: "reads (r_sl junk) (dis_int (sint v)) v"
  by (rule reads_rc_first, rule sl.rd_got, simp_all)

lemma reads_st: "any_text s \<Longrightarrow> reads r_st (dis_str s) (Some s)"
  by (rule reads_rc_first, rule st.rd_got, simp_all)

lemma reads_fst: "text_upto n s \<Longrightarrow> reads (r_fst n) (dis_str s) s"
  by (rule reads_of_got, rule fixst.rd_got, simp_all)

lemma reads_fcs:
  assumes "length s \<le> n" and "length s < 2 ^ 32"
  shows "reads (r_fcs n) (dis_str s) (length s, s)"
proof (rule reads_of_got)
  fix c t
  assume c: "rchan_ok c" "uncommitted c = []" "pending c = dis_str s @ t"
  from disrfcs_got [OF c(1,3) assms]
  obtain c' where "disrfcs c n = (DIS_SUCCESS, length s, s, c')" "got c c' t" by blast
  then show "\<exists>c'. r_fcs n c = (DIS_SUCCESS, (length s, s), c') \<and> got c c' t" by (simp add: r_fcs_def)
qed

lemma reads_cs:
  assumes "length s < 2 ^ 32"
  shows "reads (r_cs junk) (dis_str s) (Some s, length s)"
proof (rule reads_of_got)
  fix c t
  assume c: "rchan_ok c" "uncommitted c = []" "pending c = dis_str s @ t"
  from disrcs_got [OF c(1,3) assms]
  obtain c' where "disrcs junk c = (Some s, length s, DIS_SUCCESS, c')" "got c c' t" by blast
  then show "\<exists>c'. r_cs junk c = (DIS_SUCCESS, (Some s, length s), c') \<and> got c c' t" by (simp add: r_cs_def)
qed

lemmas reads_intros = reads_ui reads_uc reads_si reads_sl reads_st reads_fst reads_cs

lemma writes_map:
  assumes "writes w s" and "\<And>x. x \<in> set xs \<Longrightarrow> writes (f x) (t x)"
  shows "writes (wseq (w # map f xs)) (s @ concat (map t xs))"
  using assms(2)
proof (induction xs rule: rev_induct)
  case Nil
  show ?case using writes_one [OF assms(1)] by (simp only: list.map concat.simps append_Nil2)
next
  case (snoc x xs)
  then have "writes (wseq ((w # map f xs) @ [f x])) ((s @ concat (map t xs)) @ t x)"
    by (intro writes_append writes_one) simp_all
  then show ?case by simp
qed

section \<open>The attribute structures\<close>

text \<open>
  \<open>struct attropl\<close> and \<open>struct attrl\<close> have the same members ("so they can be used interchangably"); a
  null pointer is \<open>None\<close>.  A \<open>svrattrl\<close> is one block of \<open>al_tsize\<close> bytes with the bytes of the three
  strings behind the structure: name, resource, value, each with its length including the terminator.
\<close>

record attropl =
  ao_name :: "char list option"
  ao_resource :: "char list option"
  ao_value :: "char list option"
  ao_op :: c_uint

record svrattrl =
  al_name :: "char list"
  al_resc :: "char list option"
  al_value :: "char list"
  al_op :: c_uint
  al_tsize :: nat
  al_nameln :: nat
  al_rescln :: nat
  al_valln :: nat
  al_flags :: nat

definition sizeof_svrattrl :: nat where "sizeof_svrattrl = 88"
definition sizeof_attropl :: nat where "sizeof_attropl = 40"

definition OP_SET :: c_uint where "OP_SET = 0"

definition strlen_opt :: "char list option \<Rightarrow> nat" where
  "strlen_opt s = (case s of None \<Rightarrow> 0 | Some t \<Rightarrow> length t + 1)"

section \<open>Encoding\<close>

definition enc_resc :: "char list option \<Rightarrow> writer list" where
  "enc_resc resc =
     (case resc of
        Some r \<Rightarrow> [\<lambda>c. diswui c 1, \<lambda>c. diswst c r]
      | None \<Rightarrow> [\<lambda>c. diswui c 0])"

definition encode_svrattrl1 :: "svrattrl \<Rightarrow> writer" where
  "encode_svrattrl1 ps =
     (let name = cstring (al_name ps); value = cstring (al_value ps); resc = map_option cstring (al_resc ps);
          name_len = (of_nat (length name + length value + 2 + strlen_opt resc) :: c_uint)
      in wseq ([\<lambda>c. diswui c name_len, \<lambda>c. diswst c name] @ enc_resc resc @
               [\<lambda>c. diswst c value, \<lambda>c. diswui c (al_op ps)]))"

definition encode_DIS_svrattrl :: "tcp_chan \<Rightarrow> svrattrl list \<Rightarrow> dis_rc \<times> tcp_chan" where
  "encode_DIS_svrattrl chan psattl =
     wseq ((\<lambda>c. diswui c (of_nat (length psattl))) # map encode_svrattrl1 psattl) chan"

text \<open>An \<open>attropl\<close> entry without a name is counted and then skipped; an \<open>attrl\<close> entry without one is sent with an empty name.\<close>

definition encode_attropl1 :: "attropl \<Rightarrow> writer" where
  "encode_attropl1 ps =
     (case ao_name ps of
        None \<Rightarrow> wseq []
      | Some name \<Rightarrow>
          (let name_len = (of_nat (length name + 1 + strlen_opt (ao_value ps) + strlen_opt (ao_resource ps)) :: c_uint)
           in wseq ([\<lambda>c. diswui c name_len, \<lambda>c. diswst c name] @ enc_resc (ao_resource ps) @
                    [\<lambda>c. diswst c (case ao_value ps of Some v \<Rightarrow> v | None \<Rightarrow> []), \<lambda>c. diswui c (ao_op ps)])))"

definition encode_DIS_attropl :: "tcp_chan \<Rightarrow> attropl list \<Rightarrow> dis_rc \<times> tcp_chan" where
  "encode_DIS_attropl chan pattropl =
     wseq ((\<lambda>c. diswui c (of_nat (length pattropl))) # map encode_attropl1 pattropl) chan"

definition encode_attrl1 :: "attropl \<Rightarrow> writer" where
  "encode_attrl1 ps =
     (let name_len = (of_nat (strlen_opt (ao_name ps) + strlen_opt (ao_value ps) + strlen_opt (ao_resource ps)) :: c_uint)
      in wseq ([\<lambda>c. diswui c name_len, \<lambda>c. diswst c (case ao_name ps of Some n \<Rightarrow> n | None \<Rightarrow> [])] @
               enc_resc (ao_resource ps) @
               [\<lambda>c. diswst c (case ao_value ps of Some v \<Rightarrow> v | None \<Rightarrow> []), \<lambda>c. diswui c OP_SET]))"

definition encode_DIS_attrl :: "tcp_chan \<Rightarrow> attropl list \<Rightarrow> dis_rc \<times> tcp_chan" where
  "encode_DIS_attrl chan pattrl =
     wseq ((\<lambda>c. diswui c (of_nat (length pattrl))) # map encode_attrl1 pattrl) chan"

section \<open>Decoding\<close>

text \<open>Sequencing of readers inside one loop body: a failure breaks out of the loop, and the element being built is freed.\<close>

definition rbind :: "'a reader \<Rightarrow> ('a \<Rightarrow> 'b option reader) \<Rightarrow> 'b option reader" where
  "rbind m k chan = (case m chan of (rc, v, chan1) \<Rightarrow> if rc \<noteq> DIS_SUCCESS then (rc, None, chan1) else k v chan1)"

definition rcalloc :: "nat \<Rightarrow> 'b option reader \<Rightarrow> 'b option reader" where
  "rcalloc sz k chan = (if \<not> heap_ok chan sz then (DIS_NOMALLOC, None, chan) else k chan)"

text \<open>
  \<open>data_len\<close> bounds the length of each of the three strings; it is an \<open>unsigned int\<close> from which the
  length of each string read is subtracted, terminator included.
\<close>

definition dec_svr_value :: "c_uint \<Rightarrow> svrattrl \<Rightarrow> svrattrl option reader" where
  "dec_svr_value data_len ps =
     rbind (r_fcs (unat data_len)) (\<lambda>(ls, value).
       rbind r_ui (\<lambda>op chan.
         (DIS_SUCCESS, Some (ps\<lparr>al_value := value, al_valln := ls + 1, al_op := op\<rparr>), chan)))"

definition decode_svrattrl1 :: "svrattrl option reader" where
  "decode_svrattrl1 =
     rbind r_ui (\<lambda>len.
       (let data_len = (if len = 0 then 1 else len);
            tsize = sizeof_svrattrl + unat data_len + 2
        in rcalloc tsize
          (rbind (r_fcs (unat data_len)) (\<lambda>(ls, name).
             (let ps = \<lparr>al_name = name, al_resc = None, al_value = [], al_op = 0, al_tsize = tsize,
                        al_nameln = ls + 1, al_rescln = 0, al_valln = 0, al_flags = 0\<rparr>;
                  data_len1 = data_len - of_nat (ls + 1)
              in rbind r_ui (\<lambda>hasresc.
                if hasresc \<noteq> 0 then
                  rbind (r_fcs (unat data_len1)) (\<lambda>(ls, resc).
                    dec_svr_value (data_len1 - of_nat (ls + 1)) (ps\<lparr>al_resc := Some resc, al_rescln := ls + 1\<rparr>))
                else dec_svr_value data_len1 ps))))))"

fun decode_svrattrl_loop :: "nat \<Rightarrow> svrattrl list \<Rightarrow> svrattrl list reader" where
  "decode_svrattrl_loop 0 phead chan = (DIS_SUCCESS, phead, chan)"
| "decode_svrattrl_loop (Suc n) phead chan =
     (case decode_svrattrl1 chan of (rc, a, chan1) \<Rightarrow>
        if rc \<noteq> DIS_SUCCESS then (rc, phead, chan1)
        else (case a of Some psvrat \<Rightarrow> decode_svrattrl_loop n (phead @ [psvrat]) chan1
                      | None \<Rightarrow> (rc, phead, chan1)))"

declare decode_svrattrl_loop.simps [simp del]

definition decode_DIS_svrattrl :: "svrattrl list \<Rightarrow> svrattrl list reader" where
  "decode_DIS_svrattrl phead chan =
     (case disrui chan of (numattr, rc, chan1) \<Rightarrow>
        if rc \<noteq> DIS_SUCCESS then (rc, phead, chan1) else decode_svrattrl_loop (unat numattr) phead chan1)"

text \<open>
  The client forms.  On a failure \<open>PBS_free_aopl(pat)\<close> releases the element being built; when the
  failure comes before that element is allocated, \<open>pat\<close> is still the previous element, which is
  already linked into the caller's list: the second component counts the linked elements released.
\<close>

definition decode_attropl1 :: "bool \<Rightarrow> attropl option reader" where
  "decode_attropl1 keep_op =
     rbind r_st (\<lambda>name.
       rbind r_ui (\<lambda>hasresc.
         (let rest = (\<lambda>resc. rbind r_st (\<lambda>value. rbind r_ui (\<lambda>op chan.
                (DIS_SUCCESS, Some \<lparr>ao_name = name, ao_resource = resc, ao_value = value,
                                    ao_op = (if keep_op then op else 0)\<rparr>, chan))))
          in if hasresc \<noteq> 0 then rbind r_st rest else rest None)))"

fun decode_attropl_loop :: "bool \<Rightarrow> nat \<Rightarrow> attropl list \<Rightarrow> (attropl list \<times> nat) reader" where
  "decode_attropl_loop keep_op 0 pats chan = (DIS_SUCCESS, (pats, 0), chan)"
| "decode_attropl_loop keep_op (Suc n) pats chan =
     (case disrui chan of (_, rc, chan1) \<Rightarrow>
        if rc \<noteq> DIS_SUCCESS then (rc, (pats, if pats = [] then 0 else 1), chan1)
        else (case rcalloc sizeof_attropl (decode_attropl1 keep_op) chan1 of (rc, a, chan2) \<Rightarrow>
                if rc \<noteq> DIS_SUCCESS then (rc, (pats, 0), chan2)
                else (case a of Some pat \<Rightarrow> decode_attropl_loop keep_op n (pats @ [pat]) chan2
                              | None \<Rightarrow> (rc, (pats, 0), chan2))))"

declare decode_attropl_loop.simps [simp del]

definition decode_DIS_attropl :: "(attropl list \<times> nat) reader" where
  "decode_DIS_attropl chan =
     (case disrui chan of (numpat, rc, chan1) \<Rightarrow>
        if rc \<noteq> DIS_SUCCESS then (rc, ([], 0), chan1) else decode_attropl_loop True (unat numpat) [] chan1)"

definition decode_DIS_attrl :: "(attropl list \<times> nat) reader" where
  "decode_DIS_attrl chan =
     (case disrui chan of (numpat, rc, chan1) \<Rightarrow>
        if rc \<noteq> DIS_SUCCESS then (rc, ([], 0), chan1) else decode_attropl_loop False (unat numpat) [] chan1)"


section \<open>The wire form of an attribute\<close>

definition resc_text :: "char list option \<Rightarrow> char list" where
  "resc_text resc =
     (case resc of None \<Rightarrow> dis_num (CHR ''+'') 0 | Some r \<Rightarrow> dis_num (CHR ''+'') 1 @ dis_str r)"

definition attr_text :: "nat \<Rightarrow> char list \<Rightarrow> char list option \<Rightarrow> char list \<Rightarrow> c_uint \<Rightarrow> char list" where
  "attr_text len name resc value op =
     dis_num (CHR ''+'') len @ dis_str name @ resc_text resc @ dis_str value @ dis_num (CHR ''+'') (unat op)"

text \<open>An attribute that fits: no NUL in the strings, and a data length that covers them without wrapping.\<close>

definition nul_free :: "char list \<Rightarrow> bool" where
  "nul_free s \<longleftrightarrow> NUL \<notin> set s"

definition attr_fits :: "nat \<Rightarrow> char list \<Rightarrow> char list option \<Rightarrow> char list \<Rightarrow> bool" where
  "attr_fits len name resc value \<longleftrightarrow>
     nul_free name \<and> nul_free value \<and> (\<forall>r. resc = Some r \<longrightarrow> nul_free r) \<and>
     len < 2 ^ 32 \<and> length name + 1 + strlen_opt resc + length value \<le> len"

lemma writes_enc_resc:
  assumes "\<forall>r. resc = Some r \<longrightarrow> length r < 2 ^ 32"
  shows "writes (wseq (enc_resc resc)) (resc_text resc)"
proof (cases resc)
  case None
  have "writes (wseq [\<lambda>c. diswui c 0]) (dis_num (CHR ''+'') 0)"
    using writes_one [OF writes_diswui [of 0]] by simp
  then show ?thesis by (simp only: None enc_resc_def resc_text_def option.case)
next
  case (Some r)
  have "writes (wseq [\<lambda>c. diswui c 1, \<lambda>c. diswst c r]) (dis_num (CHR ''+'') 1 @ dis_str r)"
    using writes_cons [OF writes_diswui [of 1] writes_one [OF writes_diswst]] assms Some by simp
  then show ?thesis by (simp only: Some enc_resc_def resc_text_def option.case)
qed

lemma writes_attr:
  assumes "attr_fits (unat len) name resc value"
  shows "writes (wseq ([\<lambda>c. diswui c len, \<lambda>c. diswst c name] @ enc_resc resc @ [\<lambda>c. diswst c value, \<lambda>c. diswui c op]))
    (attr_text (unat len) name resc value op)"
proof -
  have l: "length name < 2 ^ 32" "length value < 2 ^ 32" "\<forall>r. resc = Some r \<longrightarrow> length r < 2 ^ 32"
    using assms by (auto simp: attr_fits_def strlen_opt_def)
  have a: "writes (wseq [\<lambda>c. diswui c len, \<lambda>c. diswst c name]) (dis_num (CHR ''+'') (unat len) @ dis_str name)"
    by (intro writes_cons writes_one writes_diswui writes_diswst l)
  have b: "writes (wseq [\<lambda>c. diswst c value, \<lambda>c. diswui c op]) (dis_str value @ dis_num (CHR ''+'') (unat op))"
    by (intro writes_cons writes_one writes_diswui writes_diswst l)
  show ?thesis using writes_append [OF a writes_append [OF writes_enc_resc [OF l(3)] b]]
    by (simp only: attr_text_def append_assoc)
qed


subsection \<open>Decoding the wire form\<close>

lemma reads_ret: "reads (\<lambda>chan. (DIS_SUCCESS, v, chan)) [] v"
  using reads_fin [of v] by (simp add: fin_def [abs_def])

lemma reads_rbind:
  assumes "reads m bs v" and "reads (k v) bs' r"
  shows "reads (rbind m k) (bs @ bs') r"
  unfolding reads_def
proof (intro allI impI)
  fix c t
  assume c: "rchan_ok c" "uncommitted c = []" "pending c = (bs @ bs') @ t"
  have p: "pending c = bs @ (bs' @ t)" using c(3) by simp
  obtain c1 where c1: "m c = (DIS_SUCCESS, v, c1)" "got c c1 (bs' @ t)"
    by (rule readsD [OF assms(1) c(1,2) p])
  have g: "rchan_ok c1" "uncommitted c1 = []" "pending c1 = bs' @ t" using c1(2) by (simp_all add: got_def)
  obtain c2 where c2: "k v c1 = (DIS_SUCCESS, r, c2)" "got c1 c2 t" by (rule readsD [OF assms(2) g])
  have "got c c2 t" using c1(2) c2(2) by (rule got_trans)
  then show "\<exists>c'. rbind m k c = (DIS_SUCCESS, r, c') \<and> got c c' t"
    by (simp add: rbind_def c1(1) c2(1))
qed

lemma reads_rbind_last:
  assumes "reads m bs v" and "k v = (\<lambda>chan. (DIS_SUCCESS, r, chan))"
  shows "reads (rbind m k) bs r"
proof -
  have "reads (k v) [] r" using reads_ret [of r] by (simp add: assms(2))
  from reads_rbind [of m bs v k, OF assms(1) this] show ?thesis by simp
qed

lemma reads_rcalloc: "reads k bs v \<Longrightarrow> reads (rcalloc n k) bs v"
  by (simp add: reads_def rcalloc_def rchan_ok_def)

lemma reads_num: "n < 2 ^ 32 \<Longrightarrow> reads r_ui (dis_num (CHR ''+'') n) (of_nat n)"
  using reads_ui [of "of_nat n"] by (simp add: unat_of_nat)

definition svr_of :: "nat \<Rightarrow> char list \<Rightarrow> char list option \<Rightarrow> char list \<Rightarrow> c_uint \<Rightarrow> svrattrl" where
  "svr_of len name resc value op =
     \<lparr>al_name = name, al_resc = resc, al_value = value, al_op = op,
      al_tsize = sizeof_svrattrl + len + 2, al_nameln = length name + 1, al_rescln = strlen_opt resc,
      al_valln = length value + 1, al_flags = 0\<rparr>"

lemma reads_svr_value:
  assumes "length value \<le> unat data_len" and "length value < 2 ^ 32"
    and "ps' = ps\<lparr>al_value := value, al_valln := length value + 1, al_op := op\<rparr>"
  shows "reads (dec_svr_value data_len ps) (dis_str value @ dis_num (CHR ''+'') (unat op)) (Some ps')"
  unfolding dec_svr_value_def
  by (rule reads_rbind [OF reads_fcs [OF assms(1,2)]], simp only: prod.case)
    (rule reads_rbind_last [OF reads_ui], simp add: assms(3))

lemma unat_minus_len: "n \<le> unat (d :: c_uint) \<Longrightarrow> unat (d - of_nat n) = unat d - n"
proof -
  assume "n \<le> unat d"
  moreover have "unat d < 2 ^ 32" using unsigned_less [of d] by simp
  ultimately have "n < 2 ^ 32" "of_nat n \<le> d" by (auto simp: word_le_nat_alt unat_of_nat)
  then show ?thesis by (simp add: unat_sub unat_of_nat)
qed

lemma reads_svr1:
  assumes fits: "attr_fits len name resc value"
  shows "reads decode_svrattrl1 (attr_text len name resc value op) (Some (svr_of len name resc value op))"
proof -
  have len: "len < 2 ^ 32" "length name + 1 + strlen_opt resc + length value \<le> len"
    using fits by (simp_all add: attr_fits_def)
  let ?d = "of_nat len :: c_uint"
  have d: "unat ?d = len" using len by (simp add: unat_of_nat)
  have d0: "?d \<noteq> 0" using d len(2) by (metis add_is_0 le_zero_eq one_neq_zero unat_0)
  let ?d1 = "?d - of_nat (length name + 1)"
  have d1: "unat ?d1 = len - (length name + 1)" using unat_minus_len [of "length name + 1" ?d] d len(2) by simp
  let ?ps = "\<lparr>al_name = name, al_resc = None, al_value = [], al_op = 0, al_tsize = sizeof_svrattrl + len + 2,
    al_nameln = length name + 1, al_rescln = 0, al_valln = 0, al_flags = 0\<rparr>"
  let ?tail = "\<lambda>hasresc :: c_uint. if hasresc \<noteq> 0 then
      rbind (r_fcs (unat ?d1)) (\<lambda>(ls, resc).
        dec_svr_value (?d1 - of_nat (ls + 1)) (?ps\<lparr>al_resc := Some resc, al_rescln := ls + 1\<rparr>))
    else dec_svr_value ?d1 ?ps"
  have tail: "reads (rbind r_ui ?tail) (resc_text resc @ dis_str value @ dis_num (CHR ''+'') (unat op))
    (Some (svr_of len name resc value op))"
  proof (cases resc)
    case None
    have v: "reads (dec_svr_value ?d1 ?ps) (dis_str value @ dis_num (CHR ''+'') (unat op))
      (Some (svr_of len name resc value op))"
      by (rule reads_svr_value) (use None len d1 in \<open>auto simp: svr_of_def strlen_opt_def\<close>)
    show ?thesis unfolding resc_text_def None option.case
      by (rule reads_rbind [OF reads_num]) (use v None in simp_all)
  next
    case (Some r)
    then have lr: "length r \<le> unat ?d1" "length r < 2 ^ 32" "length r + 1 \<le> unat ?d1"
      using len d1 by (auto simp: strlen_opt_def)
    let ?d2 = "?d1 - of_nat (length r + 1)"
    have d2: "unat ?d2 = len - (length name + 1) - (length r + 1)"
      using unat_minus_len [OF lr(3)] d1 by simp
    have v: "reads (dec_svr_value ?d2 (?ps\<lparr>al_resc := Some r, al_rescln := length r + 1\<rparr>))
      (dis_str value @ dis_num (CHR ''+'') (unat op)) (Some (svr_of len name resc value op))"
      by (rule reads_svr_value) (use Some len d2 in \<open>auto simp: svr_of_def strlen_opt_def\<close>)
    have r: "reads (?tail 1) (dis_str r @ dis_str value @ dis_num (CHR ''+'') (unat op))
      (Some (svr_of len name resc value op))"
      by (subst if_P, simp, rule reads_rbind [OF reads_fcs [OF lr(1,2)]], simp only: prod.case, rule v)
    show ?thesis unfolding resc_text_def Some option.case append_assoc
      by (rule reads_rbind [OF reads_num]) (use r Some in simp_all)
  qed
  have n: "length name \<le> unat ?d" "length name < 2 ^ 32" using d len by simp_all
  show ?thesis unfolding decode_svrattrl1_def attr_text_def
    by (rule reads_rbind [OF reads_num [OF len(1)]])
      (simp only: Let_def d d0 if_False, rule reads_rcalloc, rule reads_rbind [OF reads_fcs [OF n(1)[unfolded d] n(2)]],
        simp only: prod.case, rule tail)
qed


lemma reads_step:
  assumes "reads m bs v" and "reads m' bs' v'" and "\<And>c c1. m c = (DIS_SUCCESS, v, c1) \<Longrightarrow> M c = m' c1"
  shows "reads M (bs @ bs') v'"
proof (rule reads_of_got)
  fix c t
  assume c: "rchan_ok c" "uncommitted c = []" "pending c = (bs @ bs') @ t"
  then have p: "pending c = bs @ (bs' @ t)" by simp
  obtain c1 where c1: "m c = (DIS_SUCCESS, v, c1)" "got c c1 (bs' @ t)"
    by (rule readsD [OF assms(1) c(1,2) p])
  have g: "rchan_ok c1" "uncommitted c1 = []" "pending c1 = bs' @ t" using c1(2) by (simp_all add: got_def)
  obtain c2 where c2: "m' c1 = (DIS_SUCCESS, v', c2)" "got c1 c2 t" by (rule readsD [OF assms(2) g])
  have "got c c2 t" using c1(2) c2(2) by (rule got_trans)
  then show "\<exists>c'. M c = (DIS_SUCCESS, v', c') \<and> got c c' t" by (simp add: assms(3) [OF c1(1)] c2(1))
qed

lemma reads_svr_loop:
  assumes "\<And>x. x \<in> set xs \<Longrightarrow> reads decode_svrattrl1 (t x) (Some (d x))"
  shows "reads (decode_svrattrl_loop (length xs) phead) (concat (map t xs)) (phead @ map d xs)"
  using assms
proof (induction xs arbitrary: phead)
  case Nil
  then show ?case using reads_ret [of phead] by (simp add: reads_def decode_svrattrl_loop.simps)
next
  case (Cons x xs)
  have x: "reads decode_svrattrl1 (t x) (Some (d x))" using Cons.prems by simp
  have xs: "reads (decode_svrattrl_loop (length xs) (phead @ [d x])) (concat (map t xs)) ((phead @ [d x]) @ map d xs)"
    by (rule Cons.IH) (simp add: Cons.prems)
  have "reads (decode_svrattrl_loop (length (x # xs)) phead) (t x @ concat (map t xs)) ((phead @ [d x]) @ map d xs)"
    by (rule reads_step [OF x xs]) (simp add: decode_svrattrl_loop.simps)
  then show ?case by simp
qed

lemma reads_svr:
  assumes "\<And>x. x \<in> set xs \<Longrightarrow> reads decode_svrattrl1 (t x) (Some (d x))" and "length xs < 2 ^ 32"
  shows "reads (decode_DIS_svrattrl phead) (dis_num (CHR ''+'') (length xs) @ concat (map t xs)) (phead @ map d xs)"
proof (rule reads_step [OF reads_num [OF assms(2)] reads_svr_loop [OF assms(1)]])
  fix c c1
  assume "r_ui c = (DIS_SUCCESS, of_nat (length xs), c1)"
  then have "disrui c = (of_nat (length xs), DIS_SUCCESS, c1)" by (simp add: rc_first_def split: prod.splits)
  then show "decode_DIS_svrattrl phead c = decode_svrattrl_loop (length xs) phead c1"
    using assms(2) by (simp add: decode_DIS_svrattrl_def unat_of_nat)
qed

lemma reads_attropl1:
  assumes fits: "attr_fits len name resc value"
  shows "reads (decode_attropl1 keep) (dis_str name @ resc_text resc @ dis_str value @ dis_num (CHR ''+'') (unat op))
    (Some \<lparr>ao_name = Some name, ao_resource = resc, ao_value = Some value, ao_op = (if keep then op else 0)\<rparr>)"
    (is "reads _ _ (Some ?a)")
proof -
  have tx: "any_text name" "any_text value" "\<And>r. resc = Some r \<Longrightarrow> any_text r"
    using fits by (auto simp: attr_fits_def any_text_def nul_free_def strlen_opt_def)
  let ?rest = "\<lambda>resc. rbind r_st (\<lambda>value. rbind r_ui (\<lambda>op chan.
    (DIS_SUCCESS, Some \<lparr>ao_name = Some name, ao_resource = resc, ao_value = value,
      ao_op = (if keep then op else 0)\<rparr>, chan)))"
  have rest: "reads (?rest resc) (dis_str value @ dis_num (CHR ''+'') (unat op)) (Some ?a)"
    by (rule reads_rbind [OF reads_st [OF tx(2)]], rule reads_rbind_last [OF reads_ui]) simp
  have tail: "reads (rbind r_ui (\<lambda>hasresc. if hasresc \<noteq> 0 then rbind r_st ?rest else ?rest None))
    (resc_text resc @ dis_str value @ dis_num (CHR ''+'') (unat op)) (Some ?a)"
  proof (cases resc)
    case None
    show ?thesis unfolding resc_text_def None option.case
      by (rule reads_rbind [OF reads_num]) (use rest None in simp_all)
  next
    case (Some r)
    have "reads (rbind r_st ?rest) (dis_str r @ dis_str value @ dis_num (CHR ''+'') (unat op)) (Some ?a)"
      by (rule reads_rbind [OF reads_st [OF tx(3) [OF Some]]]) (use rest Some in simp)
    then show ?thesis unfolding resc_text_def Some option.case append_assoc
      by (intro reads_rbind [OF reads_num]) (use Some in simp_all)
  qed
  show ?thesis unfolding decode_attropl1_def Let_def
    by (rule reads_rbind [OF reads_st [OF tx(1)]], rule tail)
qed


lemma reads_attropl_loop:
  assumes "\<And>x. x \<in> set xs \<Longrightarrow> l x < 2 ^ 32 \<and> reads (decode_attropl1 keep) (t x) (Some (d x))"
  shows "reads (decode_attropl_loop keep (length xs) pats) (concat (map (\<lambda>x. dis_num (CHR ''+'') (l x) @ t x) xs))
    (pats @ map d xs, 0)"
  using assms
proof (induction xs arbitrary: pats)
  case Nil
  then show ?case using reads_ret [of "(pats, 0)"] by (simp add: reads_def decode_attropl_loop.simps)
next
  case (Cons x xs)
  have x: "l x < 2 ^ 32" "reads (rcalloc sizeof_attropl (decode_attropl1 keep)) (t x) (Some (d x))"
    using Cons.prems [of x] by (simp_all add: reads_rcalloc)
  have xs: "reads (decode_attropl_loop keep (length xs) (pats @ [d x]))
      (concat (map (\<lambda>x. dis_num (CHR ''+'') (l x) @ t x) xs)) ((pats @ [d x]) @ map d xs, 0)"
    by (rule Cons.IH, rule Cons.prems) simp
  let ?tail = "\<lambda>c. case rcalloc sizeof_attropl (decode_attropl1 keep) c of (rc, a, c2) \<Rightarrow>
    if rc \<noteq> DIS_SUCCESS then (rc, (pats, 0), c2)
    else (case a of Some pat \<Rightarrow> decode_attropl_loop keep (length xs) (pats @ [pat]) c2 | None \<Rightarrow> (rc, (pats, 0), c2))"
  have tl: "reads ?tail (t x @ concat (map (\<lambda>x. dis_num (CHR ''+'') (l x) @ t x) xs)) ((pats @ [d x]) @ map d xs, 0)"
    by (rule reads_step [OF x(2) xs]) simp
  have "reads (decode_attropl_loop keep (length (x # xs)) pats)
     (dis_num (CHR ''+'') (l x) @ t x @ concat (map (\<lambda>x. dis_num (CHR ''+'') (l x) @ t x) xs)) ((pats @ [d x]) @ map d xs, 0)"
    by (rule reads_step [OF reads_num [OF x(1)] tl])
      (auto simp: decode_attropl_loop.simps rc_first_def split: prod.splits)
  then show ?case by simp
qed

lemma reads_attropl:
  assumes "\<And>x. x \<in> set xs \<Longrightarrow> l x < 2 ^ 32 \<and> reads (decode_attropl1 keep) (t x) (Some (d x))" and "length xs < 2 ^ 32"
    and D: "\<And>c. D c = (case disrui c of (numpat, rc, c1) \<Rightarrow>
      if rc \<noteq> DIS_SUCCESS then (rc, ([], 0), c1) else decode_attropl_loop keep (unat numpat) [] c1)"
  shows "reads D (dis_num (CHR ''+'') (length xs) @ concat (map (\<lambda>x. dis_num (CHR ''+'') (l x) @ t x) xs)) (map d xs, 0)"
proof -
  have "reads D (dis_num (CHR ''+'') (length xs) @ concat (map (\<lambda>x. dis_num (CHR ''+'') (l x) @ t x) xs)) ([] @ map d xs, 0)"
  proof (rule reads_step [OF reads_num [OF assms(2)] reads_attropl_loop [OF assms(1)]])
    fix c c1
    assume "r_ui c = (DIS_SUCCESS, of_nat (length xs), c1)"
    then have "disrui c = (of_nat (length xs), DIS_SUCCESS, c1)" by (simp add: rc_first_def split: prod.splits)
    then show "D c = decode_attropl_loop keep (length xs) [] c1" using assms(2) by (simp add: D unat_of_nat)
  qed
  then show ?thesis by simp
qed


section \<open>The codecs\<close>

lemma codec_intro:
  assumes "\<And>v. valid v \<Longrightarrow> writes (\<lambda>c. wr c v) (enc v)" and "\<And>v. valid v \<Longrightarrow> reads rd (enc v) (f v)"
  shows "dis_codec wr rd enc valid (\<lambda>v c. (DIS_SUCCESS, f v, c))"
proof
  fix c v
  assume "wchan_ok c" "valid v"
  then show "wrote (wr c v) c (enc v)" using assms(1) by (simp add: writes_def)
next
  fix c v t
  assume "rchan_ok c" "uncommitted c = []" "pending c = enc v @ t" "valid v"
  then show "\<exists>c'. rd c = (DIS_SUCCESS, f v, c') \<and> got c c' t" using assms(2) by (simp add: reads_def)
qed

text \<open>The wire form of each of the three structures, and which lists can be sent.\<close>

definition svr_ok :: "svrattrl \<Rightarrow> bool" where
  "svr_ok a \<longleftrightarrow> attr_fits (length (al_name a) + length (al_value a) + 2 + strlen_opt (al_resc a))
     (al_name a) (al_resc a) (al_value a)"

definition svr_len :: "svrattrl \<Rightarrow> nat" where
  "svr_len a = length (al_name a) + length (al_value a) + 2 + strlen_opt (al_resc a)"

definition aop_name :: "attropl \<Rightarrow> char list" where
  "aop_name a = (case ao_name a of Some n \<Rightarrow> n | None \<Rightarrow> [])"

definition aop_value :: "attropl \<Rightarrow> char list" where
  "aop_value a = (case ao_value a of Some v \<Rightarrow> v | None \<Rightarrow> [])"

definition aop_len :: "attropl \<Rightarrow> nat" where
  "aop_len a = length (aop_name a) + 1 + strlen_opt (ao_value a) + strlen_opt (ao_resource a)"

definition aop_ok :: "attropl \<Rightarrow> bool" where
  "aop_ok a \<longleftrightarrow> ao_name a \<noteq> None \<and> attr_fits (aop_len a) (aop_name a) (ao_resource a) (aop_value a)"

definition svr_text :: "svrattrl \<Rightarrow> char list" where
  "svr_text a = attr_text (svr_len a) (al_name a) (al_resc a) (al_value a) (al_op a)"

definition aop_text :: "attropl \<Rightarrow> char list" where
  "aop_text a = attr_text (aop_len a) (aop_name a) (ao_resource a) (aop_value a) (ao_op a)"

definition svr_of_aop :: "attropl \<Rightarrow> svrattrl" where
  "svr_of_aop a = svr_of (aop_len a) (aop_name a) (ao_resource a) (aop_value a) (ao_op a)"

definition list_text :: "('a \<Rightarrow> char list) \<Rightarrow> 'a list \<Rightarrow> char list" where
  "list_text t xs = dis_num (CHR ''+'') (length xs) @ concat (map t xs)"

definition list_ok :: "('a \<Rightarrow> bool) \<Rightarrow> 'a list \<Rightarrow> bool" where
  "list_ok ok xs \<longleftrightarrow> length xs < 2 ^ 32 \<and> list_all ok xs"

lemma writes_list:
  assumes "list_ok ok xs" and "\<And>x. ok x \<Longrightarrow> writes (f x) (t x)"
  shows "writes (wseq ((\<lambda>c. diswui c (of_nat (length xs))) # map f xs)) (list_text t xs)"
proof -
  have "unat (of_nat (length xs) :: c_uint) = length xs" using assms(1) by (simp add: list_ok_def unat_of_nat)
  then have "writes (\<lambda>c. diswui c (of_nat (length xs))) (dis_num (CHR ''+'') (length xs))"
    using writes_diswui [of "of_nat (length xs)"] by simp
  moreover have "writes (f x) (t x)" if "x \<in> set xs" for x
    using assms that by (auto simp: list_ok_def list_all_iff)
  ultimately show ?thesis unfolding list_text_def by (rule writes_map)
qed

lemma writes_svr1:
  assumes "svr_ok a"
  shows "writes (encode_svrattrl1 a) (svr_text a)"
proof -
  have f: "attr_fits (svr_len a) (al_name a) (al_resc a) (al_value a)" using assms by (simp add: svr_ok_def svr_len_def)
  then have u: "unat (of_nat (svr_len a) :: c_uint) = svr_len a" by (simp add: attr_fits_def unat_of_nat)
  have c: "cstring (al_name a) = al_name a" "cstring (al_value a) = al_value a"
    "map_option cstring (al_resc a) = al_resc a"
    using f by (cases "al_resc a"; simp add: attr_fits_def nul_free_def)+
  show ?thesis using writes_attr [of "of_nat (svr_len a)" _ _ _ "al_op a", unfolded u, OF f]
    by (simp only: encode_svrattrl1_def Let_def c svr_text_def svr_len_def)
qed

lemma writes_aop1:
  assumes "aop_ok a"
  shows "writes (encode_attropl1 a) (aop_text a)"
proof -
  have f: "attr_fits (aop_len a) (aop_name a) (ao_resource a) (aop_value a)" using assms by (simp add: aop_ok_def)
  then have u: "unat (of_nat (aop_len a) :: c_uint) = aop_len a" by (simp add: attr_fits_def unat_of_nat)
  obtain n where n: "ao_name a = Some n" using assms by (auto simp: aop_ok_def)
  show ?thesis using writes_attr [of "of_nat (aop_len a)" _ _ _ "ao_op a", unfolded u, OF f]
    by (simp only: encode_attropl1_def Let_def aop_text_def aop_len_def n aop_name_def option.case aop_value_def)
qed

lemma writes_attrl1:
  assumes "aop_ok a"
  shows "writes (encode_attrl1 a) (aop_text (a\<lparr>ao_op := OP_SET\<rparr>))"
proof -
  have f: "attr_fits (aop_len a) (aop_name a) (ao_resource a) (aop_value a)" using assms by (simp add: aop_ok_def)
  then have u: "unat (of_nat (aop_len a) :: c_uint) = aop_len a" by (simp add: attr_fits_def unat_of_nat)
  obtain n where n: "ao_name a = Some n" using assms by (auto simp: aop_ok_def)
  have l: "strlen_opt (ao_name a) + strlen_opt (ao_value a) + strlen_opt (ao_resource a) = aop_len a"
    by (simp add: n strlen_opt_def aop_len_def aop_name_def)
  show ?thesis using writes_attr [of "of_nat (aop_len a)" _ _ _ OP_SET, unfolded u, OF f]
    by (simp add: encode_attrl1_def l aop_text_def aop_len_def aop_name_def aop_value_def)
qed


lemma writes_svrattrl: "list_ok svr_ok v \<Longrightarrow> writes (\<lambda>c. encode_DIS_svrattrl c v) (list_text svr_text v)"
  unfolding encode_DIS_svrattrl_def by (rule writes_list [OF _ writes_svr1])

lemma writes_attropl: "list_ok aop_ok v \<Longrightarrow> writes (\<lambda>c. encode_DIS_attropl c v) (list_text aop_text v)"
  unfolding encode_DIS_attropl_def by (rule writes_list [OF _ writes_aop1])

lemma writes_attrl:
  "list_ok aop_ok v \<Longrightarrow> writes (\<lambda>c. encode_DIS_attrl c v) (list_text (\<lambda>a. aop_text (a\<lparr>ao_op := OP_SET\<rparr>)) v)"
  unfolding encode_DIS_attrl_def by (rule writes_list [OF _ writes_attrl1])

definition svr_copy :: "svrattrl \<Rightarrow> svrattrl" where
  "svr_copy a = svr_of (svr_len a) (al_name a) (al_resc a) (al_value a) (al_op a)"

lemma reads_svr_text: "svr_ok a \<Longrightarrow> reads decode_svrattrl1 (svr_text a) (Some (svr_copy a))"
  unfolding svr_text_def svr_copy_def by (rule reads_svr1) (simp add: svr_ok_def svr_len_def)

lemma reads_aop_text: "aop_ok a \<Longrightarrow> reads decode_svrattrl1 (aop_text a) (Some (svr_of_aop a))"
  unfolding aop_text_def svr_of_aop_def by (rule reads_svr1) (simp add: aop_ok_def)

lemma aop_ok_op [simp]: "aop_ok (a\<lparr>ao_op := x\<rparr>) = aop_ok a"
  by (simp add: aop_ok_def aop_len_def aop_name_def aop_value_def)

lemma reads_svrattrl: "list_ok svr_ok v \<Longrightarrow> reads (decode_DIS_svrattrl h) (list_text svr_text v) (h @ map svr_copy v)"
  unfolding list_text_def by (rule reads_svr) (auto simp: list_ok_def list_all_iff reads_svr_text)

lemma reads_svrattrl_aop:
  "list_ok aop_ok v \<Longrightarrow> reads (decode_DIS_svrattrl h) (list_text aop_text v) (h @ map svr_of_aop v)"
  unfolding list_text_def by (rule reads_svr) (auto simp: list_ok_def list_all_iff reads_aop_text)

lemma reads_svrattrl_attrl:
  "list_ok aop_ok v \<Longrightarrow> reads (decode_DIS_svrattrl h) (list_text (\<lambda>a. aop_text (a\<lparr>ao_op := OP_SET\<rparr>)) v)
     (h @ map (\<lambda>a. svr_of_aop (a\<lparr>ao_op := OP_SET\<rparr>)) v)"
  unfolding list_text_def by (rule reads_svr) (auto simp: list_ok_def list_all_iff reads_aop_text)

text \<open>What a client gets of an \<open>attropl\<close> (a null value comes back as the empty string) and of a \<open>svrattrl\<close> as an \<open>attrl\<close>.\<close>

definition aop_copy :: "attropl \<Rightarrow> attropl" where
  "aop_copy a = \<lparr>ao_name = Some (aop_name a), ao_resource = ao_resource a, ao_value = Some (aop_value a), ao_op = ao_op a\<rparr>"

definition attrl_of_svr :: "svrattrl \<Rightarrow> attropl" where
  "attrl_of_svr a = \<lparr>ao_name = Some (al_name a), ao_resource = al_resc a, ao_value = Some (al_value a), ao_op = 0\<rparr>"

lemma reads_attropl_aop:
  assumes "list_ok aop_ok v"
  shows "reads decode_DIS_attropl (list_text aop_text v) (map aop_copy v, 0)"
proof -
  let ?t = "\<lambda>a. dis_str (aop_name a) @ resc_text (ao_resource a) @ dis_str (aop_value a) @ dis_num (CHR ''+'') (unat (ao_op a))"
  have one: "aop_len a < 2 ^ 32 \<and> reads (decode_attropl1 True) (?t a) (Some (aop_copy a))" if "a \<in> set v" for a
  proof -
    have f: "attr_fits (aop_len a) (aop_name a) (ao_resource a) (aop_value a)"
      using assms that by (auto simp: list_ok_def list_all_iff aop_ok_def)
    then show ?thesis using reads_attropl1 [OF f, of True "ao_op a"] by (simp add: attr_fits_def aop_copy_def)
  qed
  show ?thesis using reads_attropl [where t = ?t and d = aop_copy and l = aop_len, OF one _ decode_DIS_attropl_def] assms
    by (simp add: list_ok_def list_text_def aop_text_def [abs_def] attr_text_def)
qed

lemma reads_attrl_svr:
  assumes "list_ok svr_ok v"
  shows "reads decode_DIS_attrl (list_text svr_text v) (map attrl_of_svr v, 0)"
proof -
  let ?t = "\<lambda>a. dis_str (al_name a) @ resc_text (al_resc a) @ dis_str (al_value a) @ dis_num (CHR ''+'') (unat (al_op a))"
  have one: "svr_len a < 2 ^ 32 \<and> reads (decode_attropl1 False) (?t a) (Some (attrl_of_svr a))" if "a \<in> set v" for a
  proof -
    have f: "attr_fits (svr_len a) (al_name a) (al_resc a) (al_value a)"
      using assms that by (auto simp: list_ok_def list_all_iff svr_ok_def svr_len_def)
    then show ?thesis using reads_attropl1 [OF f, of False "al_op a"] by (simp add: attr_fits_def attrl_of_svr_def)
  qed
  show ?thesis using reads_attropl [where t = ?t and d = attrl_of_svr and l = svr_len, OF one _ decode_DIS_attrl_def] assms
    by (simp add: list_ok_def list_text_def svr_text_def [abs_def] attr_text_def)
qed

interpretation svrl: dis_codec encode_DIS_svrattrl "decode_DIS_svrattrl []" "list_text svr_text" "list_ok svr_ok"
  "\<lambda>v c. (DIS_SUCCESS, [] @ map svr_copy v, c)"
  by (rule codec_intro) (rule writes_svrattrl reads_svrattrl, assumption)+

interpretation aopl: dis_codec encode_DIS_attropl "decode_DIS_svrattrl []" "list_text aop_text" "list_ok aop_ok"
  "\<lambda>v c. (DIS_SUCCESS, [] @ map svr_of_aop v, c)"
  by (rule codec_intro) (rule writes_attropl reads_svrattrl_aop, assumption)+

interpretation aopl_client: dis_codec encode_DIS_attropl decode_DIS_attropl "list_text aop_text" "list_ok aop_ok"
  "\<lambda>v c. (DIS_SUCCESS, (map aop_copy v, 0), c)"
  by (rule codec_intro) (rule writes_attropl reads_attropl_aop, assumption)+

interpretation atl: dis_codec encode_DIS_attrl "decode_DIS_svrattrl []"
  "list_text (\<lambda>a. aop_text (a\<lparr>ao_op := OP_SET\<rparr>))" "list_ok aop_ok"
  "\<lambda>v c. (DIS_SUCCESS, [] @ map (\<lambda>a. svr_of_aop (a\<lparr>ao_op := OP_SET\<rparr>)) v, c)"
  by (rule codec_intro) (rule writes_attrl reads_svrattrl_attrl, assumption)+

interpretation svr_client: dis_codec encode_DIS_svrattrl decode_DIS_attrl "list_text svr_text" "list_ok svr_ok"
  "\<lambda>v c. (DIS_SUCCESS, (map attrl_of_svr v, 0), c)"
  by (rule codec_intro) (rule writes_svrattrl reads_attrl_svr, assumption)+

end
