(* ===== verification/Batch_Msg.thy ===== *)
theory Batch_Msg
  imports Batch_Attr
begin

text \<open>
  The batch requests on the wire: one record per member of the union \<open>rq_ind\<close> of
  \<open>include/batch_request.h\<close>, and the pair \<open>encode_DIS_X\<close> / \<open>decode_DIS_X\<close> of
  \<open>lib/Libifl/enc_X.c\<close>, \<open>dec_X.c\<close> for each.  A decoder takes the request member as it is and returns
  it with the fields read; \<open>junk\<close> is the content of a local that the source leaves unset.  Each pair
  is an instance of the codec interface, so every request survives the connection.
\<close>

section \<open>Sizes\<close>

definition PBS_BATCH_PROT_TYPE :: c_uint where "PBS_BATCH_PROT_TYPE = 2"
definition PBS_BATCH_PROT_VER :: c_uint where "PBS_BATCH_PROT_VER = 2"

section \<open>The members of the request union\<close>

record rq_queuejob =
  rq_destin :: "char list"
  rq_jid :: "char list"
  rq_attr :: "svrattrl list"

record rq_jobcred =
  rq_type :: c_uint
  rq_size :: c_long
  rq_data :: "char list option"

record rq_jobfile =
  rq_sequence :: c_uint
  rq_type :: c_uint
  rq_size :: c_long
  rq_jobid :: "char list"
  rq_data :: "char list option"

record rq_manage =
  rq_cmd :: c_uint
  rq_objtype :: c_uint
  rq_objname :: "char list"
  rq_attr :: "svrattrl list"

record rq_message =
  rq_file :: c_uint
  rq_jid :: "char list"
  rq_text :: "char list option"

record rq_move =
  rq_jid :: "char list"
  rq_destin :: "char list"

record rq_rescq =
  rq_rhandle :: c_int
  rq_num :: c_int
  rq_list :: "char list option list"

record rq_runjob =
  rq_jid :: "char list"
  rq_destin :: "char list option"
  rq_resch :: c_uint

record rq_signal =
  rq_jid :: "char list"
  rq_signame :: "char list"

record rq_status =
  rq_id :: "char list"
  rq_attr :: "svrattrl list"

record rq_track =
  rq_hopcount :: c_uint
  rq_jid :: "char list"
  rq_location :: "char list"
  rq_state :: "8 word"

record rq_gpuctrl =
  rq_momnode :: "char list"
  rq_gpuid :: "char list"
  rq_gpumode :: c_uint
  rq_reset_perm :: c_uint
  rq_reset_vol :: c_uint

record rq_register =
  rq_owner :: "char list"
  rq_svr :: "char list"
  rq_parent :: "char list"
  rq_child :: "char list"
  rq_dependtype :: c_uint
  rq_op :: c_uint
  rq_cost :: c_long

record rq_authen =
  rq_port :: c_uint
  rq_cred :: "char list"

record rqfpair =
  fp_flag :: c_uint
  fp_local :: "char list option"
  fp_rmt :: "char list option"

record rq_cpyfile =
  rq_jobid :: "char list"
  rq_owner :: "char list"
  rq_user :: "char list"
  rq_group :: "char list"
  rq_dir :: c_uint
  rq_pair :: "rqfpair list"

record rq_returnfiles =
  rq_jobid :: "char list"
  rq_return_stdout :: c_int
  rq_return_stderr :: c_int

record rq_jobobit =
  rq_jid :: "char list"
  rq_status :: c_int
  rq_attr :: "svrattrl list"

section \<open>Encoders\<close>

definition encode_DIS_ReqHdr :: "tcp_chan \<Rightarrow> c_uint \<Rightarrow> char list \<Rightarrow> dis_rc \<times> tcp_chan" where
  "encode_DIS_ReqHdr chan reqt user =
     wseq [\<lambda>c. diswui c PBS_BATCH_PROT_TYPE, \<lambda>c. diswui c PBS_BATCH_PROT_VER, \<lambda>c. diswui c reqt,
           \<lambda>c. diswst c user] chan"

definition encode_DIS_JobId :: "tcp_chan \<Rightarrow> char list \<Rightarrow> dis_rc \<times> tcp_chan" where
  "encode_DIS_JobId chan jobid = diswst chan jobid"

definition encode_DIS_QueueJob ::
  "tcp_chan \<Rightarrow> char list option \<Rightarrow> char list option \<Rightarrow> attropl list \<Rightarrow> dis_rc \<times> tcp_chan" where
  "encode_DIS_QueueJob chan jobid0 destin0 aoplp =
     (let jobid = (case jobid0 of None \<Rightarrow> [] | Some j \<Rightarrow> j);
          destin = (case destin0 of None \<Rightarrow> [] | Some d \<Rightarrow> d)
      in wseq [nz (\<lambda>c. diswst c jobid), nz (\<lambda>c. diswst c destin), \<lambda>c. encode_DIS_attropl c aoplp] chan)"

definition encode_DIS_Manage ::
  "tcp_chan \<Rightarrow> c_uint \<Rightarrow> c_uint \<Rightarrow> char list \<Rightarrow> attropl list \<Rightarrow> dis_rc \<times> tcp_chan" where
  "encode_DIS_Manage chan command objtype objname aoplp =
     wseq [nz (\<lambda>c. diswui c command), nz (\<lambda>c. diswui c objtype), nz (\<lambda>c. diswst c objname),
           \<lambda>c. encode_DIS_attropl c aoplp] chan"

definition encode_DIS_Register :: "tcp_chan \<Rightarrow> rq_register \<Rightarrow> dis_rc \<times> tcp_chan" where
  "encode_DIS_Register chan r =
     wseq [nz (\<lambda>c. diswst c (rq_register.rq_owner r)), nz (\<lambda>c. diswst c (rq_parent r)), nz (\<lambda>c. diswst c (rq_child r)),
           nz (\<lambda>c. diswui c (rq_dependtype r)), nz (\<lambda>c. diswui c (rq_op r)), nz (\<lambda>c. diswsl c (rq_cost r))] chan"

definition encode_DIS_TrackJob :: "tcp_chan \<Rightarrow> rq_track \<Rightarrow> dis_rc \<times> tcp_chan" where
  "encode_DIS_TrackJob chan r =
     wseq [nz (\<lambda>c. diswst c (rq_track.rq_jid r)), nz (\<lambda>c. diswui c (rq_hopcount r)),
           nz (\<lambda>c. diswst c (rq_location r)), nz (\<lambda>c. diswui c (scast (rq_state r)))] chan"

definition encode_DIS_SignalJob :: "tcp_chan \<Rightarrow> char list \<Rightarrow> char list \<Rightarrow> dis_rc \<times> tcp_chan" where
  "encode_DIS_SignalJob chan jobid signal = wseq [nz (\<lambda>c. diswst c jobid), nz (\<lambda>c. diswst c signal)] chan"

definition encode_DIS_Status :: "tcp_chan \<Rightarrow> char list \<Rightarrow> attropl list \<Rightarrow> dis_rc \<times> tcp_chan" where
  "encode_DIS_Status chan objid pattrl =
     wseq [nz (\<lambda>c. diswst c objid), nz (\<lambda>c. encode_DIS_attrl c pattrl)] chan"

definition encode_DIS_MoveJob :: "tcp_chan \<Rightarrow> char list \<Rightarrow> char list \<Rightarrow> dis_rc \<times> tcp_chan" where
  "encode_DIS_MoveJob chan jobid destin = wseq [nz (\<lambda>c. diswst c jobid), nz (\<lambda>c. diswst c destin)] chan"

definition encode_DIS_MessageJob :: "tcp_chan \<Rightarrow> char list \<Rightarrow> c_uint \<Rightarrow> char list \<Rightarrow> dis_rc \<times> tcp_chan" where
  "encode_DIS_MessageJob chan jobid fileopt msg =
     wseq [nz (\<lambda>c. diswst c jobid), nz (\<lambda>c. diswui c fileopt), nz (\<lambda>c. diswst c msg)] chan"

definition encode_DIS_RunJob :: "tcp_chan \<Rightarrow> char list \<Rightarrow> char list \<Rightarrow> c_uint \<Rightarrow> dis_rc \<times> tcp_chan" where
  "encode_DIS_RunJob chan jobid dest resch =
     wseq [nz (\<lambda>c. diswst c jobid), nz (\<lambda>c. diswst c dest), nz (\<lambda>c. diswui c resch)] chan"

definition encode_DIS_ShutDown :: "tcp_chan \<Rightarrow> c_uint \<Rightarrow> dis_rc \<times> tcp_chan" where
  "encode_DIS_ShutDown chan manner = diswui chan manner"

definition encode_DIS_ReqExtend :: "tcp_chan \<Rightarrow> char list option \<Rightarrow> dis_rc \<times> tcp_chan" where
  "encode_DIS_ReqExtend chan ext =
     (case ext of
        None \<Rightarrow> diswui chan 0
      | Some e \<Rightarrow> if e = [] then diswui chan 0 else wseq [\<lambda>c. diswui c 1, \<lambda>c. diswst c e] chan)"

text \<open>\<open>len\<close> is an \<open>int\<close>; its conversion to \<open>size_t\<close> is the identity on the lengths a caller passes.\<close>

definition encode_DIS_JobCred :: "tcp_chan \<Rightarrow> c_uint \<Rightarrow> char list option \<Rightarrow> nat \<Rightarrow> dis_rc \<times> tcp_chan" where
  "encode_DIS_JobCred chan type cred len = wseq [\<lambda>c. diswui c type, \<lambda>c. diswcs c cred len] chan"

definition encode_DIS_JobFile ::
  "tcp_chan \<Rightarrow> c_uint \<Rightarrow> char list option \<Rightarrow> nat \<Rightarrow> char list option \<Rightarrow> c_uint \<Rightarrow> dis_rc \<times> tcp_chan" where
  "encode_DIS_JobFile chan seq buf len jobid0 which =
     (let jobid = (case jobid0 of None \<Rightarrow> [] | Some j \<Rightarrow> j)
      in wseq [nz (\<lambda>c. diswui c seq), nz (\<lambda>c. diswui c which), nz (\<lambda>c. diswui c (of_nat len)),
               nz (\<lambda>c. diswst c jobid), nz (\<lambda>c. diswcs c buf len)] chan)"

definition encode_DIS_JobObit :: "tcp_chan \<Rightarrow> rq_jobobit \<Rightarrow> dis_rc \<times> tcp_chan" where
  "encode_DIS_JobObit chan r =
     wseq [nz (\<lambda>c. diswst c (rq_jobobit.rq_jid r)), nz (\<lambda>c. diswsi c (rq_jobobit.rq_status r)),
           nz (\<lambda>c. encode_DIS_svrattrl c (rq_jobobit.rq_attr r))] chan"

definition encode_DIS_GpuCtrl ::
  "tcp_chan \<Rightarrow> char list \<Rightarrow> char list \<Rightarrow> c_uint \<Rightarrow> c_uint \<Rightarrow> c_uint \<Rightarrow> dis_rc \<times> tcp_chan" where
  "encode_DIS_GpuCtrl chan node gpuid gpumode reset_perm reset_vol =
     wseq [nz (\<lambda>c. diswst c node), nz (\<lambda>c. diswst c gpuid), nz (\<lambda>c. diswui c gpumode),
           nz (\<lambda>c. diswui c reset_perm), nz (\<lambda>c. diswui c reset_vol), \<lambda>c. encode_DIS_ReqExtend c None] chan"

text \<open>A pair with no remote name is sent with the empty one; \<open>fp_local\<close> is never null here.\<close>

definition encode_rqfpair :: "rqfpair \<Rightarrow> writer" where
  "encode_rqfpair p =
     wseq [nz (\<lambda>c. diswui c (fp_flag p)),
           nz (\<lambda>c. diswst c (case fp_local p of Some s \<Rightarrow> s | None \<Rightarrow> [])),
           nz (\<lambda>c. diswst c (case fp_rmt p of Some s \<Rightarrow> s | None \<Rightarrow> []))]"

definition encode_DIS_CopyFiles :: "tcp_chan \<Rightarrow> rq_cpyfile \<Rightarrow> dis_rc \<times> tcp_chan" where
  "encode_DIS_CopyFiles chan r =
     wseq ([nz (\<lambda>c. diswst c (rq_cpyfile.rq_jobid r)), nz (\<lambda>c. diswst c (rq_cpyfile.rq_owner r)),
            nz (\<lambda>c. diswst c (rq_user r)), nz (\<lambda>c. diswst c (rq_group r)), nz (\<lambda>c. diswui c (rq_dir r)),
            nz (\<lambda>c. diswui c (of_nat (length (rq_pair r))))] @ map encode_rqfpair (rq_pair r)) chan"

definition encode_DIS_ReturnFiles :: "tcp_chan \<Rightarrow> rq_returnfiles \<Rightarrow> dis_rc \<times> tcp_chan" where
  "encode_DIS_ReturnFiles chan r =
     wseq [nz (\<lambda>c. diswst c (rq_returnfiles.rq_jobid r)), nz (\<lambda>c. diswsi c (rq_return_stdout r)),
           nz (\<lambda>c. diswsi c (rq_return_stderr r))] chan"

definition encode_DIS_PowerState :: "tcp_chan \<Rightarrow> 16 word \<Rightarrow> dis_rc \<times> tcp_chan" where
  "encode_DIS_PowerState chan power_state = diswui chan (ucast power_state)"


section \<open>Decoders\<close>

text \<open>The header: the protocol type has been read before, by the dispatcher of the port.\<close>

definition decode_DIS_ReqHdr ::
  "tcp_chan \<Rightarrow> c_uint \<Rightarrow> char list \<Rightarrow> dis_rc \<times> (c_uint \<times> c_uint \<times> c_uint \<times> char list) \<times> tcp_chan" where
  "decode_DIS_ReqHdr chan type0 user0 =
     (case disrui chan of (proto_ver, rc, chan1) \<Rightarrow>
        if rc \<noteq> DIS_SUCCESS then (rc, (PBS_BATCH_PROT_TYPE, proto_ver, type0, user0), chan1)
        else (case disrui chan1 of (reqt, rc, chan2) \<Rightarrow>
          if rc \<noteq> DIS_SUCCESS then (rc, (PBS_BATCH_PROT_TYPE, proto_ver, reqt, user0), chan2)
          else (case disrfst chan2 PBS_MAXUSER of (rc, user, chan3) \<Rightarrow>
            (rc, (PBS_BATCH_PROT_TYPE, proto_ver, reqt, user), chan3))))"

definition decode_DIS_JobId :: "tcp_chan \<Rightarrow> dis_rc \<times> char list \<times> tcp_chan" where
  "decode_DIS_JobId chan = disrfst chan PBS_MAXSVRJOBID"

text \<open>\<open>CLEAR_HEAD\<close> empties the attribute list first, whatever the request held.\<close>

definition decode_DIS_QueueJob :: "rq_queuejob \<Rightarrow> rq_queuejob reader" where
  "decode_DIS_QueueJob r =
     fld (r_fst PBS_MAXSVRJOBID) (\<lambda>v r. r\<lparr>rq_queuejob.rq_jid := v\<rparr>)
      (fld (r_fst PBS_MAXDEST) (\<lambda>v r. r\<lparr>rq_queuejob.rq_destin := v\<rparr>)
       (fld (decode_DIS_svrattrl []) (\<lambda>v r. r\<lparr>rq_queuejob.rq_attr := v\<rparr>) fin))
     (r\<lparr>rq_queuejob.rq_attr := []\<rparr>)"

definition decode_DIS_Manage :: "rq_manage \<Rightarrow> rq_manage reader" where
  "decode_DIS_Manage r =
     fld r_ui (\<lambda>v r. r\<lparr>rq_cmd := v\<rparr>)
      (fld r_ui (\<lambda>v r. r\<lparr>rq_objtype := v\<rparr>)
       (fld (r_fst PBS_MAXSVRJOBID) (\<lambda>v r. r\<lparr>rq_objname := v\<rparr>)
        (fld (decode_DIS_svrattrl []) (\<lambda>v r. r\<lparr>rq_manage.rq_attr := v\<rparr>) fin)))
     (r\<lparr>rq_manage.rq_attr := []\<rparr>)"

definition decode_DIS_Register :: "bool \<Rightarrow> rq_register \<Rightarrow> rq_register reader" where
  "decode_DIS_Register junk =
     fld (r_fst PBS_MAXUSER) (\<lambda>v r. r\<lparr>rq_register.rq_owner := v\<rparr>)
      (fld (r_fst PBS_MAXSVRJOBID) (\<lambda>v r. r\<lparr>rq_parent := v\<rparr>)
       (fld (r_fst PBS_MAXCLTJOBID) (\<lambda>v r. r\<lparr>rq_child := v\<rparr>)
        (fld r_ui (\<lambda>v r. r\<lparr>rq_dependtype := v\<rparr>)
         (fld r_ui (\<lambda>v r. r\<lparr>rq_op := v\<rparr>)
          (fld (r_sl junk) (\<lambda>v r. r\<lparr>rq_cost := v\<rparr>) fin)))))"

definition decode_DIS_TrackJob :: "rq_track \<Rightarrow> rq_track reader" where
  "decode_DIS_TrackJob =
     fld (r_fst PBS_MAXSVRJOBID) (\<lambda>v r. r\<lparr>rq_track.rq_jid := v\<rparr>)
      (fld r_ui (\<lambda>v r. r\<lparr>rq_hopcount := v\<rparr>)
       (fld (r_fst PBS_MAXDEST) (\<lambda>v r. r\<lparr>rq_location := v\<rparr>)
        (fld r_uc (\<lambda>v r. r\<lparr>rq_state := v\<rparr>) fin)))"

definition decode_DIS_SignalJob :: "rq_signal \<Rightarrow> rq_signal reader" where
  "decode_DIS_SignalJob =
     fld (r_fst PBS_MAXSVRJOBID) (\<lambda>v r. r\<lparr>rq_signal.rq_jid := v\<rparr>)
      (fld (r_fst PBS_SIGNAMESZ) (\<lambda>v r. r\<lparr>rq_signame := v\<rparr>) fin)"

definition decode_DIS_Status :: "rq_status \<Rightarrow> rq_status reader" where
  "decode_DIS_Status r =
     fld (r_fst (max PBS_MAXSVRJOBID PBS_MAXDEST)) (\<lambda>v r. r\<lparr>rq_id := v\<rparr>)
      (fld (decode_DIS_svrattrl []) (\<lambda>v r. r\<lparr>rq_status.rq_attr := v\<rparr>) fin)
     (r\<lparr>rq_status.rq_attr := []\<rparr>)"

definition decode_DIS_MoveJob :: "rq_move \<Rightarrow> rq_move reader" where
  "decode_DIS_MoveJob =
     fld (r_fst PBS_MAXSVRJOBID) (\<lambda>v r. r\<lparr>rq_move.rq_jid := v\<rparr>)
      (fld (r_fst (max PBS_MAXSVRJOBID PBS_MAXDEST)) (\<lambda>v r. r\<lparr>rq_move.rq_destin := v\<rparr>) fin)"

definition decode_DIS_MessageJob :: "rq_message \<Rightarrow> rq_message reader" where
  "decode_DIS_MessageJob r =
     fld (r_fst PBS_MAXSVRJOBID) (\<lambda>v r. r\<lparr>rq_message.rq_jid := v\<rparr>)
      (fld r_ui (\<lambda>v r. r\<lparr>rq_file := v\<rparr>)
       (fld r_st (\<lambda>v r. r\<lparr>rq_text := v\<rparr>) fin))
     (r\<lparr>rq_text := None\<rparr>)"

definition decode_DIS_RunJob :: "rq_runjob \<Rightarrow> rq_runjob reader" where
  "decode_DIS_RunJob r =
     fld (r_fst PBS_MAXSVRJOBID) (\<lambda>v r. r\<lparr>rq_runjob.rq_jid := v\<rparr>)
      (fld r_st (\<lambda>v r. r\<lparr>rq_runjob.rq_destin := v\<rparr>)
       (fld r_ui (\<lambda>v r. r\<lparr>rq_resch := v\<rparr>) fin))
     (r\<lparr>rq_runjob.rq_destin := None\<rparr>)"

definition decode_DIS_ShutDown :: "tcp_chan \<Rightarrow> dis_rc \<times> c_uint \<times> tcp_chan" where
  "decode_DIS_ShutDown chan = r_ui chan"

definition decode_DIS_PowerState :: "tcp_chan \<Rightarrow> dis_rc \<times> c_uint \<times> tcp_chan" where
  "decode_DIS_PowerState chan = r_ui chan"

definition decode_DIS_ReqExtend :: "char list option \<Rightarrow> char list option reader" where
  "decode_DIS_ReqExtend ext chan =
     (case disrui chan of (i, rc, chan1) \<Rightarrow>
        if rc = DIS_SUCCESS \<and> i \<noteq> 0 then r_st chan1 else (rc, ext, chan1))"

definition decode_DIS_JobCred :: "bool \<Rightarrow> rq_jobcred \<Rightarrow> rq_jobcred reader" where
  "decode_DIS_JobCred junk r =
     fld r_ui (\<lambda>v r. r\<lparr>rq_jobcred.rq_type := v\<rparr>)
      (fld (r_cs junk) (\<lambda>v r. r\<lparr>rq_jobcred.rq_data := fst v, rq_jobcred.rq_size := of_nat (snd v)\<rparr>) fin)
     (r\<lparr>rq_jobcred.rq_data := None\<rparr>)"

text \<open>The size announced in the request must be the size of the data that follows.\<close>

definition decode_jobfile_data :: "bool \<Rightarrow> rq_jobfile \<Rightarrow> rq_jobfile reader" where
  "decode_jobfile_data junk r chan =
     (case disrcs junk chan of (dat, amt, rc0, chan1) \<Rightarrow>
        (let rc = (if (of_nat amt :: c_long) \<noteq> rq_jobfile.rq_size r \<and> rc0 = DIS_SUCCESS then DIS_EOD else rc0)
         in (rc, r\<lparr>rq_jobfile.rq_data := (if rc \<noteq> DIS_SUCCESS then None else dat)\<rparr>, chan1)))"

definition decode_DIS_JobFile :: "bool \<Rightarrow> rq_jobfile \<Rightarrow> rq_jobfile reader" where
  "decode_DIS_JobFile junk r =
     fld r_ui (\<lambda>v r. r\<lparr>rq_sequence := v\<rparr>)
      (fld r_ui (\<lambda>v r. r\<lparr>rq_jobfile.rq_type := v\<rparr>)
       (fld r_ui (\<lambda>v r. r\<lparr>rq_jobfile.rq_size := ucast v\<rparr>)
        (fld (r_fst PBS_MAXSVRJOBID) (\<lambda>v r. r\<lparr>rq_jobfile.rq_jobid := v\<rparr>) (decode_jobfile_data junk))))
     (r\<lparr>rq_jobfile.rq_data := None\<rparr>)"

definition decode_DIS_JobObit :: "rq_jobobit \<Rightarrow> rq_jobobit reader" where
  "decode_DIS_JobObit r =
     fld (r_fst PBS_MAXSVRJOBID) (\<lambda>v r. r\<lparr>rq_jobobit.rq_jid := v\<rparr>)
      (fld r_si (\<lambda>v r. r\<lparr>rq_jobobit.rq_status := v\<rparr>)
       (fld (decode_DIS_svrattrl []) (\<lambda>v r. r\<lparr>rq_jobobit.rq_attr := v\<rparr>) fin))
     (r\<lparr>rq_jobobit.rq_attr := []\<rparr>)"

definition decode_DIS_GpuCtrl :: "rq_gpuctrl \<Rightarrow> rq_gpuctrl reader" where
  "decode_DIS_GpuCtrl =
     fld (r_fst PBS_MAXHOSTNAME) (\<lambda>v r. r\<lparr>rq_momnode := v\<rparr>)
      (fld (r_fst PBS_MAXGPUID) (\<lambda>v r. r\<lparr>rq_gpuid := v\<rparr>)
       (fld r_ui (\<lambda>v r. r\<lparr>rq_gpumode := v\<rparr>)
        (fld r_ui (\<lambda>v r. r\<lparr>rq_reset_perm := v\<rparr>)
         (fld r_ui (\<lambda>v r. r\<lparr>rq_reset_vol := v\<rparr>) fin))))"

text \<open>\<open>pair_ct\<close> is an \<open>int\<close> that is only compared with zero, so it counts the value read down through the whole range.\<close>

definition sizeof_rqfpair :: nat where "sizeof_rqfpair = 48"

definition decode_rqfpair :: "rqfpair option reader" where
  "decode_rqfpair =
     rcalloc sizeof_rqfpair
      (rbind r_ui (\<lambda>flag. rbind r_st (\<lambda>loc. rbind r_st (\<lambda>rmt chan.
         (DIS_SUCCESS, Some \<lparr>fp_flag = flag, fp_local = loc, fp_rmt = rmt\<rparr>, chan)))))"

fun decode_pairs :: "nat \<Rightarrow> rqfpair list \<Rightarrow> rqfpair list reader" where
  "decode_pairs 0 pairs chan = (DIS_SUCCESS, pairs, chan)"
| "decode_pairs (Suc n) pairs chan =
     (case decode_rqfpair chan of (rc, a, chan1) \<Rightarrow>
        if rc \<noteq> DIS_SUCCESS then (rc, pairs, chan1)
        else (case a of Some p \<Rightarrow> decode_pairs n (pairs @ [p]) chan1 | None \<Rightarrow> (rc, pairs, chan1)))"

declare decode_pairs.simps [simp del]

definition decode_pair_list :: "rqfpair list reader" where
  "decode_pair_list chan =
     (case disrui chan of (pair_ct, rc, chan1) \<Rightarrow>
        if rc \<noteq> DIS_SUCCESS then (rc, [], chan1) else decode_pairs (unat pair_ct) [] chan1)"

definition decode_DIS_CopyFiles :: "rq_cpyfile \<Rightarrow> rq_cpyfile reader" where
  "decode_DIS_CopyFiles r =
     fld (r_fst PBS_MAXSVRJOBID) (\<lambda>v r. r\<lparr>rq_cpyfile.rq_jobid := v\<rparr>)
      (fld (r_fst PBS_MAXUSER) (\<lambda>v r. r\<lparr>rq_cpyfile.rq_owner := v\<rparr>)
       (fld (r_fst PBS_MAXUSER) (\<lambda>v r. r\<lparr>rq_user := v\<rparr>)
        (fld (r_fst PBS_MAXGRPN) (\<lambda>v r. r\<lparr>rq_group := v\<rparr>)
         (fld r_ui (\<lambda>v r. r\<lparr>rq_dir := v\<rparr>)
          (fld decode_pair_list (\<lambda>v r. r\<lparr>rq_pair := v\<rparr>) fin)))))
     (r\<lparr>rq_pair := []\<rparr>)"

definition decode_DIS_ReturnFiles :: "rq_returnfiles \<Rightarrow> rq_returnfiles reader" where
  "decode_DIS_ReturnFiles =
     fld (r_fst PBS_MAXSVRJOBID) (\<lambda>v r. r\<lparr>rq_returnfiles.rq_jobid := v\<rparr>)
      (fld r_si (\<lambda>v r. r\<lparr>rq_return_stdout := v\<rparr>)
       (fld r_si (\<lambda>v r. r\<lparr>rq_return_stderr := v\<rparr>) fin))"

definition decode_DIS_Authen :: "rq_authen \<Rightarrow> rq_authen reader" where
  "decode_DIS_Authen = fld r_ui (\<lambda>v r. r\<lparr>rq_port := v\<rparr>) fin"

definition decode_DIS_AltAuthen :: "rq_authen \<Rightarrow> rq_authen reader" where
  "decode_DIS_AltAuthen =
     fld r_ui (\<lambda>v r. r\<lparr>rq_port := v\<rparr>)
      (fld (r_fst PBS_MAXCREDENTIAL_LEN) (\<lambda>v r. r\<lparr>rq_cred := v\<rparr>) fin)"


section \<open>Every pair is a codec\<close>

text \<open>
  The arguments of an encoder as one value, its text, the values whose strings fit the fields of the
  receiver, and the request the receiver holds afterwards.
\<close>

abbreviation num :: "c_uint \<Rightarrow> char list" where "num v \<equiv> dis_num (CHR ''+'') (unat v)"

definition opt_str :: "char list option \<Rightarrow> char list" where
  "opt_str s = (case s of None \<Rightarrow> [] | Some t \<Rightarrow> t)"

lemma reads_append_nil: "reads m bs ([] @ v) \<Longrightarrow> reads m bs v"
  by simp

lemmas writes_rules = writes_one writes_cons writes_nz writes_diswui writes_diswsi writes_diswsl writes_diswst
  writes_diswcs writes_attropl writes_attrl writes_svrattrl

lemmas reads_rules = reads_last reads_fld reads_ui reads_si reads_sl reads_uc reads_st reads_fst reads_cs
  reads_svrattrl reads_svrattrl_aop reads_svrattrl_attrl

fun queuejob_text :: "char list option \<times> char list option \<times> attropl list \<Rightarrow> char list" where
  "queuejob_text (j, d, a) = dis_str (opt_str j) @ dis_str (opt_str d) @ list_text aop_text a"

fun queuejob_ok :: "char list option \<times> char list option \<times> attropl list \<Rightarrow> bool" where
  "queuejob_ok (j, d, a) \<longleftrightarrow> text_upto PBS_MAXSVRJOBID (opt_str j) \<and> text_upto PBS_MAXDEST (opt_str d) \<and> list_ok aop_ok a"

fun queuejob_got :: "rq_queuejob \<Rightarrow> char list option \<times> char list option \<times> attropl list \<Rightarrow> rq_queuejob" where
  "queuejob_got r (j, d, a) = r\<lparr>rq_queuejob.rq_jid := opt_str j, rq_queuejob.rq_destin := opt_str d, rq_queuejob.rq_attr := map svr_of_aop a\<rparr>"

lemma queuejob_writes: "queuejob_ok v \<Longrightarrow> writes (\<lambda>c. case v of (j, d, a) \<Rightarrow> encode_DIS_QueueJob c j d a) (queuejob_text v)"
  by (cases v rule: prod_cases3)
    (simp only: prod.case encode_DIS_QueueJob_def Let_def queuejob_text.simps opt_str_def [symmetric],
      (rule writes_rules | simp add: text_upto_def any_text_def)+)

lemma queuejob_reads: "queuejob_ok v \<Longrightarrow> reads (decode_DIS_QueueJob r) (queuejob_text v) (queuejob_got r v)"
  by (cases v rule: prod_cases3) (simp only: decode_DIS_QueueJob_def queuejob_text.simps, (rule reads_rules | simp)+)

interpretation queuejob: dis_codec "\<lambda>c v. case v of (j, d, a) \<Rightarrow> encode_DIS_QueueJob c j d a" "decode_DIS_QueueJob r"
  queuejob_text queuejob_ok "\<lambda>v c. (DIS_SUCCESS, queuejob_got r v, c)" for r
  by (rule codec_intro) (rule queuejob_writes queuejob_reads, assumption)+

fun manage_text :: "c_uint \<times> c_uint \<times> char list \<times> attropl list \<Rightarrow> char list" where
  "manage_text (cmd, ty, nm, a) = num cmd @ num ty @ dis_str nm @ list_text aop_text a"

fun manage_ok :: "c_uint \<times> c_uint \<times> char list \<times> attropl list \<Rightarrow> bool" where
  "manage_ok (cmd, ty, nm, a) \<longleftrightarrow> text_upto PBS_MAXSVRJOBID nm \<and> list_ok aop_ok a"

fun manage_got :: "rq_manage \<Rightarrow> c_uint \<times> c_uint \<times> char list \<times> attropl list \<Rightarrow> rq_manage" where
  "manage_got r (cmd, ty, nm, a) = r\<lparr>rq_cmd := cmd, rq_objtype := ty, rq_objname := nm, rq_manage.rq_attr := map svr_of_aop a\<rparr>"

lemma manage_writes: "manage_ok v \<Longrightarrow> writes (\<lambda>c. case v of (cmd, ty, nm, a) \<Rightarrow> encode_DIS_Manage c cmd ty nm a) (manage_text v)"
  by (cases v rule: prod_cases4)
    (simp only: prod.case encode_DIS_Manage_def Let_def manage_text.simps opt_str_def [symmetric],
      (rule writes_rules | simp add: text_upto_def any_text_def)+)

lemma manage_reads: "manage_ok v \<Longrightarrow> reads (decode_DIS_Manage r) (manage_text v) (manage_got r v)"
  by (cases v rule: prod_cases4) (simp only: decode_DIS_Manage_def manage_text.simps, (rule reads_rules | simp)+)

interpretation manage: dis_codec "\<lambda>c v. case v of (cmd, ty, nm, a) \<Rightarrow> encode_DIS_Manage c cmd ty nm a" "decode_DIS_Manage r"
  manage_text manage_ok "\<lambda>v c. (DIS_SUCCESS, manage_got r v, c)" for r
  by (rule codec_intro) (rule manage_writes manage_reads, assumption)+

fun signal_text :: "char list \<times> char list \<Rightarrow> char list" where
  "signal_text (j, s) = dis_str j @ dis_str s"

fun signal_ok :: "char list \<times> char list \<Rightarrow> bool" where
  "signal_ok (j, s) \<longleftrightarrow> text_upto PBS_MAXSVRJOBID j \<and> text_upto PBS_SIGNAMESZ s"

fun signal_got :: "rq_signal \<Rightarrow> char list \<times> char list \<Rightarrow> rq_signal" where
  "signal_got r (j, s) = r\<lparr>rq_signal.rq_jid := j, rq_signame := s\<rparr>"

lemma signal_writes: "signal_ok v \<Longrightarrow> writes (\<lambda>c. case v of (j, s) \<Rightarrow> encode_DIS_SignalJob c j s) (signal_text v)"
  by (cases v)
    (simp only: prod.case encode_DIS_SignalJob_def Let_def signal_text.simps opt_str_def [symmetric],
      (rule writes_rules | simp add: text_upto_def any_text_def)+)

lemma signal_reads: "signal_ok v \<Longrightarrow> reads (decode_DIS_SignalJob r) (signal_text v) (signal_got r v)"
  by (cases v) (simp only: decode_DIS_SignalJob_def signal_text.simps, (rule reads_rules | simp)+)

interpretation signal: dis_codec "\<lambda>c v. case v of (j, s) \<Rightarrow> encode_DIS_SignalJob c j s" "decode_DIS_SignalJob r"
  signal_text signal_ok "\<lambda>v c. (DIS_SUCCESS, signal_got r v, c)" for r
  by (rule codec_intro) (rule signal_writes signal_reads, assumption)+

fun status_text :: "char list \<times> attropl list \<Rightarrow> char list" where
  "status_text (i, a) = dis_str i @ list_text (\<lambda>a. aop_text (a\<lparr>ao_op := OP_SET\<rparr>)) a"

fun status_ok :: "char list \<times> attropl list \<Rightarrow> bool" where
  "status_ok (i, a) \<longleftrightarrow> text_upto (max PBS_MAXSVRJOBID PBS_MAXDEST) i \<and> list_ok aop_ok a"

fun status_got :: "rq_status \<Rightarrow> char list \<times> attropl list \<Rightarrow> rq_status" where
  "status_got r (i, a) = r\<lparr>rq_id := i, rq_status.rq_attr := map (\<lambda>a. svr_of_aop (a\<lparr>ao_op := OP_SET\<rparr>)) a\<rparr>"

lemma status_writes: "status_ok v \<Longrightarrow> writes (\<lambda>c. case v of (i, a) \<Rightarrow> encode_DIS_Status c i a) (status_text v)"
  by (cases v)
    (simp only: prod.case encode_DIS_Status_def Let_def status_text.simps opt_str_def [symmetric],
      (rule writes_rules | simp add: text_upto_def any_text_def)+)

lemma status_reads: "status_ok v \<Longrightarrow> reads (decode_DIS_Status r) (status_text v) (status_got r v)"
  by (cases v) (simp only: decode_DIS_Status_def status_text.simps, (rule reads_rules | simp)+)

interpretation status: dis_codec "\<lambda>c v. case v of (i, a) \<Rightarrow> encode_DIS_Status c i a" "decode_DIS_Status r"
  status_text status_ok "\<lambda>v c. (DIS_SUCCESS, status_got r v, c)" for r
  by (rule codec_intro) (rule status_writes status_reads, assumption)+

fun move_text :: "char list \<times> char list \<Rightarrow> char list" where
  "move_text (j, d) = dis_str j @ dis_str d"

fun move_ok :: "char list \<times> char list \<Rightarrow> bool" where
  "move_ok (j, d) \<longleftrightarrow> text_upto PBS_MAXSVRJOBID j \<and> text_upto (max PBS_MAXSVRJOBID PBS_MAXDEST) d"

fun move_got :: "rq_move \<Rightarrow> char list \<times> char list \<Rightarrow> rq_move" where
  "move_got r (j, d) = r\<lparr>rq_move.rq_jid := j, rq_move.rq_destin := d\<rparr>"

lemma move_writes: "move_ok v \<Longrightarrow> writes (\<lambda>c. case v of (j, d) \<Rightarrow> encode_DIS_MoveJob c j d) (move_text v)"
  by (cases v)
    (simp only: prod.case encode_DIS_MoveJob_def Let_def move_text.simps opt_str_def [symmetric],
      (rule writes_rules | simp add: text_upto_def any_text_def)+)

lemma move_reads: "move_ok v \<Longrightarrow> reads (decode_DIS_MoveJob r) (move_text v) (move_got r v)"
  by (cases v) (simp only: decode_DIS_MoveJob_def move_text.simps, (rule reads_rules | simp)+)

interpretation move: dis_codec "\<lambda>c v. case v of (j, d) \<Rightarrow> encode_DIS_MoveJob c j d" "decode_DIS_MoveJob r"
  move_text move_ok "\<lambda>v c. (DIS_SUCCESS, move_got r v, c)" for r
  by (rule codec_intro) (rule move_writes move_reads, assumption)+

fun message_text :: "char list \<times> c_uint \<times> char list \<Rightarrow> char list" where
  "message_text (j, f, m) = dis_str j @ num f @ dis_str m"

fun message_ok :: "char list \<times> c_uint \<times> char list \<Rightarrow> bool" where
  "message_ok (j, f, m) \<longleftrightarrow> text_upto PBS_MAXSVRJOBID j \<and> any_text m"

fun message_got :: "rq_message \<Rightarrow> char list \<times> c_uint \<times> char list \<Rightarrow> rq_message" where
  "message_got r (j, f, m) = r\<lparr>rq_message.rq_jid := j, rq_file := f, rq_text := Some m\<rparr>"

lemma message_writes: "message_ok v \<Longrightarrow> writes (\<lambda>c. case v of (j, f, m) \<Rightarrow> encode_DIS_MessageJob c j f m) (message_text v)"
  by (cases v rule: prod_cases3)
    (simp only: prod.case encode_DIS_MessageJob_def Let_def message_text.simps opt_str_def [symmetric],
      (rule writes_rules | simp add: text_upto_def any_text_def)+)

lemma message_reads: "message_ok v \<Longrightarrow> reads (decode_DIS_MessageJob r) (message_text v) (message_got r v)"
  by (cases v rule: prod_cases3) (simp only: decode_DIS_MessageJob_def message_text.simps, (rule reads_rules | simp)+)

interpretation message: dis_codec "\<lambda>c v. case v of (j, f, m) \<Rightarrow> encode_DIS_MessageJob c j f m" "decode_DIS_MessageJob r"
  message_text message_ok "\<lambda>v c. (DIS_SUCCESS, message_got r v, c)" for r
  by (rule codec_intro) (rule message_writes message_reads, assumption)+

fun runjob_text :: "char list \<times> char list \<times> c_uint \<Rightarrow> char list" where
  "runjob_text (j, d, x) = dis_str j @ dis_str d @ num x"

fun runjob_ok :: "char list \<times> char list \<times> c_uint \<Rightarrow> bool" where
  "runjob_ok (j, d, x) \<longleftrightarrow> text_upto PBS_MAXSVRJOBID j \<and> any_text d"

fun runjob_got :: "rq_runjob \<Rightarrow> char list \<times> char list \<times> c_uint \<Rightarrow> rq_runjob" where
  "runjob_got r (j, d, x) = r\<lparr>rq_runjob.rq_jid := j, rq_runjob.rq_destin := Some d, rq_resch := x\<rparr>"

lemma runjob_writes: "runjob_ok v \<Longrightarrow> writes (\<lambda>c. case v of (j, d, x) \<Rightarrow> encode_DIS_RunJob c j d x) (runjob_text v)"
  by (cases v rule: prod_cases3)
    (simp only: prod.case encode_DIS_RunJob_def Let_def runjob_text.simps opt_str_def [symmetric],
      (rule writes_rules | simp add: text_upto_def any_text_def)+)

lemma runjob_reads: "runjob_ok v \<Longrightarrow> reads (decode_DIS_RunJob r) (runjob_text v) (runjob_got r v)"
  by (cases v rule: prod_cases3) (simp only: decode_DIS_RunJob_def runjob_text.simps, (rule reads_rules | simp)+)

interpretation runjob: dis_codec "\<lambda>c v. case v of (j, d, x) \<Rightarrow> encode_DIS_RunJob c j d x" "decode_DIS_RunJob r"
  runjob_text runjob_ok "\<lambda>v c. (DIS_SUCCESS, runjob_got r v, c)" for r
  by (rule codec_intro) (rule runjob_writes runjob_reads, assumption)+

fun jobcred_text :: "c_uint \<times> char list \<Rightarrow> char list" where
  "jobcred_text (ty, d) = num ty @ dis_str d"

fun jobcred_ok :: "c_uint \<times> char list \<Rightarrow> bool" where
  "jobcred_ok (ty, d) \<longleftrightarrow> length d < 2 ^ 32"

fun jobcred_got :: "rq_jobcred \<Rightarrow> c_uint \<times> char list \<Rightarrow> rq_jobcred" where
  "jobcred_got r (ty, d) = r\<lparr>rq_jobcred.rq_type := ty, rq_jobcred.rq_data := Some d, rq_jobcred.rq_size := of_nat (length d)\<rparr>"

lemma jobcred_writes: "jobcred_ok v \<Longrightarrow> writes (\<lambda>c. case v of (ty, d) \<Rightarrow> encode_DIS_JobCred c ty (Some d) (length d)) (jobcred_text v)"
  by (cases v)
    (simp only: prod.case encode_DIS_JobCred_def Let_def jobcred_text.simps opt_str_def [symmetric],
      (rule writes_rules | simp add: text_upto_def any_text_def)+)

lemma jobcred_reads: "jobcred_ok v \<Longrightarrow> reads (decode_DIS_JobCred junk r) (jobcred_text v) (jobcred_got r v)"
  by (cases v) (simp only: decode_DIS_JobCred_def jobcred_text.simps, (rule reads_rules | simp)+)

interpretation jobcred: dis_codec "\<lambda>c v. case v of (ty, d) \<Rightarrow> encode_DIS_JobCred c ty (Some d) (length d)" "decode_DIS_JobCred junk r"
  jobcred_text jobcred_ok "\<lambda>v c. (DIS_SUCCESS, jobcred_got r v, c)" for junk r
  by (rule codec_intro) (rule jobcred_writes jobcred_reads, assumption)+

definition register_text :: "rq_register \<Rightarrow> char list" where
  "register_text v = dis_str (rq_register.rq_owner v) @ dis_str (rq_parent v) @ dis_str (rq_child v) @
     num (rq_dependtype v) @ num (rq_op v) @ dis_int (sint (rq_cost v))"

definition register_ok :: "rq_register \<Rightarrow> bool" where
  "register_ok v \<longleftrightarrow> text_upto PBS_MAXUSER (rq_register.rq_owner v) \<and> text_upto PBS_MAXSVRJOBID (rq_parent v) \<and>
     text_upto PBS_MAXCLTJOBID (rq_child v)"

definition register_got :: "rq_register \<Rightarrow> rq_register \<Rightarrow> rq_register" where
  "register_got r v = v\<lparr>rq_svr := rq_svr r\<rparr>"

lemma register_writes: "register_ok v \<Longrightarrow> writes (\<lambda>c. encode_DIS_Register c v) (register_text v)"
  by (simp only: encode_DIS_Register_def register_text_def, (rule writes_rules | simp add: register_ok_def text_upto_def)+)

lemma register_reads: "register_ok v \<Longrightarrow> reads (decode_DIS_Register junk r) (register_text v) (register_got r v)"
  by (simp only: decode_DIS_Register_def register_text_def, (rule reads_rules | simp add: register_ok_def register_got_def)+)

interpretation register: dis_codec encode_DIS_Register "decode_DIS_Register junk r" register_text register_ok
  "\<lambda>v c. (DIS_SUCCESS, register_got r v, c)" for junk r
  by (rule codec_intro) (rule register_writes register_reads, assumption)+

definition obit_text :: "rq_jobobit \<Rightarrow> char list" where
  "obit_text v = dis_str (rq_jobobit.rq_jid v) @ dis_int (sint (rq_jobobit.rq_status v)) @ list_text svr_text (rq_jobobit.rq_attr v)"

definition obit_ok :: "rq_jobobit \<Rightarrow> bool" where
  "obit_ok v \<longleftrightarrow> text_upto PBS_MAXSVRJOBID (rq_jobobit.rq_jid v) \<and> list_ok svr_ok (rq_jobobit.rq_attr v)"

definition obit_got :: "rq_jobobit \<Rightarrow> rq_jobobit \<Rightarrow> rq_jobobit" where
  "obit_got r v = v\<lparr>rq_jobobit.rq_attr := map svr_copy (rq_jobobit.rq_attr v)\<rparr>"

lemma obit_writes: "obit_ok v \<Longrightarrow> writes (\<lambda>c. encode_DIS_JobObit c v) (obit_text v)"
  by (simp only: encode_DIS_JobObit_def obit_text_def, (rule writes_rules | simp add: obit_ok_def text_upto_def)+)

lemma obit_reads: "obit_ok v \<Longrightarrow> reads (decode_DIS_JobObit r) (obit_text v) (obit_got r v)"
  by (simp only: decode_DIS_JobObit_def obit_text_def, (rule reads_rules | simp add: obit_ok_def obit_got_def)+)

interpretation obit: dis_codec encode_DIS_JobObit "decode_DIS_JobObit r" obit_text obit_ok
  "\<lambda>v c. (DIS_SUCCESS, obit_got r v, c)" for r
  by (rule codec_intro) (rule obit_writes obit_reads, assumption)+

definition returnfiles_text :: "rq_returnfiles \<Rightarrow> char list" where
  "returnfiles_text v = dis_str (rq_returnfiles.rq_jobid v) @ dis_int (sint (rq_return_stdout v)) @ dis_int (sint (rq_return_stderr v))"

definition returnfiles_ok :: "rq_returnfiles \<Rightarrow> bool" where
  "returnfiles_ok v \<longleftrightarrow> text_upto PBS_MAXSVRJOBID (rq_returnfiles.rq_jobid v)"

definition returnfiles_got :: "rq_returnfiles \<Rightarrow> rq_returnfiles \<Rightarrow> rq_returnfiles" where
  "returnfiles_got r v = v"

lemma returnfiles_writes: "returnfiles_ok v \<Longrightarrow> writes (\<lambda>c. encode_DIS_ReturnFiles c v) (returnfiles_text v)"
  by (simp only: encode_DIS_ReturnFiles_def returnfiles_text_def, (rule writes_rules | simp add: returnfiles_ok_def text_upto_def)+)

lemma returnfiles_reads: "returnfiles_ok v \<Longrightarrow> reads (decode_DIS_ReturnFiles r) (returnfiles_text v) (returnfiles_got r v)"
  by (simp only: decode_DIS_ReturnFiles_def returnfiles_text_def, (rule reads_rules | simp add: returnfiles_ok_def returnfiles_got_def)+)

interpretation returnfiles: dis_codec encode_DIS_ReturnFiles "decode_DIS_ReturnFiles r" returnfiles_text returnfiles_ok
  "\<lambda>v c. (DIS_SUCCESS, returnfiles_got r v, c)" for r
  by (rule codec_intro) (rule returnfiles_writes returnfiles_reads, assumption)+

text \<open>The job state of a track request is one character; the receiver reads it as an \<open>unsigned char\<close>.\<close>

definition track_text :: "rq_track \<Rightarrow> char list" where
  "track_text v = dis_str (rq_track.rq_jid v) @ num (rq_hopcount v) @ dis_str (rq_location v) @
     dis_num (CHR ''+'') (unat (rq_state v))"

definition track_ok :: "rq_track \<Rightarrow> bool" where
  "track_ok v \<longleftrightarrow> text_upto PBS_MAXSVRJOBID (rq_track.rq_jid v) \<and> text_upto PBS_MAXDEST (rq_location v) \<and>
     rq_state v < 128"

lemma unat_scast_ascii: "(x :: 8 word) < 128 \<Longrightarrow> unat (scast x :: c_uint) = unat x"
proof -
  assume "x < 128"
  then have x: "uint x < 128" by (simp add: word_less_def)
  have "- 128 \<le> uint x" by (rule order_trans [OF _ uint_ge_0]) simp
  with x have "signed_take_bit 7 (uint x) = uint x" by (intro signed_take_bit_int_eq_self) simp_all
  then have "sint x = uint x" by (simp add: sint_uint)
  then have "uint (scast x :: c_uint) = uint x" using x by (simp add: scast_eq unsigned_ucast_eq take_bit_int_eq_self)
  then show ?thesis by (metis nat_uint_eq)
qed

lemma track_writes:
  assumes "track_ok v"
  shows "writes (\<lambda>c. encode_DIS_TrackJob c v) (track_text v)"
proof -
  have ok: "length (rq_track.rq_jid v) < 2 ^ 32" "length (rq_location v) < 2 ^ 32" "rq_state v < 128"
    using assms by (simp_all add: track_ok_def text_upto_def)
  have s: "writes (\<lambda>c. diswui c (scast (rq_state v))) (dis_num (CHR ''+'') (unat (rq_state v)))"
    using writes_diswui [of "scast (rq_state v)"] unat_scast_ascii [OF ok(3)] by simp
  show ?thesis unfolding encode_DIS_TrackJob_def track_text_def
    by (intro writes_cons [OF writes_nz] writes_one [OF writes_nz] writes_diswui writes_diswst ok(1,2) s)
qed

lemma track_reads: "track_ok v \<Longrightarrow> reads (decode_DIS_TrackJob r) (track_text v) v"
  by (simp only: decode_DIS_TrackJob_def track_text_def, (rule reads_rules | simp add: track_ok_def)+)

interpretation track: dis_codec encode_DIS_TrackJob "decode_DIS_TrackJob r" track_text track_ok
  "\<lambda>v c. (DIS_SUCCESS, v, c)" for r
  by (rule codec_intro) (rule track_writes track_reads, assumption)+

text \<open>A request extension: the empty one and none at all are sent alike.\<close>

definition ext_text :: "char list option \<Rightarrow> char list" where
  "ext_text e = (if opt_str e = [] then dis_num (CHR ''+'') 0 else dis_num (CHR ''+'') 1 @ dis_str (opt_str e))"

definition ext_ok :: "char list option \<Rightarrow> bool" where
  "ext_ok e \<longleftrightarrow> any_text (opt_str e)"

definition ext_got :: "char list option \<Rightarrow> char list option \<Rightarrow> char list option" where
  "ext_got r e = (if opt_str e = [] then r else Some (opt_str e))"

lemma writes_num0: "writes (\<lambda>c. diswui c 0) (dis_num (CHR ''+'') 0)"
  using writes_diswui [of 0] by simp

lemma writes_num1: "writes (\<lambda>c. diswui c 1) (dis_num (CHR ''+'') 1)"
  using writes_diswui [of 1] by simp

lemma ext_writes:
  assumes "ext_ok e"
  shows "writes (\<lambda>c. encode_DIS_ReqExtend c e) (ext_text e)"
proof (cases "opt_str e = []")
  case True
  then have "(\<lambda>c. encode_DIS_ReqExtend c e) = (\<lambda>c. diswui c 0)"
    by (auto simp: encode_DIS_ReqExtend_def opt_str_def split: option.splits)
  then show ?thesis using True writes_num0 by (simp add: ext_text_def)
next
  case False
  then have e: "(\<lambda>c. encode_DIS_ReqExtend c e) = wseq [\<lambda>c. diswui c 1, \<lambda>c. diswst c (opt_str e)]"
    by (auto simp: encode_DIS_ReqExtend_def opt_str_def split: option.splits)
  have "writes (wseq [\<lambda>c. diswui c 1, \<lambda>c. diswst c (opt_str e)]) (dis_num (CHR ''+'') 1 @ dis_str (opt_str e))"
    using assms by (intro writes_cons writes_one writes_num1 writes_diswst) (simp add: ext_ok_def any_text_def)
  then show ?thesis using False by (simp only: e ext_text_def if_False)
qed

lemma r_uiD: "r_ui c = (DIS_SUCCESS, v, c1) \<Longrightarrow> disrui c = (v, DIS_SUCCESS, c1)"
  by (simp add: rc_first_def split: prod.splits)

lemma ext_reads:
  assumes "ext_ok e"
  shows "reads (decode_DIS_ReqExtend r) (ext_text e) (ext_got r e)"
proof (cases "opt_str e = []")
  case True
  have "reads (decode_DIS_ReqExtend r) (dis_num (CHR ''+'') 0 @ []) r"
    by (rule reads_step [OF reads_num reads_fin]) (auto simp: decode_DIS_ReqExtend_def fin_def dest!: r_uiD)
  then show ?thesis using True by (simp add: ext_text_def ext_got_def)
next
  case False
  have "reads r_st (dis_str (opt_str e)) (Some (opt_str e))" using assms by (intro reads_st) (simp add: ext_ok_def)
  then have "reads (decode_DIS_ReqExtend r) (dis_num (CHR ''+'') 1 @ dis_str (opt_str e)) (Some (opt_str e))"
    by (intro reads_step [OF reads_num]) (auto simp: decode_DIS_ReqExtend_def dest!: r_uiD)
  then show ?thesis using False by (simp add: ext_text_def ext_got_def)
qed

interpretation ext: dis_codec encode_DIS_ReqExtend "decode_DIS_ReqExtend r" ext_text ext_ok
  "\<lambda>v c. (DIS_SUCCESS, ext_got r v, c)" for r
  by (rule codec_intro) (rule ext_writes ext_reads, assumption)+

text \<open>
  The GPU request carries its own empty extension, which the body decoder leaves for
  \<open>decode_DIS_ReqExtend\<close>.
\<close>

fun gpu_text :: "char list \<times> char list \<times> c_uint \<times> c_uint \<times> c_uint \<Rightarrow> char list" where
  "gpu_text (n, g, m, p, v) = dis_str n @ dis_str g @ num m @ num p @ num v"

fun gpu_ok :: "char list \<times> char list \<times> c_uint \<times> c_uint \<times> c_uint \<Rightarrow> bool" where
  "gpu_ok (n, g, m, p, v) \<longleftrightarrow> text_upto PBS_MAXHOSTNAME n \<and> text_upto PBS_MAXGPUID g"

fun gpu_got :: "char list \<times> char list \<times> c_uint \<times> c_uint \<times> c_uint \<Rightarrow> rq_gpuctrl" where
  "gpu_got (n, g, m, p, v) = \<lparr>rq_momnode = n, rq_gpuid = g, rq_gpumode = m, rq_reset_perm = p, rq_reset_vol = v\<rparr>"

lemma gpu_writes:
  "gpu_ok (n, g, m, p, v) \<Longrightarrow> writes (\<lambda>c. encode_DIS_GpuCtrl c n g m p v) (gpu_text (n, g, m, p, v) @ ext_text None)"
  by (simp only: encode_DIS_GpuCtrl_def gpu_text.simps append_assoc,
      (rule writes_rules ext_writes | simp add: text_upto_def ext_ok_def any_text_def opt_str_def)+)

lemma gpu_reads: "gpu_ok v \<Longrightarrow> reads (decode_DIS_GpuCtrl r) (gpu_text v) (gpu_got v)"
  by (cases v rule: prod_cases5) (simp only: decode_DIS_GpuCtrl_def gpu_text.simps, (rule reads_rules | simp)+)

text \<open>A piece of a job file: the size is sent on its own and again with the data.\<close>

fun jobfile_text :: "c_uint \<times> char list \<times> char list option \<times> c_uint \<Rightarrow> char list" where
  "jobfile_text (s, b, j, w) = num s @ num w @ dis_num (CHR ''+'') (length b) @ dis_str (opt_str j) @ dis_str b"

fun jobfile_ok :: "c_uint \<times> char list \<times> char list option \<times> c_uint \<Rightarrow> bool" where
  "jobfile_ok (s, b, j, w) \<longleftrightarrow> length b < 2 ^ 31 \<and> text_upto PBS_MAXSVRJOBID (opt_str j)"

fun jobfile_got :: "c_uint \<times> char list \<times> char list option \<times> c_uint \<Rightarrow> rq_jobfile" where
  "jobfile_got (s, b, j, w) = \<lparr>rq_sequence = s, rq_jobfile.rq_type = w, rq_jobfile.rq_size = of_nat (length b),
     rq_jobfile.rq_jobid = opt_str j, rq_jobfile.rq_data = Some b\<rparr>"

lemma writes_num: "n < 2 ^ 32 \<Longrightarrow> writes (\<lambda>c. diswui c (of_nat n)) (dis_num (CHR ''+'') n)"
  using writes_diswui [of "of_nat n"] by (simp add: unat_of_nat)

lemma jobfile_writes:
  assumes "jobfile_ok (s, b, j, w)"
  shows "writes (\<lambda>c. encode_DIS_JobFile c s (Some b) (length b) j w) (jobfile_text (s, b, j, w))"
proof -
  have l: "length b < 2 ^ 32" "length (opt_str j) < 2 ^ 32" using assms by (simp_all add: text_upto_def)
  show ?thesis unfolding encode_DIS_JobFile_def Let_def jobfile_text.simps opt_str_def [symmetric]
    by (intro writes_cons [OF writes_nz] writes_one [OF writes_nz] writes_num writes_diswui [of s] writes_diswui [of w]
        writes_diswst writes_diswcs l)
qed

lemma jobfile_data_reads:
  assumes "length b < 2 ^ 31" and "rq_jobfile.rq_size r = of_nat (length b)"
  shows "reads (decode_jobfile_data junk r) (dis_str b) (r\<lparr>rq_jobfile.rq_data := Some b\<rparr>)"
proof -
  have "reads (r_cs junk) (dis_str b) (Some b, length b)" using assms(1) by (intro reads_cs) simp
  moreover have "decode_jobfile_data junk r c = fin (r\<lparr>rq_jobfile.rq_data := Some b\<rparr>) c1"
    if "r_cs junk c = (DIS_SUCCESS, (Some b, length b), c1)" for c c1
    using that assms(2) by (auto simp: decode_jobfile_data_def r_cs_def fin_def split: prod.splits)
  ultimately show ?thesis using reads_step [OF _ reads_fin] by force
qed

lemma ucast_of_nat_32: "n < 2 ^ 32 \<Longrightarrow> (ucast (of_nat n :: c_uint) :: c_long) = of_nat n"
  by (rule word_unat_eq_iff [THEN iffD2]) (simp add: unsigned_ucast_eq take_bit_eq_mod unat_of_nat)

lemma jobfile_reads:
  assumes "jobfile_ok v"
  shows "reads (decode_DIS_JobFile junk r) (jobfile_text v) (jobfile_got v)"
proof (cases v rule: prod_cases4)
  case (fields s b j w)
  have ok: "length b < 2 ^ 31" "length b < 2 ^ 32" "text_upto PBS_MAXSVRJOBID (opt_str j)"
    using assms by (simp_all add: fields)
  let ?r4 = "r\<lparr>rq_jobfile.rq_data := None, rq_sequence := s, rq_jobfile.rq_type := w,
    rq_jobfile.rq_size := of_nat (length b), rq_jobfile.rq_jobid := opt_str j\<rparr>"
  have d: "reads (decode_jobfile_data junk ?r4) (dis_str b) (jobfile_got v)"
    using jobfile_data_reads [OF ok(1), of ?r4 junk] by (cases r) (simp add: fields)
  show ?thesis unfolding decode_DIS_JobFile_def fields jobfile_text.simps
    by (rule reads_fld [OF reads_ui], rule reads_fld [OF reads_ui], rule reads_fld [OF reads_num [OF ok(2)]],
        rule reads_fld [OF reads_fst [OF ok(3)]])
      (use d in \<open>simp add: fields ucast_of_nat_32 [OF ok(2)]\<close>)
qed

interpretation jobfile: dis_codec "\<lambda>c v. case v of (s, b, j, w) \<Rightarrow> encode_DIS_JobFile c s (Some b) (length b) j w"
  "decode_DIS_JobFile junk r" jobfile_text jobfile_ok "\<lambda>v c. (DIS_SUCCESS, jobfile_got v, c)" for junk r
proof (rule codec_intro)
  fix v :: "c_uint \<times> char list \<times> char list option \<times> c_uint"
  assume "jobfile_ok v"
  then show "writes (\<lambda>c. case v of (s, b, j, w) \<Rightarrow> encode_DIS_JobFile c s (Some b) (length b) j w) (jobfile_text v)"
    by (cases v rule: prod_cases4) (simp only: prod.case, rule jobfile_writes)
qed (rule jobfile_reads)

text \<open>Copy and delete requests: the pairs of files with a local name, and a remote one that may be missing.\<close>

definition pair_text :: "rqfpair \<Rightarrow> char list" where
  "pair_text p = num (fp_flag p) @ dis_str (opt_str (fp_local p)) @ dis_str (opt_str (fp_rmt p))"

definition pair_ok :: "rqfpair \<Rightarrow> bool" where
  "pair_ok p \<longleftrightarrow> fp_local p \<noteq> None \<and> any_text (opt_str (fp_local p)) \<and> any_text (opt_str (fp_rmt p))"

definition pair_got :: "rqfpair \<Rightarrow> rqfpair" where
  "pair_got p = \<lparr>fp_flag = fp_flag p, fp_local = Some (opt_str (fp_local p)), fp_rmt = Some (opt_str (fp_rmt p))\<rparr>"

definition copyfiles_text :: "rq_cpyfile \<Rightarrow> char list" where
  "copyfiles_text v = dis_str (rq_cpyfile.rq_jobid v) @ dis_str (rq_cpyfile.rq_owner v) @ dis_str (rq_user v) @
     dis_str (rq_group v) @ num (rq_dir v) @ list_text pair_text (rq_pair v)"

definition copyfiles_ok :: "rq_cpyfile \<Rightarrow> bool" where
  "copyfiles_ok v \<longleftrightarrow> text_upto PBS_MAXSVRJOBID (rq_cpyfile.rq_jobid v) \<and> text_upto PBS_MAXUSER (rq_cpyfile.rq_owner v) \<and>
     text_upto PBS_MAXUSER (rq_user v) \<and> text_upto PBS_MAXGRPN (rq_group v) \<and> list_ok pair_ok (rq_pair v)"

definition copyfiles_got :: "rq_cpyfile \<Rightarrow> rq_cpyfile" where
  "copyfiles_got v = v\<lparr>rq_pair := map pair_got (rq_pair v)\<rparr>"

lemma pair_writes:
  assumes "pair_ok p"
  shows "writes (encode_rqfpair p) (pair_text p)"
proof -
  have l: "length (opt_str (fp_local p)) < 2 ^ 32" "length (opt_str (fp_rmt p)) < 2 ^ 32"
    using assms by (simp_all add: pair_ok_def any_text_def)
  have "writes (wseq [nz (\<lambda>c. diswui c (fp_flag p)), nz (\<lambda>c. diswst c (opt_str (fp_local p))),
    nz (\<lambda>c. diswst c (opt_str (fp_rmt p)))]) (pair_text p)"
    unfolding pair_text_def
    by (intro writes_cons [OF writes_nz] writes_one [OF writes_nz] writes_diswui writes_diswst l)
  then show ?thesis by (simp only: encode_rqfpair_def opt_str_def option.case_distrib [symmetric])
qed

lemma pair_reads:
  assumes "pair_ok p"
  shows "reads decode_rqfpair (pair_text p) (Some (pair_got p))"
proof -
  have tx: "any_text (opt_str (fp_local p))" "any_text (opt_str (fp_rmt p))" using assms by (simp_all add: pair_ok_def)
  show ?thesis unfolding decode_rqfpair_def pair_text_def
    by (rule reads_rcalloc, rule reads_rbind [OF reads_ui], rule reads_rbind [OF reads_st [OF tx(1)]],
        rule reads_rbind_last [OF reads_st [OF tx(2)]]) (simp add: pair_got_def)
qed

lemma pairs_reads:
  assumes "list_all pair_ok ps"
  shows "reads (decode_pairs (length ps) h) (concat (map pair_text ps)) (h @ map pair_got ps)"
  using assms
proof (induction ps arbitrary: h)
  case Nil
  then show ?case using reads_ret [of h] by (simp add: reads_def decode_pairs.simps)
next
  case (Cons p ps)
  have p: "reads decode_rqfpair (pair_text p) (Some (pair_got p))" using Cons.prems by (simp add: pair_reads)
  have ps: "reads (decode_pairs (length ps) (h @ [pair_got p])) (concat (map pair_text ps)) ((h @ [pair_got p]) @ map pair_got ps)"
    by (rule Cons.IH) (use Cons.prems in simp)
  have "reads (decode_pairs (length (p # ps)) h) (pair_text p @ concat (map pair_text ps)) ((h @ [pair_got p]) @ map pair_got ps)"
    by (rule reads_step [OF p ps]) (simp add: decode_pairs.simps)
  then show ?case by simp
qed

lemma pair_list_reads:
  assumes "list_ok pair_ok ps"
  shows "reads decode_pair_list (list_text pair_text ps) (map pair_got ps)"
proof -
  have l: "length ps < 2 ^ 32" "list_all pair_ok ps" using assms by (simp_all add: list_ok_def)
  have "reads decode_pair_list (list_text pair_text ps) ([] @ map pair_got ps)" unfolding list_text_def
    by (rule reads_step [OF reads_num [OF l(1)] pairs_reads [OF l(2)]])
      (use l(1) in \<open>auto simp: decode_pair_list_def unat_of_nat dest!: r_uiD\<close>)
  then show ?thesis by simp
qed

lemma copyfiles_writes:
  assumes "copyfiles_ok v"
  shows "writes (\<lambda>c. encode_DIS_CopyFiles c v) (copyfiles_text v)"
proof -
  have l: "length (rq_cpyfile.rq_jobid v) < 2 ^ 32" "length (rq_cpyfile.rq_owner v) < 2 ^ 32"
    "length (rq_user v) < 2 ^ 32" "length (rq_group v) < 2 ^ 32" "length (rq_pair v) < 2 ^ 32" "list_all pair_ok (rq_pair v)"
    using assms by (simp_all add: copyfiles_ok_def text_upto_def list_ok_def)
  have p: "writes (wseq (nz (\<lambda>c. diswui c (of_nat (length (rq_pair v)))) # map encode_rqfpair (rq_pair v)))
    (list_text pair_text (rq_pair v))" unfolding list_text_def
    using l(6) by (intro writes_map writes_nz writes_num l(5) pair_writes) (auto simp: list_all_iff)
  show ?thesis unfolding encode_DIS_CopyFiles_def copyfiles_text_def append_Cons append_Nil
    by (intro writes_cons [OF writes_nz] writes_diswui writes_diswst l p)
qed

lemma copyfiles_reads:
  assumes "copyfiles_ok v"
  shows "reads (decode_DIS_CopyFiles r) (copyfiles_text v) (copyfiles_got v)"
proof -
  have ok: "text_upto PBS_MAXSVRJOBID (rq_cpyfile.rq_jobid v)" "text_upto PBS_MAXUSER (rq_cpyfile.rq_owner v)"
    "text_upto PBS_MAXUSER (rq_user v)" "text_upto PBS_MAXGRPN (rq_group v)" "list_ok pair_ok (rq_pair v)"
    using assms by (simp_all add: copyfiles_ok_def)
  show ?thesis unfolding decode_DIS_CopyFiles_def copyfiles_text_def
    by (rule reads_fld [OF reads_fst [OF ok(1)]], rule reads_fld [OF reads_fst [OF ok(2)]],
        rule reads_fld [OF reads_fst [OF ok(3)]], rule reads_fld [OF reads_fst [OF ok(4)]],
        rule reads_fld [OF reads_ui], rule reads_last [OF pair_list_reads [OF ok(5)]])
      (simp add: copyfiles_got_def)
qed

interpretation copyfiles: dis_codec encode_DIS_CopyFiles "decode_DIS_CopyFiles r" copyfiles_text copyfiles_ok
  "\<lambda>v c. (DIS_SUCCESS, copyfiles_got v, c)" for r
  by (rule codec_intro) (rule copyfiles_writes copyfiles_reads, assumption)+

text \<open>The requests that are a single value.\<close>

interpretation jobid: dis_codec encode_DIS_JobId decode_DIS_JobId dis_str "text_upto PBS_MAXSVRJOBID"
  "\<lambda>v c. (DIS_SUCCESS, v, c)"
  unfolding encode_DIS_JobId_def [abs_def] decode_DIS_JobId_def [abs_def] by (rule fixst.dis_codec_axioms)

interpretation shutdown: dis_codec encode_DIS_ShutDown decode_DIS_ShutDown num "\<lambda>_. True"
  "\<lambda>v c. (DIS_SUCCESS, v, c)"
  unfolding encode_DIS_ShutDown_def [abs_def] decode_DIS_ShutDown_def [abs_def]
  by (rule codec_intro) (rule writes_diswui reads_ui)+

interpretation powerstate: dis_codec encode_DIS_PowerState decode_DIS_PowerState "\<lambda>v. num (ucast v)" "\<lambda>_. True"
  "\<lambda>v c. (DIS_SUCCESS, ucast v, c)"
  unfolding encode_DIS_PowerState_def [abs_def] decode_DIS_PowerState_def [abs_def]
  by (rule codec_intro) (rule writes_diswui reads_ui)+

end
