(* ===== verification/Batch_Request.thy ===== *)
theory Batch_Request
  imports Batch_Msg
begin

text \<open>
  A whole request.  \<open>dis_request_read\<close> of \<open>server/dis_read.c\<close> decodes the header, selects the body
  decoder by the request type and decodes the extension; the switch is compiled twice, for the
  server and with \<open>PBS_MOM\<close> for the execution daemon (\<open>mom\<close>).  The senders \<open>PBSD_sig_put\<close>,
  \<open>PBSD_mgr_put\<close>, \<open>PBSD_status_put\<close>, \<open>PBSD_msg_put\<close>, \<open>PBSD_gpu_put\<close> of \<open>lib/Libifl\<close> set a channel up,
  chain the three encoders and flush.
\<close>

section \<open>Request types\<close>

definition PBS_BATCH_QueueJob :: c_uint where "PBS_BATCH_QueueJob = 1"
definition PBS_BATCH_JobCred :: c_uint where "PBS_BATCH_JobCred = 2"
definition PBS_BATCH_jobscript :: c_uint where "PBS_BATCH_jobscript = 3"
definition PBS_BATCH_RdytoCommit :: c_uint where "PBS_BATCH_RdytoCommit = 4"
definition PBS_BATCH_Commit :: c_uint where "PBS_BATCH_Commit = 5"
definition PBS_BATCH_DeleteJob :: c_uint where "PBS_BATCH_DeleteJob = 6"
definition PBS_BATCH_HoldJob :: c_uint where "PBS_BATCH_HoldJob = 7"
definition PBS_BATCH_LocateJob :: c_uint where "PBS_BATCH_LocateJob = 8"
definition PBS_BATCH_Manager :: c_uint where "PBS_BATCH_Manager = 9"
definition PBS_BATCH_MessJob :: c_uint where "PBS_BATCH_MessJob = 10"
definition PBS_BATCH_ModifyJob :: c_uint where "PBS_BATCH_ModifyJob = 11"
definition PBS_BATCH_MoveJob :: c_uint where "PBS_BATCH_MoveJob = 12"
definition PBS_BATCH_ReleaseJob :: c_uint where "PBS_BATCH_ReleaseJob = 13"
definition PBS_BATCH_Rerun :: c_uint where "PBS_BATCH_Rerun = 14"
definition PBS_BATCH_RunJob :: c_uint where "PBS_BATCH_RunJob = 15"
definition PBS_BATCH_SelectJobs :: c_uint where "PBS_BATCH_SelectJobs = 16"
definition PBS_BATCH_Shutdown :: c_uint where "PBS_BATCH_Shutdown = 17"
definition PBS_BATCH_SignalJob :: c_uint where "PBS_BATCH_SignalJob = 18"
definition PBS_BATCH_StatusJob :: c_uint where "PBS_BATCH_StatusJob = 19"
definition PBS_BATCH_StatusQue :: c_uint where "PBS_BATCH_StatusQue = 20"
definition PBS_BATCH_StatusSvr :: c_uint where "PBS_BATCH_StatusSvr = 21"
definition PBS_BATCH_TrackJob :: c_uint where "PBS_BATCH_TrackJob = 22"
definition PBS_BATCH_AsyrunJob :: c_uint where "PBS_BATCH_AsyrunJob = 23"
definition PBS_BATCH_Rescq :: c_uint where "PBS_BATCH_Rescq = 24"
definition PBS_BATCH_ReserveResc :: c_uint where "PBS_BATCH_ReserveResc = 25"
definition PBS_BATCH_ReleaseResc :: c_uint where "PBS_BATCH_ReleaseResc = 26"
definition PBS_BATCH_CheckpointJob :: c_uint where "PBS_BATCH_CheckpointJob = 27"
definition PBS_BATCH_AsyModifyJob :: c_uint where "PBS_BATCH_AsyModifyJob = 28"
definition PBS_BATCH_QueueJob2 :: c_uint where "PBS_BATCH_QueueJob2 = 29"
definition PBS_BATCH_Commit2 :: c_uint where "PBS_BATCH_Commit2 = 30"
definition PBS_BATCH_jobscript2 :: c_uint where "PBS_BATCH_jobscript2 = 31"
definition PBS_BATCH_StageIn :: c_uint where "PBS_BATCH_StageIn = 48"
definition PBS_BATCH_AuthenUser :: c_uint where "PBS_BATCH_AuthenUser = 49"
definition PBS_BATCH_OrderJob :: c_uint where "PBS_BATCH_OrderJob = 50"
definition PBS_BATCH_SelStat :: c_uint where "PBS_BATCH_SelStat = 51"
definition PBS_BATCH_RegistDep :: c_uint where "PBS_BATCH_RegistDep = 52"
definition PBS_BATCH_ReturnFiles :: c_uint where "PBS_BATCH_ReturnFiles = 53"
definition PBS_BATCH_CopyFiles :: c_uint where "PBS_BATCH_CopyFiles = 54"
definition PBS_BATCH_DelFiles :: c_uint where "PBS_BATCH_DelFiles = 55"
definition PBS_BATCH_JobObit :: c_uint where "PBS_BATCH_JobObit = 56"
definition PBS_BATCH_MvJobFile :: c_uint where "PBS_BATCH_MvJobFile = 57"
definition PBS_BATCH_StatusNode :: c_uint where "PBS_BATCH_StatusNode = 58"
definition PBS_BATCH_Disconnect :: c_uint where "PBS_BATCH_Disconnect = 59"
definition PBS_BATCH_AsySignalJob :: c_uint where "PBS_BATCH_AsySignalJob = 60"
definition PBS_BATCH_AltAuthenUser :: c_uint where "PBS_BATCH_AltAuthenUser = 61"
definition PBS_BATCH_GpuCtrl :: c_uint where "PBS_BATCH_GpuCtrl = 62"
definition PBS_BATCH_DeleteReservation :: c_uint where "PBS_BATCH_DeleteReservation = 63"
definition PBS_BATCH_SelStatAttr :: c_uint where "PBS_BATCH_SelStatAttr = 64"
definition PBS_BATCH_ChangePowerState :: c_uint where "PBS_BATCH_ChangePowerState = 65"
definition PBS_BATCH_ModifyNode :: c_uint where "PBS_BATCH_ModifyNode = 66"
definition PBS_BATCH_CEILING :: c_uint where "PBS_BATCH_CEILING = 67"

lemmas req_type_defs = PBS_BATCH_QueueJob_def PBS_BATCH_JobCred_def PBS_BATCH_jobscript_def PBS_BATCH_RdytoCommit_def
  PBS_BATCH_Commit_def PBS_BATCH_DeleteJob_def PBS_BATCH_HoldJob_def PBS_BATCH_LocateJob_def PBS_BATCH_Manager_def
  PBS_BATCH_MessJob_def PBS_BATCH_ModifyJob_def PBS_BATCH_MoveJob_def PBS_BATCH_ReleaseJob_def PBS_BATCH_Rerun_def
  PBS_BATCH_RunJob_def PBS_BATCH_SelectJobs_def PBS_BATCH_Shutdown_def PBS_BATCH_SignalJob_def PBS_BATCH_StatusJob_def
  PBS_BATCH_StatusQue_def PBS_BATCH_StatusSvr_def PBS_BATCH_TrackJob_def PBS_BATCH_AsyrunJob_def PBS_BATCH_Rescq_def
  PBS_BATCH_ReserveResc_def PBS_BATCH_ReleaseResc_def PBS_BATCH_CheckpointJob_def PBS_BATCH_AsyModifyJob_def
  PBS_BATCH_QueueJob2_def PBS_BATCH_Commit2_def PBS_BATCH_jobscript2_def PBS_BATCH_StageIn_def PBS_BATCH_AuthenUser_def
  PBS_BATCH_OrderJob_def PBS_BATCH_SelStat_def PBS_BATCH_RegistDep_def PBS_BATCH_ReturnFiles_def PBS_BATCH_CopyFiles_def
  PBS_BATCH_DelFiles_def PBS_BATCH_JobObit_def PBS_BATCH_MvJobFile_def PBS_BATCH_StatusNode_def PBS_BATCH_Disconnect_def
  PBS_BATCH_AsySignalJob_def PBS_BATCH_AltAuthenUser_def PBS_BATCH_GpuCtrl_def PBS_BATCH_DeleteReservation_def
  PBS_BATCH_SelStatAttr_def PBS_BATCH_ChangePowerState_def PBS_BATCH_ModifyNode_def PBS_BATCH_CEILING_def

section \<open>The request\<close>

text \<open>The union of the request as a tagged value; the constructor of \<open>batch_request\<close> zeroes it.\<close>

datatype rq_ind =
    RQ_zero | RQ_queuejob rq_queuejob | RQ_jobcred rq_jobcred | RQ_jobfile rq_jobfile | RQ_commit "char list"
  | RQ_manager rq_manage | RQ_message rq_message | RQ_shutdown c_uint | RQ_signal rq_signal | RQ_status rq_status
  | RQ_gpuctrl rq_gpuctrl | RQ_locate "char list" | RQ_move rq_move | RQ_run rq_runjob | RQ_select "svrattrl list"
  | RQ_selstatattr "svrattrl list" "svrattrl list" | RQ_track rq_track | RQ_rescq rq_rescq | RQ_register rq_register
  | RQ_authen rq_authen | RQ_jobobit rq_jobobit | RQ_returnfiles rq_returnfiles | RQ_cpyfile rq_cpyfile
  | RQ_powerstate c_uint

record batch_request =
  br_type :: c_uint
  br_user :: "char list"
  br_extend :: "char list option"
  br_ind :: rq_ind

definition new_request :: batch_request where
  "new_request = \<lparr>br_type = - 1, br_user = [], br_extend = None, br_ind = RQ_zero\<rparr>"

definition zero_queuejob :: rq_queuejob where
  "zero_queuejob = \<lparr>rq_queuejob.rq_destin = [], rq_queuejob.rq_jid = [], rq_queuejob.rq_attr = []\<rparr>"
definition zero_jobcred :: rq_jobcred where
  "zero_jobcred = \<lparr>rq_jobcred.rq_type = 0, rq_jobcred.rq_size = 0, rq_jobcred.rq_data = None\<rparr>"
definition zero_jobfile :: rq_jobfile where
  "zero_jobfile = \<lparr>rq_sequence = 0, rq_jobfile.rq_type = 0, rq_jobfile.rq_size = 0, rq_jobfile.rq_jobid = [],
     rq_jobfile.rq_data = None\<rparr>"
definition zero_manage :: rq_manage where
  "zero_manage = \<lparr>rq_cmd = 0, rq_objtype = 0, rq_objname = [], rq_manage.rq_attr = []\<rparr>"
definition zero_message :: rq_message where
  "zero_message = \<lparr>rq_file = 0, rq_message.rq_jid = [], rq_text = None\<rparr>"
definition zero_move :: rq_move where
  "zero_move = \<lparr>rq_move.rq_jid = [], rq_move.rq_destin = []\<rparr>"
definition zero_runjob :: rq_runjob where
  "zero_runjob = \<lparr>rq_runjob.rq_jid = [], rq_runjob.rq_destin = None, rq_resch = 0\<rparr>"
definition zero_signal :: rq_signal where
  "zero_signal = \<lparr>rq_signal.rq_jid = [], rq_signame = []\<rparr>"
definition zero_status :: rq_status where
  "zero_status = \<lparr>rq_id = [], rq_status.rq_attr = []\<rparr>"
definition zero_track :: rq_track where
  "zero_track = \<lparr>rq_hopcount = 0, rq_track.rq_jid = [], rq_location = [], rq_state = 0\<rparr>"
definition zero_gpuctrl :: rq_gpuctrl where
  "zero_gpuctrl = \<lparr>rq_momnode = [], rq_gpuid = [], rq_gpumode = 0, rq_reset_perm = 0, rq_reset_vol = 0\<rparr>"
definition zero_register :: rq_register where
  "zero_register = \<lparr>rq_register.rq_owner = [], rq_svr = [], rq_parent = [], rq_child = [], rq_dependtype = 0,
     rq_op = 0, rq_cost = 0\<rparr>"
definition zero_authen :: rq_authen where
  "zero_authen = \<lparr>rq_port = 0, rq_cred = []\<rparr>"
definition zero_cpyfile :: rq_cpyfile where
  "zero_cpyfile = \<lparr>rq_cpyfile.rq_jobid = [], rq_cpyfile.rq_owner = [], rq_user = [], rq_group = [], rq_dir = 0,
     rq_pair = []\<rparr>"
definition zero_returnfiles :: rq_returnfiles where
  "zero_returnfiles = \<lparr>rq_returnfiles.rq_jobid = [], rq_return_stdout = 0, rq_return_stderr = 0\<rparr>"
definition zero_jobobit :: rq_jobobit where
  "zero_jobobit = \<lparr>rq_jobobit.rq_jid = [], rq_jobobit.rq_status = 0, rq_jobobit.rq_attr = []\<rparr>"

section \<open>The body\<close>

text \<open>
  The return code of a body decoder: a DIS code, or one of the two codes of the other kind that reach
  the same variable.
\<close>

datatype body_rc = Dis dis_rc | Body_UNKREQ | Body_RMSYSTEM

text \<open>
  A resource query.  The count is an \<open>int\<close>: the vector has \<open>ct\<close> pointers, all null at first, and the
  strings are read until one fails.
\<close>

fun decode_rescl_loop :: "nat \<Rightarrow> char list option list \<Rightarrow> char list option list reader" where
  "decode_rescl_loop 0 acc chan = (DIS_SUCCESS, acc, chan)"
| "decode_rescl_loop (Suc n) acc chan =
     (case disrst chan of (s, rc, chan1) \<Rightarrow>
        if rc \<noteq> DIS_SUCCESS then (rc, acc @ s # replicate n None, chan1)
        else decode_rescl_loop n (acc @ [s]) chan1)"

declare decode_rescl_loop.simps [simp del]

definition decode_DIS_Rescl :: "tcp_chan \<Rightarrow> body_rc \<times> rq_rescq \<times> tcp_chan" where
  "decode_DIS_Rescl chan =
     (case disrsi chan of (h, rc, chan1) \<Rightarrow>
        if rc \<noteq> DIS_SUCCESS then (Dis rc, \<lparr>rq_rhandle = h, rq_num = 0, rq_list = []\<rparr>, chan1)
        else (case disrui chan1 of (ct, rc, chan2) \<Rightarrow>
          if rc \<noteq> DIS_SUCCESS then (Dis rc, \<lparr>rq_rhandle = h, rq_num = 0, rq_list = []\<rparr>, chan2)
          else if ct = 0 then (Dis rc, \<lparr>rq_rhandle = h, rq_num = ct, rq_list = []\<rparr>, chan2)
          else if \<not> heap_ok chan2 (unat (scast ct :: c_ulong) * 8)
          then (Body_RMSYSTEM, \<lparr>rq_rhandle = h, rq_num = ct, rq_list = []\<rparr>, chan2)
          else (case decode_rescl_loop (nat (sint ct)) [] chan2 of (rc, l, chan3) \<Rightarrow>
            (Dis rc, \<lparr>rq_rhandle = h, rq_num = ct, rq_list = l\<rparr>, chan3))))"

definition body :: "('a \<Rightarrow> rq_ind) \<Rightarrow> dis_rc \<times> 'a \<times> tcp_chan \<Rightarrow> body_rc \<times> rq_ind \<times> tcp_chan" where
  "body f r = (case r of (rc, v, chan) \<Rightarrow> (Dis rc, f v, chan))"

text \<open>The cases both daemons have, then those of the server, then those of the execution daemon.\<close>

definition decode_common_body :: "bool \<Rightarrow> c_uint \<Rightarrow> tcp_chan \<Rightarrow> (body_rc \<times> rq_ind \<times> tcp_chan) option" where
  "decode_common_body junk t chan =
     (if t = PBS_BATCH_QueueJob \<or> t = PBS_BATCH_QueueJob2 then
        Some (body RQ_queuejob (decode_DIS_QueueJob zero_queuejob chan))
      else if t = PBS_BATCH_JobCred then Some (body RQ_jobcred (decode_DIS_JobCred junk zero_jobcred chan))
      else if t = PBS_BATCH_jobscript \<or> t = PBS_BATCH_jobscript2 \<or> t = PBS_BATCH_MvJobFile then
        Some (body RQ_jobfile (decode_DIS_JobFile junk zero_jobfile chan))
      else if t = PBS_BATCH_RdytoCommit \<or> t = PBS_BATCH_Commit \<or> t = PBS_BATCH_Commit2 \<or> t = PBS_BATCH_Rerun then
        Some (body RQ_commit (decode_DIS_JobId chan))
      else if t = PBS_BATCH_DeleteJob \<or> t = PBS_BATCH_HoldJob \<or> t = PBS_BATCH_CheckpointJob \<or>
              t = PBS_BATCH_ModifyJob \<or> t = PBS_BATCH_AsyModifyJob then
        Some (body RQ_manager (decode_DIS_Manage zero_manage chan))
      else if t = PBS_BATCH_MessJob then Some (body RQ_message (decode_DIS_MessageJob zero_message chan))
      else if t = PBS_BATCH_Shutdown then Some (body RQ_shutdown (decode_DIS_ShutDown chan))
      else if t = PBS_BATCH_SignalJob then Some (body RQ_signal (decode_DIS_SignalJob zero_signal chan))
      else if t = PBS_BATCH_StatusJob then Some (body RQ_status (decode_DIS_Status zero_status chan))
      else if t = PBS_BATCH_GpuCtrl then Some (body RQ_gpuctrl (decode_DIS_GpuCtrl zero_gpuctrl chan))
      else None)"

text \<open>\<open>SelStatAttr\<close> decodes two lists and keeps the code of the second one only.\<close>

definition decode_server_body :: "bool \<Rightarrow> c_uint \<Rightarrow> tcp_chan \<Rightarrow> (body_rc \<times> rq_ind \<times> tcp_chan) option" where
  "decode_server_body junk t chan =
     (if t = PBS_BATCH_LocateJob then Some (body RQ_locate (decode_DIS_JobId chan))
      else if t = PBS_BATCH_ModifyNode \<or> t = PBS_BATCH_Manager \<or> t = PBS_BATCH_ReleaseJob then
        Some (body RQ_manager (decode_DIS_Manage zero_manage chan))
      else if t = PBS_BATCH_MoveJob \<or> t = PBS_BATCH_OrderJob then
        Some (body RQ_move (decode_DIS_MoveJob zero_move chan))
      else if t = PBS_BATCH_RunJob \<or> t = PBS_BATCH_AsyrunJob \<or> t = PBS_BATCH_StageIn then
        Some (body RQ_run (decode_DIS_RunJob zero_runjob chan))
      else if t = PBS_BATCH_SelectJobs \<or> t = PBS_BATCH_SelStat then
        Some (body RQ_select (decode_DIS_svrattrl [] chan))
      else if t = PBS_BATCH_SelStatAttr then
        Some (case decode_DIS_svrattrl [] chan of (_, sel, chan1) \<Rightarrow>
                body (RQ_selstatattr sel) (decode_DIS_svrattrl [] chan1))
      else if t = PBS_BATCH_StatusNode \<or> t = PBS_BATCH_StatusQue \<or> t = PBS_BATCH_StatusSvr then
        Some (body RQ_status (decode_DIS_Status zero_status chan))
      else if t = PBS_BATCH_TrackJob then Some (body RQ_track (decode_DIS_TrackJob zero_track chan))
      else if t = PBS_BATCH_Rescq \<or> t = PBS_BATCH_ReserveResc \<or> t = PBS_BATCH_ReleaseResc then
        Some (case decode_DIS_Rescl chan of (rc, v, chan1) \<Rightarrow> (rc, RQ_rescq v, chan1))
      else if t = PBS_BATCH_RegistDep then Some (body RQ_register (decode_DIS_Register junk zero_register chan))
      else if t = PBS_BATCH_AuthenUser then Some (body RQ_authen (decode_DIS_Authen zero_authen chan))
      else if t = PBS_BATCH_AltAuthenUser then Some (body RQ_authen (decode_DIS_AltAuthen zero_authen chan))
      else if t = PBS_BATCH_JobObit then Some (body RQ_jobobit (decode_DIS_JobObit zero_jobobit chan))
      else None)"

definition decode_mom_body :: "c_uint \<Rightarrow> tcp_chan \<Rightarrow> (body_rc \<times> rq_ind \<times> tcp_chan) option" where
  "decode_mom_body t chan =
     (if t = PBS_BATCH_DeleteReservation then Some (Dis DIS_SUCCESS, RQ_zero, chan)
      else if t = PBS_BATCH_ReturnFiles then Some (body RQ_returnfiles (decode_DIS_ReturnFiles zero_returnfiles chan))
      else if t = PBS_BATCH_CopyFiles \<or> t = PBS_BATCH_DelFiles then
        Some (body RQ_cpyfile (decode_DIS_CopyFiles zero_cpyfile chan))
      else if t = PBS_BATCH_ChangePowerState then Some (body RQ_powerstate (decode_DIS_PowerState chan))
      else None)"

definition decode_body :: "bool \<Rightarrow> bool \<Rightarrow> c_uint \<Rightarrow> tcp_chan \<Rightarrow> body_rc \<times> rq_ind \<times> tcp_chan" where
  "decode_body mom junk t chan =
     (case decode_common_body junk t chan of
        Some r \<Rightarrow> r
      | None \<Rightarrow>
          (case (if mom then decode_mom_body t chan else decode_server_body junk t chan) of
             Some r \<Rightarrow> r
           | None \<Rightarrow> (Body_UNKREQ, RQ_zero, chan)))"

section \<open>The request reader\<close>

text \<open>The end of the stream is reported as \<open>EOF\<close>, which is \<open>-1\<close>.\<close>

definition dis_request_read :: "bool \<Rightarrow> bool \<Rightarrow> tcp_chan \<Rightarrow> batch_request \<Rightarrow> pbse \<times> batch_request \<times> tcp_chan" where
  "dis_request_read mom junk chan0 request =
     (let chan = (if mom then snd (snd (disrui chan0)) else chan0)
      in case decode_DIS_ReqHdr chan (br_type request) (br_user request) of
        (rc, (proto_type, proto_ver, t, user), chan1) \<Rightarrow>
          (let req1 = request\<lparr>br_type := t, br_user := user\<rparr>
           in if rc \<noteq> DIS_SUCCESS
              then ((if rc = DIS_EOF then PBSE_OTHER (- 1) else PBSE_DISPROTO), req1, chan1)
              else if proto_ver \<noteq> PBS_BATCH_PROT_VER then (PBSE_DISPROTO, req1, chan1)
              else if sint t < 0 \<or> sint PBS_BATCH_CEILING \<le> sint t then (PBSE_DISPROTO, req1, chan1)
              else if t = PBS_BATCH_Disconnect then (PBSE_SOCKET_CLOSE, req1, chan1)
              else (case decode_body mom junk t chan1 of (brc, ind, chan2) \<Rightarrow>
                (let req2 = req1\<lparr>br_ind := ind\<rparr>
                 in if brc = Dis DIS_SUCCESS
                    then (case decode_DIS_ReqExtend (br_extend req2) chan2 of (rc, ext, chan3) \<Rightarrow>
                      ((if rc \<noteq> DIS_SUCCESS then PBSE_DISPROTO else PBSE_NONE), req2\<lparr>br_extend := ext\<rparr>, chan3))
                    else ((if brc = Body_UNKREQ then PBSE_UNKREQ else PBSE_DISPROTO), req2, chan2)))))"

text \<open>
  The port of the server: the protocol type is read first, and a batch request is handed to the
  request reader; \<open>None\<close> stands for the other protocols.
\<close>

definition port_read :: "bool \<Rightarrow> tcp_chan \<Rightarrow> (pbse \<times> batch_request \<times> tcp_chan) option" where
  "port_read junk chan =
     (case disrui_peek chan of (protocol_type, rc, chan1) \<Rightarrow>
        if protocol_type = PBS_BATCH_PROT_TYPE then Some (dis_request_read False junk chan1 new_request) else None)"

section \<open>The senders\<close>

definition PBS_NET_MAX_CONNECTIONS :: int where "PBS_NET_MAX_CONNECTIONS = 65535"

text \<open>An entry of the connection table; \<open>ch_errtxt\<close> is the message of a DIS code.\<close>

record pbs_connection =
  ch_socket :: int
  ch_errtxt :: "dis_rc option"

record send_env =
  env_conns :: "int \<Rightarrow> pbs_connection"
  env_wr :: "sock_write list"
  env_heap :: "nat \<Rightarrow> bool"
  env_user :: "char list"

text \<open>
  The common part of the senders: the check of the handle, the channel, the three encoders and the
  flush; the result is the code, the connection table and the bytes the socket took.  The codes for
  a bad handle, for no channel and for a failed flush differ from sender to sender.
\<close>

definition encode_request :: "c_uint \<Rightarrow> char list \<Rightarrow> writer list \<Rightarrow> char list option \<Rightarrow> writer" where
  "encode_request t user b ext =
     wseq ((\<lambda>c. encode_DIS_ReqHdr c t user) # b @ [\<lambda>c. encode_DIS_ReqExtend c ext])"

definition put_request ::
  "pbse \<Rightarrow> pbse \<Rightarrow> pbse \<Rightarrow> send_env \<Rightarrow> int \<Rightarrow> writer \<Rightarrow> pbse \<times> (int \<Rightarrow> pbs_connection) \<times> char list" where
  "put_request badconn nochan noflush env c w =
     (let conns = env_conns env
      in if c < 0 \<or> PBS_NET_MAX_CONNECTIONS \<le> c then (badconn, conns, [])
         else (case DIS_tcp_setup (ch_socket (conns c)) [] (env_wr env) (env_heap env) of
                 None \<Rightarrow> (nochan, conns, [])
               | Some chan \<Rightarrow>
                   (case w chan of (rc, chan1) \<Rightarrow>
                      if rc \<noteq> DIS_SUCCESS
                      then (PBSE_PROTOCOL, conns(c := (conns c)\<lparr>ch_errtxt := Some rc\<rparr>), sock_out chan1)
                      else (case DIS_tcp_wflush chan1 of (n, chan2) \<Rightarrow>
                              ((if n \<noteq> 0 then noflush else PBSE_NONE), conns, sock_out chan2)))))"

definition PBSD_sig_put where
  "PBSD_sig_put env c jobid signal ext =
     put_request PBSE_IVALREQ PBSE_PROTOCOL PBSE_PROTOCOL env c
       (encode_request PBS_BATCH_SignalJob (env_user env) [\<lambda>ch. encode_DIS_SignalJob ch jobid signal] ext)"

definition PBSD_async_sig_put where
  "PBSD_async_sig_put env c jobid signal ext =
     put_request PBSE_IVALREQ PBSE_PROTOCOL PBSE_PROTOCOL env c
       (encode_request PBS_BATCH_SignalJob (env_user env) [\<lambda>ch. encode_DIS_SignalJob ch jobid signal] ext)"

definition PBSD_mgr_put where
  "PBSD_mgr_put env c function command objtype objname aoplp ext =
     put_request PBSE_BAD_PARAMETER PBSE_PROTOCOL PBSE_PROTOCOL env c
       (encode_request function (env_user env) [\<lambda>ch. encode_DIS_Manage ch command objtype objname aoplp] ext)"

text \<open>A failed flush of a status request is dropped: the code returned is \<open>PBSE_NONE\<close> all the same.\<close>

definition PBSD_status_put where
  "PBSD_status_put env c function objid attrib ext =
     put_request PBSE_IVALREQ PBSE_MEM_MALLOC PBSE_NONE env c
       (encode_request function (env_user env) [\<lambda>ch. encode_DIS_Status ch objid attrib] ext)"

definition PBSD_msg_put where
  "PBSD_msg_put env c jobid fileopt msg ext =
     put_request PBSE_IVALREQ PBSE_MEM_MALLOC PBSE_PROTOCOL env c
       (encode_request PBS_BATCH_MessJob (env_user env) [\<lambda>ch. encode_DIS_MessageJob ch jobid fileopt msg] ext)"

definition PBSD_gpu_put where
  "PBSD_gpu_put env c node gpuid gpumode reset_perm reset_vol ext =
     put_request PBSE_IVALREQ PBSE_PROTOCOL PBSE_PROTOCOL env c
       (encode_request PBS_BATCH_GpuCtrl (env_user env)
          [\<lambda>ch. encode_DIS_GpuCtrl ch node gpuid gpumode reset_perm reset_vol] ext)"

section \<open>Delivery\<close>

definition env_ok :: "send_env \<Rightarrow> int \<Rightarrow> bool" where
  "env_ok env c \<longleftrightarrow> 0 \<le> c \<and> c < PBS_NET_MAX_CONNECTIONS \<and> 0 \<le> ch_socket (env_conns env c) \<and>
     (\<forall>n. env_heap env n) \<and> Wr_Fail \<notin> set (env_wr env)"

lemma put_request_ok:
  assumes env: "env_ok env c" and w: "writes w bs"
  shows "put_request badconn nochan noflush env c w = (PBSE_NONE, env_conns env, bs)"
proof -
  have e: "0 \<le> c" "c < PBS_NET_MAX_CONNECTIONS" "0 \<le> ch_socket (env_conns env c)" "\<And>n. env_heap env n"
    "Wr_Fail \<notin> set (env_wr env)" using env by (simp_all add: env_ok_def)
  obtain chan where s: "DIS_tcp_setup (ch_socket (env_conns env c)) [] (env_wr env) (env_heap env) = Some chan"
    using e by (simp add: DIS_tcp_setup_def)
  note ch = setup_ok(1) [OF s e(4)] setup_views [OF s]
  obtain c1 where c1: "w chan = (DIS_SUCCESS, c1)" "wrote (DIS_SUCCESS, c1) chan bs" by (rule writesD [OF w ch(1)])
  have f: "wchan_ok c1" "wdata c1 = bs" "tdis_trailp (writebuf c1) = tdis_leadp (writebuf c1)"
    "sock_out c1 = []" "Wr_Fail \<notin> set (sock_wr c1)" using c1(2) ch e(5) by (simp_all add: wrote_def)
  obtain c2 where c2: "DIS_tcp_wflush c1 = (0, c2)"
    "sock_out c2 = sock_out c1 @ take (tdis_trailp (writebuf c1)) (wdata c1)"
    by (rule wflush_committed [OF f(1,5)])
  have "length (wdata c1) \<le> tdis_leadp (writebuf c1)" by (simp add: wdata_def)
  with c2(2) f(2-4) have "sock_out c2 = bs" by simp
  with c1(1) c2(1) s e(1,2) show ?thesis by (simp add: put_request_def Let_def)
qed

definition hdr_text :: "c_uint \<Rightarrow> char list \<Rightarrow> char list" where
  "hdr_text t user = num PBS_BATCH_PROT_VER @ num t @ dis_str user"

definition request_text :: "c_uint \<Rightarrow> char list \<Rightarrow> char list \<Rightarrow> char list option \<Rightarrow> char list" where
  "request_text t user bt ext = num PBS_BATCH_PROT_TYPE @ hdr_text t user @ bt @ ext_text ext"

lemma hdr_writes:
  "length user < 2 ^ 32 \<Longrightarrow> writes (\<lambda>c. encode_DIS_ReqHdr c t user) (num PBS_BATCH_PROT_TYPE @ hdr_text t user)"
  unfolding encode_DIS_ReqHdr_def hdr_text_def
  by (intro writes_cons writes_one writes_diswui writes_diswst)

lemma request_writes:
  assumes "text_upto PBS_MAXUSER user" and "ext_ok ext" and "writes b bt"
  shows "writes (encode_request t user [b] ext) (request_text t user bt ext)"
proof -
  have "writes (wseq [\<lambda>c. encode_DIS_ReqHdr c t user, b, \<lambda>c. encode_DIS_ReqExtend c ext])
    ((num PBS_BATCH_PROT_TYPE @ hdr_text t user) @ bt @ ext_text ext)"
    using assms by (intro writes_cons writes_one hdr_writes ext_writes) (simp_all add: text_upto_def)
  then show ?thesis by (simp add: encode_request_def request_text_def)
qed

text \<open>Reading a header does not depend on what was committed before, so it may follow the protocol type.\<close>

lemma disrui_num_got:
  assumes "rchan_ok c" and "pending c = num v @ t"
  obtains c' where "disrui c = (v, DIS_SUCCESS, c')" and "got c c' t"
proof -
  have "unat v < 2 ^ 32" using unsigned_less [of v] by simp
  from disrui_got [OF assms this] show ?thesis using that by auto
qed

lemma gotD: "got c c' t \<Longrightarrow> rchan_ok c'" "got c c' t \<Longrightarrow> uncommitted c' = []" "got c c' t \<Longrightarrow> pending c' = t"
  by (simp_all add: got_def)

lemma hdr_read_ver:
  assumes "rchan_ok c" and p: "pending c = num ver @ num t @ dis_str user @ rest" and "text_upto PBS_MAXUSER user"
  obtains c' where "decode_DIS_ReqHdr c t0 u0 = (DIS_SUCCESS, (PBS_BATCH_PROT_TYPE, ver, t, user), c')"
    and "got c c' rest"
proof -
  obtain c1 where c1: "disrui c = (ver, DIS_SUCCESS, c1)" "got c c1 (num t @ dis_str user @ rest)"
    by (rule disrui_num_got [OF assms(1) p])
  obtain c2 where c2: "disrui c1 = (t, DIS_SUCCESS, c2)" "got c1 c2 (dis_str user @ rest)"
    by (rule disrui_num_got [OF gotD(1,3) [OF c1(2)]])
  obtain c3 where c3: "disrfst c2 PBS_MAXUSER = (DIS_SUCCESS, user, c3)" "got c2 c3 rest"
    by (rule readsD [OF reads_fst [OF assms(3)] gotD [OF c2(2)]])
  have "got c c3 rest" using got_trans [OF got_trans [OF c1(2) c2(2)] c3(2)] .
  then show ?thesis using that by (simp add: decode_DIS_ReqHdr_def c1(1) c2(1) c3(1))
qed

lemma hdr_read:
  assumes "rchan_ok c" and "pending c = hdr_text t user @ rest" and "text_upto PBS_MAXUSER user"
  obtains c' where "decode_DIS_ReqHdr c t0 u0 = (DIS_SUCCESS, (PBS_BATCH_PROT_TYPE, PBS_BATCH_PROT_VER, t, user), c')"
    and "got c c' rest"
proof -
  have p: "pending c = num PBS_BATCH_PROT_VER @ num t @ dis_str user @ rest" using assms(2) by (simp add: hdr_text_def)
  show ?thesis using that by (rule hdr_read_ver [OF assms(1) p assms(3)])
qed

definition body_reads :: "(tcp_chan \<Rightarrow> body_rc \<times> rq_ind \<times> tcp_chan) \<Rightarrow> char list \<Rightarrow> rq_ind \<Rightarrow> bool" where
  "body_reads D bt ind \<longleftrightarrow>
     (\<forall>c t. rchan_ok c \<longrightarrow> uncommitted c = [] \<longrightarrow> pending c = bt @ t \<longrightarrow>
        (\<exists>c'. D c = (Dis DIS_SUCCESS, ind, c') \<and> got c c' t))"

lemma body_readsI:
  assumes "reads d bt v" and "\<And>c. D c = body F (d c)"
  shows "body_reads D bt (F v)"
  unfolding body_reads_def
proof (intro allI impI)
  fix c t
  assume c: "rchan_ok c" "uncommitted c = []" "pending c = bt @ t"
  show "\<exists>c'. D c = (Dis DIS_SUCCESS, F v, c') \<and> got c c' t"
    by (rule readsD [OF assms(1) c]) (simp add: assms(2) body_def)
qed

lemma body_readsD:
  assumes "body_reads D bt ind" and "rchan_ok c" and "uncommitted c = []" and "pending c = bt @ t"
  obtains c' where "D c = (Dis DIS_SUCCESS, ind, c')" and "got c c' t"
  using assms unfolding body_reads_def by blast

lemma request_read:
  assumes c: "rchan_ok c" "pending c = hdr_text t user @ bt @ ext_text ext @ rest"
    and c0: "(if mom then snd (snd (disrui c0)) else c0) = c"
    and v: "text_upto PBS_MAXUSER user" "ext_ok ext"
    and t: "0 \<le> sint t" "sint t < sint PBS_BATCH_CEILING" "t \<noteq> PBS_BATCH_Disconnect"
    and d: "body_reads (decode_body mom junk t) bt ind"
  shows "\<exists>c'. dis_request_read mom junk c0 new_request =
    (PBSE_NONE, \<lparr>br_type = t, br_user = user, br_extend = ext_got None ext, br_ind = ind\<rparr>, c') \<and> pending c' = rest"
proof -
  obtain c1 where c1: "decode_DIS_ReqHdr c (- 1) [] =
      (DIS_SUCCESS, (PBS_BATCH_PROT_TYPE, PBS_BATCH_PROT_VER, t, user), c1)" "got c c1 (bt @ ext_text ext @ rest)"
    by (rule hdr_read [OF c v(1)])
  obtain c2 where c2: "decode_body mom junk t c1 = (Dis DIS_SUCCESS, ind, c2)" "got c1 c2 (ext_text ext @ rest)"
    by (rule body_readsD [OF d gotD [OF c1(2)]])
  obtain c3 where c3: "decode_DIS_ReqExtend None c2 = (DIS_SUCCESS, ext_got None ext, c3)" "got c2 c3 rest"
    by (rule readsD [OF ext_reads [OF v(2)] gotD [OF c2(2)]])
  show ?thesis unfolding dis_request_read_def c0 Let_def
    using t gotD(3) [OF c3(2)] by (simp add: c1(1) c2(1) new_request_def c3(1))
qed

text \<open>The server's port and the execution daemon on the bytes of a request.\<close>

lemma port_read_request:
  assumes c: "rchan_ok c" "pending c = request_text t user bt ext @ rest"
    and v: "text_upto PBS_MAXUSER user" "ext_ok ext"
    and t: "0 \<le> sint t" "sint t < sint PBS_BATCH_CEILING" "t \<noteq> PBS_BATCH_Disconnect"
    and d: "body_reads (decode_body False junk t) bt ind"
  shows "\<exists>c'. port_read junk c =
    Some (PBSE_NONE, \<lparr>br_type = t, br_user = user, br_extend = ext_got None ext, br_ind = ind\<rparr>, c') \<and> pending c' = rest"
proof -
  have p: "pending c = dis_num (CHR ''+'') 2 @ (hdr_text t user @ bt @ ext_text ext @ rest)"
    using c(2) by (simp add: request_text_def PBS_BATCH_PROT_TYPE_def)
  obtain c1 where c1: "disrsi_0 c False 0 1 = (DIS_SUCCESS, False, of_nat 2, c1)"
    "read_step c c1 (hdr_text t user @ bt @ ext_text ext @ rest)"
    by (rule disrsi_num_ok [OF c(1) p, of False 0]) simp_all
  then have pk: "disrui_peek c = (PBS_BATCH_PROT_TYPE, DIS_SUCCESS, c1)"
    by (simp add: disrui_peek_def PBS_BATCH_PROT_TYPE_def)
  have r1: "rchan_ok c1" "pending c1 = hdr_text t user @ bt @ ext_text ext @ rest"
    using c1(2) by (simp_all add: read_step_def)
  have z: "(if False then snd (snd (disrui c1)) else c1) = c1" by simp
  show ?thesis using request_read [OF r1 z v t d] by (simp add: port_read_def pk)
qed

lemma mom_read_request:
  assumes c: "rchan_ok c" "pending c = request_text t user bt ext @ rest"
    and v: "text_upto PBS_MAXUSER user" "ext_ok ext"
    and t: "0 \<le> sint t" "sint t < sint PBS_BATCH_CEILING" "t \<noteq> PBS_BATCH_Disconnect"
    and d: "body_reads (decode_body True junk t) bt ind"
  shows "\<exists>c'. dis_request_read True junk c new_request =
    (PBSE_NONE, \<lparr>br_type = t, br_user = user, br_extend = ext_got None ext, br_ind = ind\<rparr>, c') \<and> pending c' = rest"
proof -
  have p: "pending c = num PBS_BATCH_PROT_TYPE @ (hdr_text t user @ bt @ ext_text ext @ rest)"
    using c(2) by (simp add: request_text_def)
  obtain c1 where c1: "disrui c = (PBS_BATCH_PROT_TYPE, DIS_SUCCESS, c1)"
    "got c c1 (hdr_text t user @ bt @ ext_text ext @ rest)" by (rule disrui_num_got [OF c(1) p])
  have z: "(if True then snd (snd (disrui c)) else c) = c1" by (simp add: c1(1))
  show ?thesis by (rule request_read [OF gotD(1,3) [OF c1(2)] z v t d])
qed

section \<open>From a client to the server\<close>

text \<open>The requests the senders put on the wire.\<close>

datatype client_req =
    C_signal "char list" "char list"
  | C_manage c_uint c_uint c_uint "char list" "attropl list"
  | C_status c_uint "char list" "attropl list"
  | C_message "char list" c_uint "char list"

fun client_put :: "send_env \<Rightarrow> int \<Rightarrow> client_req \<Rightarrow> char list option \<Rightarrow> pbse \<times> (int \<Rightarrow> pbs_connection) \<times> char list" where
  "client_put env c (C_signal j s) ext = PBSD_sig_put env c j s ext"
| "client_put env c (C_manage t cmd ty nm a) ext = PBSD_mgr_put env c t cmd ty nm a ext"
| "client_put env c (C_status t i a) ext = PBSD_status_put env c t i a ext"
| "client_put env c (C_message j f m) ext = PBSD_msg_put env c j f m ext"

fun client_type :: "client_req \<Rightarrow> c_uint" where
  "client_type (C_signal j s) = PBS_BATCH_SignalJob"
| "client_type (C_manage t cmd ty nm a) = t"
| "client_type (C_status t i a) = t"
| "client_type (C_message j f m) = PBS_BATCH_MessJob"

definition manage_types :: "c_uint list" where
  "manage_types = [PBS_BATCH_DeleteJob, PBS_BATCH_HoldJob, PBS_BATCH_CheckpointJob, PBS_BATCH_ModifyJob,
     PBS_BATCH_AsyModifyJob, PBS_BATCH_ModifyNode, PBS_BATCH_Manager, PBS_BATCH_ReleaseJob]"

definition status_types :: "c_uint list" where
  "status_types = [PBS_BATCH_StatusJob, PBS_BATCH_StatusNode, PBS_BATCH_StatusQue, PBS_BATCH_StatusSvr]"

fun client_ok :: "client_req \<Rightarrow> bool" where
  "client_ok (C_signal j s) = signal_ok (j, s)"
| "client_ok (C_manage t cmd ty nm a) \<longleftrightarrow> t \<in> set manage_types \<and> manage_ok (cmd, ty, nm, a)"
| "client_ok (C_status t i a) \<longleftrightarrow> t \<in> set status_types \<and> status_ok (i, a)"
| "client_ok (C_message j f m) = message_ok (j, f, m)"

fun client_ind :: "client_req \<Rightarrow> rq_ind" where
  "client_ind (C_signal j s) = RQ_signal (signal_got zero_signal (j, s))"
| "client_ind (C_manage t cmd ty nm a) = RQ_manager (manage_got zero_manage (cmd, ty, nm, a))"
| "client_ind (C_status t i a) = RQ_status (status_got zero_status (i, a))"
| "client_ind (C_message j f m) = RQ_message (message_got zero_message (j, f, m))"

fun client_body :: "client_req \<Rightarrow> char list" where
  "client_body (C_signal j s) = signal_text (j, s)"
| "client_body (C_manage t cmd ty nm a) = manage_text (cmd, ty, nm, a)"
| "client_body (C_status t i a) = status_text (i, a)"
| "client_body (C_message j f m) = message_text (j, f, m)"

lemma client_put_sends:
  assumes "env_ok env c" and "text_upto PBS_MAXUSER (env_user env)" and "ext_ok ext" and "client_ok r"
  shows "client_put env c r ext = (PBSE_NONE, env_conns env, request_text (client_type r) (env_user env) (client_body r) ext)"
proof (cases r)
  case (C_signal j s)
  then have "signal_ok (j, s)" using assms(4) by simp
  from put_request_ok [OF assms(1) request_writes [OF assms(2,3) signal_writes [OF this, unfolded prod.case]]]
  show ?thesis unfolding C_signal client_put.simps client_type.simps client_body.simps
    by (simp only: PBSD_sig_put_def)
next
  case (C_manage t cmd ty nm a)
  then have "manage_ok (cmd, ty, nm, a)" using assms(4) by simp
  from put_request_ok [OF assms(1) request_writes [OF assms(2,3) manage_writes [OF this, unfolded prod.case]]]
  show ?thesis unfolding C_manage client_put.simps client_type.simps client_body.simps
    by (simp only: PBSD_mgr_put_def)
next
  case (C_status t i a)
  then have "status_ok (i, a)" using assms(4) by simp
  from put_request_ok [OF assms(1) request_writes [OF assms(2,3) status_writes [OF this, unfolded prod.case]]]
  show ?thesis unfolding C_status client_put.simps client_type.simps client_body.simps
    by (simp only: PBSD_status_put_def)
next
  case (C_message j f m)
  then have "message_ok (j, f, m)" using assms(4) by simp
  from put_request_ok [OF assms(1) request_writes [OF assms(2,3) message_writes [OF this, unfolded prod.case]]]
  show ?thesis unfolding C_message client_put.simps client_type.simps client_body.simps
    by (simp only: PBSD_msg_put_def)
qed

lemma client_type_range:
  assumes "client_ok r"
  shows "0 \<le> sint (client_type r)" "sint (client_type r) < sint PBS_BATCH_CEILING" "client_type r \<noteq> PBS_BATCH_Disconnect"
  using assms by (cases r; auto simp: manage_types_def status_types_def req_type_defs)+

lemma manage_body: "t \<in> set manage_types \<Longrightarrow> decode_body False junk t c = body RQ_manager (decode_DIS_Manage zero_manage c)"
  by (auto simp: manage_types_def decode_body_def decode_common_body_def decode_server_body_def req_type_defs)

lemma status_body: "t \<in> set status_types \<Longrightarrow> decode_body False junk t c = body RQ_status (decode_DIS_Status zero_status c)"
  by (auto simp: status_types_def decode_body_def decode_common_body_def decode_server_body_def req_type_defs)

lemma signal_body: "decode_body mom junk PBS_BATCH_SignalJob c = body RQ_signal (decode_DIS_SignalJob zero_signal c)"
  by (simp add: decode_body_def decode_common_body_def req_type_defs)

lemma message_body: "decode_body mom junk PBS_BATCH_MessJob c = body RQ_message (decode_DIS_MessageJob zero_message c)"
  by (simp add: decode_body_def decode_common_body_def req_type_defs)

lemma client_body_reads:
  assumes "client_ok r"
  shows "body_reads (decode_body False junk (client_type r)) (client_body r) (client_ind r)"
proof (cases r)
  case (C_signal j s)
  then have "signal_ok (j, s)" using assms by simp
  from body_readsI [OF signal_reads [OF this] signal_body]
  show ?thesis unfolding C_signal client_type.simps client_body.simps client_ind.simps .
next
  case (C_manage t cmd ty nm a)
  then have "manage_ok (cmd, ty, nm, a)" "t \<in> set manage_types" using assms by simp_all
  from body_readsI [OF manage_reads [OF this(1)] manage_body [OF this(2)]]
  show ?thesis unfolding C_manage client_type.simps client_body.simps client_ind.simps .
next
  case (C_status t i a)
  then have "status_ok (i, a)" "t \<in> set status_types" using assms by simp_all
  from body_readsI [OF status_reads [OF this(1)] status_body [OF this(2)]]
  show ?thesis unfolding C_status client_type.simps client_body.simps client_ind.simps .
next
  case (C_message j f m)
  then have "message_ok (j, f, m)" using assms by simp
  from body_readsI [OF message_reads [OF this] message_body]
  show ?thesis unfolding C_message client_type.simps client_body.simps client_ind.simps .
qed

section \<open>From the server to an execution daemon or another server\<close>

text \<open>
  The requests that \<open>send_request_to_remote_server\<close> of \<open>server/issue_request.c\<close> encodes itself, with the
  name of the daemon as the user: header, body, extension, flush.
\<close>

definition remote_encode :: "char list \<Rightarrow> batch_request \<Rightarrow> writer option" where
  "remote_encode daemon req =
     (let t = br_type req
      in if t = PBS_BATCH_DeleteReservation then Some (encode_request t daemon [] (br_extend req))
         else (case br_ind req of
             RQ_commit j \<Rightarrow>
               if t = PBS_BATCH_Rerun then Some (encode_request t daemon [\<lambda>c. encode_DIS_JobId c j] None) else None
           | RQ_register r \<Rightarrow>
               if t = PBS_BATCH_RegistDep then Some (encode_request t daemon [\<lambda>c. encode_DIS_Register c r] None) else None
           | RQ_track r \<Rightarrow>
               if t = PBS_BATCH_TrackJob then Some (encode_request t daemon [\<lambda>c. encode_DIS_TrackJob c r] None) else None
           | RQ_returnfiles r \<Rightarrow>
               if t = PBS_BATCH_ReturnFiles then Some (encode_request t daemon [\<lambda>c. encode_DIS_ReturnFiles c r] None)
               else None
           | RQ_cpyfile r \<Rightarrow>
               if t = PBS_BATCH_CopyFiles \<or> t = PBS_BATCH_DelFiles
               then Some (encode_request t daemon [\<lambda>c. encode_DIS_CopyFiles c r] None) else None
           | RQ_powerstate p \<Rightarrow>
               if t = PBS_BATCH_ChangePowerState
               then Some (encode_request t daemon [\<lambda>c. encode_DIS_PowerState c (ucast p)] (br_extend req)) else None
           | _ \<Rightarrow> None))"

text \<open>Which of them an execution daemon decodes, and which strings fit.\<close>

definition remote_ext :: "batch_request \<Rightarrow> char list option" where
  "remote_ext req = (if br_type req = PBS_BATCH_DeleteReservation \<or> br_type req = PBS_BATCH_ChangePowerState
     then br_extend req else None)"

fun remote_ok :: "batch_request \<Rightarrow> bool" where
  "remote_ok req \<longleftrightarrow> ext_ok (remote_ext req) \<and>
     (case br_ind req of
        RQ_commit j \<Rightarrow> br_type req = PBS_BATCH_Rerun \<and> text_upto PBS_MAXSVRJOBID j
      | RQ_register r \<Rightarrow> br_type req = PBS_BATCH_RegistDep \<and> register_ok r \<and> rq_svr r = []
      | RQ_track r \<Rightarrow> br_type req = PBS_BATCH_TrackJob \<and> track_ok r
      | RQ_returnfiles r \<Rightarrow> br_type req = PBS_BATCH_ReturnFiles \<and> returnfiles_ok r
      | RQ_cpyfile r \<Rightarrow> (br_type req = PBS_BATCH_CopyFiles \<or> br_type req = PBS_BATCH_DelFiles) \<and> copyfiles_ok r
      | RQ_powerstate p \<Rightarrow> br_type req = PBS_BATCH_ChangePowerState \<and> unat p < 2 ^ 16
      | RQ_zero \<Rightarrow> br_type req = PBS_BATCH_DeleteReservation
      | _ \<Rightarrow> False)"

fun remote_body :: "rq_ind \<Rightarrow> char list" where
  "remote_body (RQ_commit j) = dis_str j"
| "remote_body (RQ_register r) = register_text r"
| "remote_body (RQ_track r) = track_text r"
| "remote_body (RQ_returnfiles r) = returnfiles_text r"
| "remote_body (RQ_cpyfile r) = copyfiles_text r"
| "remote_body (RQ_powerstate p) = num p"
| "remote_body _ = []"

fun remote_ind :: "rq_ind \<Rightarrow> rq_ind" where
  "remote_ind (RQ_cpyfile r) = RQ_cpyfile (copyfiles_got r)"
| "remote_ind i = i"

definition for_server :: "batch_request \<Rightarrow> bool" where
  "for_server req \<longleftrightarrow> br_type req = PBS_BATCH_RegistDep \<or> br_type req = PBS_BATCH_TrackJob"

lemma request_writes_nil:
  assumes "text_upto PBS_MAXUSER user" and "ext_ok ext"
  shows "writes (encode_request t user [] ext) (request_text t user [] ext)"
proof -
  have "writes (wseq [\<lambda>c. encode_DIS_ReqHdr c t user, \<lambda>c. encode_DIS_ReqExtend c ext])
    ((num PBS_BATCH_PROT_TYPE @ hdr_text t user) @ ext_text ext)"
    using assms by (intro writes_cons writes_one hdr_writes ext_writes) (simp_all add: text_upto_def)
  then show ?thesis by (simp add: encode_request_def request_text_def)
qed

lemma ucast_16_32: "unat (p :: c_uint) < 2 ^ 16 \<Longrightarrow> ucast (ucast p :: 16 word) = p"
  by (rule word_unat_eq_iff [THEN iffD2]) (simp add: unsigned_ucast_eq take_bit_eq_mod unat_mod)

lemma powerstate_writes: "unat p < 2 ^ 16 \<Longrightarrow> writes (\<lambda>c. encode_DIS_PowerState c (ucast p)) (num p)"
  using writes_diswui [of p] by (simp add: encode_DIS_PowerState_def ucast_16_32)

lemma jobid_writes: "text_upto PBS_MAXSVRJOBID j \<Longrightarrow> writes (\<lambda>c. encode_DIS_JobId c j) (dis_str j)"
  using writes_diswst [of j] by (simp add: encode_DIS_JobId_def text_upto_def)

lemma ext_ok_None: "ext_ok None"
  by (simp add: ext_ok_def opt_str_def any_text_def)

lemma remote_writes:
  assumes "remote_ok req" and "text_upto PBS_MAXUSER daemon"
  obtains w where "remote_encode daemon req = Some w"
    and "writes w (request_text (br_type req) daemon (remote_body (br_ind req)) (remote_ext req))"
proof -
  note d = assms(2)
  note one = request_writes [OF d ext_ok_None]
  have "\<exists>w. remote_encode daemon req = Some w \<and>
    writes w (request_text (br_type req) daemon (remote_body (br_ind req)) (remote_ext req))"
    using assms(1) one [OF jobid_writes] one [OF register_writes] one [OF track_writes] one [OF returnfiles_writes]
      one [OF copyfiles_writes] request_writes [OF d _ powerstate_writes] request_writes_nil [OF d]
    by (auto simp: remote_encode_def Let_def remote_ext_def req_type_defs split: rq_ind.splits)
  then show ?thesis using that by blast
qed

lemma remote_bodies:
  "decode_body mom junk PBS_BATCH_Rerun c = body RQ_commit (decode_DIS_JobId c)"
  "decode_body True junk PBS_BATCH_ReturnFiles c = body RQ_returnfiles (decode_DIS_ReturnFiles zero_returnfiles c)"
  "decode_body True junk PBS_BATCH_CopyFiles c = body RQ_cpyfile (decode_DIS_CopyFiles zero_cpyfile c)"
  "decode_body True junk PBS_BATCH_DelFiles c = body RQ_cpyfile (decode_DIS_CopyFiles zero_cpyfile c)"
  "decode_body True junk PBS_BATCH_ChangePowerState c = body RQ_powerstate (decode_DIS_PowerState c)"
  "decode_body True junk PBS_BATCH_DeleteReservation c = body (\<lambda>_. RQ_zero) (fin () c)"
  "decode_body False junk PBS_BATCH_RegistDep c = body RQ_register (decode_DIS_Register junk zero_register c)"
  "decode_body False junk PBS_BATCH_TrackJob c = body RQ_track (decode_DIS_TrackJob zero_track c)"
  by (simp_all add: decode_body_def decode_common_body_def decode_mom_body_def decode_server_body_def req_type_defs
      body_def fin_def)

lemma jobid_reads: "text_upto PBS_MAXSVRJOBID j \<Longrightarrow> reads decode_DIS_JobId (dis_str j) j"
  using reads_fst [of PBS_MAXSVRJOBID j] by (simp add: decode_DIS_JobId_def [abs_def])

lemma powerstate_reads: "reads decode_DIS_PowerState (num p) p"
  using reads_ui [of p] by (simp add: decode_DIS_PowerState_def [abs_def])

lemma remote_type_range:
  assumes "remote_ok req"
  shows "0 \<le> sint (br_type req)" "sint (br_type req) < sint PBS_BATCH_CEILING" "br_type req \<noteq> PBS_BATCH_Disconnect"
  using assms by (auto simp: req_type_defs split: rq_ind.splits)

text \<open>The body decoder selected for the request gets the body back.\<close>

lemma register_got_id: "rq_svr r = [] \<Longrightarrow> register_got zero_register r = r"
  by (simp add: register_got_def zero_register_def)

lemma remote_body_read:
  assumes ok: "remote_ok req" and mom: "mom \<longleftrightarrow> \<not> for_server req"
  shows "body_reads (decode_body mom junk (br_type req)) (remote_body (br_ind req)) (remote_ind (br_ind req))"
proof (cases "br_ind req")
  case RQ_zero
  with ok mom show ?thesis using body_readsI [OF reads_fin remote_bodies(6)]
    by (simp add: for_server_def req_type_defs)
next
  case (RQ_commit j)
  with ok show ?thesis using body_readsI [OF jobid_reads remote_bodies(1)] by simp
next
  case (RQ_register r)
  then have r: "register_ok r" "rq_svr r = []" "br_type req = PBS_BATCH_RegistDep" using ok by simp_all
  show ?thesis using body_readsI [OF register_reads [OF r(1), of junk zero_register] remote_bodies(7)] mom RQ_register
    by (simp add: for_server_def r(3) register_got_id [OF r(2)])
next
  case (RQ_track r)
  with ok mom show ?thesis using body_readsI [OF track_reads remote_bodies(8)] by (simp add: for_server_def)
next
  case (RQ_returnfiles r)
  with ok mom show ?thesis using body_readsI [OF returnfiles_reads remote_bodies(2)]
    by (simp add: for_server_def req_type_defs returnfiles_got_def)
next
  case (RQ_cpyfile r)
  with ok mom show ?thesis using body_readsI [OF copyfiles_reads remote_bodies(3)] body_readsI [OF copyfiles_reads remote_bodies(4)]
    by (auto simp: for_server_def req_type_defs)
next
  case (RQ_powerstate p)
  with ok mom show ?thesis using body_readsI [OF powerstate_reads remote_bodies(5)]
    by (simp add: for_server_def req_type_defs)
qed (use ok in simp_all)

section \<open>Properties\<close>

text \<open>
  C1: a request that a client puts on a healthy connection (signal, manage, status, message) is the
  request the server reads from its port, whatever portions the two sockets move it in: the type, the
  user, the extension and the body are those the client gave, the senders report success, and what
  the client sends next is left unread.
\<close>

theorem client_delivery:
  assumes "env_ok env c" and "text_upto PBS_MAXUSER (env_user env)" and "ext_ok ext" and "client_ok r"
    and "DIS_tcp_setup fd inp wrs heap = Some cr" and "\<And>n. heap n"
    and "NUL \<notin> set (all_in inp) \<or> length (all_in inp) < THE_BUF_SIZE"
    and "incoming inp = snd (snd (client_put env c r ext)) @ rest"
  shows "fst (client_put env c r ext) = PBSE_NONE \<and>
    (\<exists>c'. port_read junk cr =
       Some (PBSE_NONE, \<lparr>br_type = client_type r, br_user = env_user env, br_extend = ext_got None ext,
                         br_ind = client_ind r\<rparr>, c') \<and> pending c' = rest)"
proof -
  note put = client_put_sends [OF assms(1-4)]
  have cr: "rchan_ok cr" "pending cr = request_text (client_type r) (env_user env) (client_body r) ext @ rest"
    using setup_ok(2) [OF assms(5-7)] setup_views [OF assms(5)] assms(8) put by simp_all
  show ?thesis
    using port_read_request [OF cr assms(2,3) client_type_range [OF assms(4)] client_body_reads [OF assms(4)]] put
    by simp
qed

definition demo_env :: send_env where
  "demo_env = \<lparr>env_conns = (\<lambda>_. \<lparr>ch_socket = 5, ch_errtxt = None\<rparr>), env_wr = [Wrote 3, Wr_EINTR],
     env_heap = (\<lambda>_. True), env_user = ''root''\<rparr>"

definition demo_signal :: "char list" where
  "demo_signal = snd (snd (client_put demo_env 0 (C_signal ''12.srv'' ''SIGTERM'') None))"

lemma demo_env_ok: "env_ok demo_env 0"
  by (simp add: env_ok_def demo_env_def PBS_NET_MAX_CONNECTIONS_def)

lemma demo_text_ok:
  "text_upto PBS_MAXUSER ''root''" "client_ok (C_signal ''12.srv'' ''SIGTERM'')" "env_user demo_env = ''root''"
  by (simp_all add: text_upto_def PBS_MAXUSER_def PBS_MAXSVRJOBID_def PBS_MAXSEQNUM_def PBS_SIGNAMESZ_def demo_env_def)

lemma demo_signal_text:
  "demo_signal = ''+2+22+18+4root+612.srv+7SIGTERM+0''"
  using client_put_sends [OF demo_env_ok _ ext_ok_None demo_text_ok(2)] demo_text_ok
  by (simp add: demo_signal_def request_text_def hdr_text_def ext_text_def opt_str_def dis_str_def dis_num_def
      dec.simps dis_prefix.simps PBS_BATCH_PROT_TYPE_def PBS_BATCH_PROT_VER_def PBS_BATCH_SignalJob_def dec_simps)

theorem client_delivery_witness:
  "\<exists>c'. port_read True (the (DIS_tcp_setup 7 [Sock_Data (take 5 demo_signal), Sock_Data (drop 5 demo_signal)] [] (\<lambda>_. True))) =
     Some (PBSE_NONE, \<lparr>br_type = PBS_BATCH_SignalJob, br_user = ''root'', br_extend = None,
       br_ind = RQ_signal \<lparr>rq_signal.rq_jid = ''12.srv'', rq_signame = ''SIGTERM''\<rparr>\<rparr>, c') \<and> pending c' = []"
proof -
  let ?inp = "[Sock_Data (take 5 demo_signal), Sock_Data (drop 5 demo_signal)]"
  have s: "DIS_tcp_setup 7 ?inp [] (\<lambda>_. True) = Some (the (DIS_tcp_setup 7 ?inp [] (\<lambda>_. True)))"
    by (simp add: DIS_tcp_setup_def)
  have c: "NUL \<notin> set (all_in ?inp) \<or> length (all_in ?inp) < THE_BUF_SIZE" by (simp add: demo_signal_text)
  have i: "incoming ?inp = snd (snd (client_put demo_env 0 (C_signal ''12.srv'' ''SIGTERM'') None)) @ []"
    by (simp add: demo_signal_def)
  have u: "text_upto PBS_MAXUSER (env_user demo_env)" using demo_text_ok by simp
  show ?thesis using client_delivery [OF demo_env_ok u ext_ok_None demo_text_ok(2) s _ c i, of True]
    by (simp add: demo_text_ok(3) ext_got_def opt_str_def zero_signal_def)
qed

lemma writes_flushed:
  assumes w: "DIS_tcp_setup fd [] wrs heap = Some cw" "\<And>n. heap n" "Wr_Fail \<notin> set wrs" and wr: "writes wr bs"
  shows "fst (wr cw) = DIS_SUCCESS" and "sock_out (snd (DIS_tcp_wflush (snd (wr cw)))) = bs"
proof -
  have "wchan_ok cw" by (rule setup_ok(1) [OF w(1,2)])
  then obtain c1 where c1: "wr cw = (DIS_SUCCESS, c1)" "wrote (DIS_SUCCESS, c1) cw bs" by (rule writesD [OF wr])
  have f: "wchan_ok c1" "wdata c1 = bs" "tdis_trailp (writebuf c1) = tdis_leadp (writebuf c1)"
    "sock_out c1 = []" "Wr_Fail \<notin> set (sock_wr c1)" using c1(2) setup_views [OF w(1)] w(3) by (simp_all add: wrote_def)
  obtain c2 where c2: "DIS_tcp_wflush c1 = (0, c2)"
    "sock_out c2 = sock_out c1 @ take (tdis_trailp (writebuf c1)) (wdata c1)" by (rule wflush_committed [OF f(1,5)])
  have "length (wdata c1) \<le> tdis_leadp (writebuf c1)" by (simp add: wdata_def)
  with c2 f(2-4) c1(1) show "fst (wr cw) = DIS_SUCCESS" "sock_out (snd (DIS_tcp_wflush (snd (wr cw)))) = bs" by simp_all
qed

text \<open>
  C2: a request that the server encodes for an execution daemon or for another server (rerun, register
  dependency, track, return files, copy and delete files, delete reservation, power state) is the
  request that the receiver's \<open>dis_request_read\<close> returns: an execution daemon reads the protocol type
  itself, a server has it read by its port.  The names of the pairs of files that were null arrive empty.
\<close>

theorem remote_delivery:
  assumes ok: "remote_ok req" and d: "text_upto PBS_MAXUSER daemon"
    and w: "DIS_tcp_setup fd [] wrs heap = Some cw" "\<And>n. heap n" "Wr_Fail \<notin> set wrs"
    and r: "DIS_tcp_setup fd' inp wrs' heap' = Some cr" "\<And>n. heap' n"
      "NUL \<notin> set (all_in inp) \<or> length (all_in inp) < THE_BUF_SIZE"
    and inp: "incoming inp = sock_out (snd (DIS_tcp_wflush (snd (the (remote_encode daemon req) cw)))) @ rest"
  shows "fst (the (remote_encode daemon req) cw) = DIS_SUCCESS \<and>
    (\<exists>c'. (if for_server req then the (port_read junk cr) else dis_request_read True junk cr new_request) =
       (PBSE_NONE, \<lparr>br_type = br_type req, br_user = daemon, br_extend = ext_got None (remote_ext req),
                    br_ind = remote_ind (br_ind req)\<rparr>, c') \<and> pending c' = rest)"
proof -
  let ?t = "request_text (br_type req) daemon (remote_body (br_ind req)) (remote_ext req)"
  obtain wr where wr: "remote_encode daemon req = Some wr" "writes wr ?t" by (rule remote_writes [OF ok d])
  note sent = writes_flushed [OF w wr(2)]
  have cr: "rchan_ok cr" "pending cr = ?t @ rest"
    using setup_ok(2) [OF r] setup_views [OF r(1)] inp wr(1) sent(2) by simp_all
  have e: "ext_ok (remote_ext req)" using ok by simp
  note body = remote_body_read [OF ok]
  note rg = remote_type_range [OF ok]
  show ?thesis
  proof (cases "for_server req")
    case True
    then show ?thesis using port_read_request [OF cr d e rg body [of False junk]] wr(1) sent(1) by auto
  next
    case False
    then show ?thesis using mom_read_request [OF cr d e rg body [of True junk]] wr(1) sent(1) by auto
  qed
qed

definition demo_track :: batch_request where
  "demo_track = \<lparr>br_type = PBS_BATCH_TrackJob, br_user = [], br_extend = None,
     br_ind = RQ_track \<lparr>rq_hopcount = 1, rq_track.rq_jid = ''7.a'', rq_location = ''b'', rq_state = 81\<rparr>\<rparr>"

definition demo_chan :: "sock_result list \<Rightarrow> tcp_chan" where
  "demo_chan inp = the (DIS_tcp_setup 7 inp [] (\<lambda>_. True))"

lemma demo_chan_setup: "DIS_tcp_setup 7 inp [] (\<lambda>_. True) = Some (demo_chan inp)"
  by (simp add: demo_chan_def DIS_tcp_setup_def)

lemma demo_track_ok: "remote_ok demo_track" "text_upto PBS_MAXUSER ''srv''"
  by (simp_all add: demo_track_def remote_ext_def ext_ok_None req_type_defs track_ok_def text_upto_def
      PBS_MAXSVRJOBID_def PBS_MAXSEQNUM_def PBS_MAXDEST_def PBS_MAXUSER_def)

lemma demo_track_views:
  "br_type demo_track = PBS_BATCH_TrackJob" "remote_ext demo_track = None" "for_server demo_track"
  "br_ind demo_track = RQ_track \<lparr>rq_hopcount = 1, rq_track.rq_jid = ''7.a'', rq_location = ''b'', rq_state = 81\<rparr>"
  by (simp_all add: demo_track_def remote_ext_def for_server_def req_type_defs)

lemma demo_track_text:
  "sock_out (snd (DIS_tcp_wflush (snd (the (remote_encode ''srv'' demo_track) (demo_chan []))))) =
     ''+2+22+22+3srv+37.a+1+1b2+81+0''"
proof -
  obtain w where w: "remote_encode ''srv'' demo_track = Some w"
    "writes w (request_text (br_type demo_track) ''srv'' (remote_body (br_ind demo_track)) (remote_ext demo_track))"
    by (rule remote_writes [OF demo_track_ok])
  show ?thesis using writes_flushed(2) [OF demo_chan_setup _ _ w(2)]
    by (simp add: w(1) demo_track_views request_text_def hdr_text_def ext_text_def opt_str_def dis_str_def dis_num_def
      dec.simps dis_prefix.simps PBS_BATCH_PROT_TYPE_def PBS_BATCH_PROT_VER_def PBS_BATCH_TrackJob_def dec_simps
      track_text_def)
qed

theorem remote_delivery_witness:
  "\<exists>c'. the (port_read True (demo_chan [Sock_Data ''+2+22+22+3srv+37.a+1+1b2+'', Sock_Data ''81+0+2'' ])) =
     (PBSE_NONE, demo_track\<lparr>br_user := ''srv''\<rparr>, c') \<and> pending c' = ''+2''"
proof -
  let ?inp = "[Sock_Data ''+2+22+22+3srv+37.a+1+1b2+'', Sock_Data ''81+0+2'' ]"
  have i: "incoming ?inp = sock_out (snd (DIS_tcp_wflush (snd (the (remote_encode ''srv'' demo_track) (demo_chan []))))) @ ''+2''"
    by (simp add: demo_track_text)
  show ?thesis
    using remote_delivery [OF demo_track_ok demo_chan_setup _ _ demo_chan_setup _ _ i, of True]
    by (auto simp: demo_track_views ext_got_def opt_str_def) (simp add: demo_track_def)
qed

text \<open>The verdict on a header that the code reaches without reading a body.\<close>

definition hdr_verdict :: "bool \<Rightarrow> c_uint \<Rightarrow> c_uint \<Rightarrow> pbse option" where
  "hdr_verdict mom ver t =
     (if ver \<noteq> PBS_BATCH_PROT_VER then Some PBSE_DISPROTO
      else if sint t < 0 \<or> 67 \<le> sint t then Some PBSE_DISPROTO
      else if t = PBS_BATCH_Disconnect then Some PBSE_SOCKET_CLOSE
      else if (unat t = 0 \<or> 32 \<le> unat t \<and> unat t \<le> 47 \<or> t = PBS_BATCH_AsySignalJob) then Some PBSE_UNKREQ
      else if mom then
        (if t \<in> {PBS_BATCH_LocateJob, PBS_BATCH_Manager, PBS_BATCH_MoveJob, PBS_BATCH_ReleaseJob, PBS_BATCH_RunJob,
                 PBS_BATCH_SelectJobs, PBS_BATCH_StatusQue, PBS_BATCH_StatusSvr, PBS_BATCH_TrackJob,
                 PBS_BATCH_AsyrunJob, PBS_BATCH_Rescq, PBS_BATCH_ReserveResc, PBS_BATCH_ReleaseResc,
                 PBS_BATCH_StageIn, PBS_BATCH_AuthenUser, PBS_BATCH_OrderJob, PBS_BATCH_SelStat,
                 PBS_BATCH_RegistDep, PBS_BATCH_JobObit, PBS_BATCH_StatusNode, PBS_BATCH_AltAuthenUser,
                 PBS_BATCH_SelStatAttr, PBS_BATCH_ModifyNode} then Some PBSE_UNKREQ else None)
      else if t \<in> {PBS_BATCH_ReturnFiles, PBS_BATCH_CopyFiles, PBS_BATCH_DelFiles, PBS_BATCH_DeleteReservation,
                     PBS_BATCH_ChangePowerState} then Some PBSE_UNKREQ
      else None)"

lemma gap_types:
  assumes "unat t = 0 \<or> 32 \<le> unat t \<and> unat t \<le> 47 \<or> t = PBS_BATCH_AsySignalJob"
  shows "decode_common_body junk t c = None" "decode_mom_body t c = None" "decode_server_body junk t c = None"
  using assms
  by (auto simp: decode_common_body_def decode_mom_body_def decode_server_body_def req_type_defs)

lemma unknown_body:
  assumes "hdr_verdict mom PBS_BATCH_PROT_VER t = Some PBSE_UNKREQ"
  shows "decode_body mom junk t c = (Body_UNKREQ, RQ_zero, c)"
proof (cases "unat t = 0 \<or> 32 \<le> unat t \<and> unat t \<le> 47 \<or> t = PBS_BATCH_AsySignalJob")
  case True
  from gap_types [OF this] show ?thesis by (simp add: decode_body_def)
next
  case False
  then show ?thesis using assms
    by (auto simp: hdr_verdict_def decode_body_def decode_common_body_def decode_mom_body_def decode_server_body_def
        req_type_defs split: if_splits)
qed

text \<open>
  C35: the guards of \<open>dis_request_read\<close>.  A well-formed header with another protocol version, or with a
  type outside the table, is refused with \<open>PBSE_DISPROTO\<close>; a disconnect closes the socket; a type of the
  table that the daemon has no decoder for is \<open>PBSE_UNKREQ\<close>.  In all four cases nothing behind the
  header is read and the request body stays zeroed.
\<close>

theorem request_guards:
  assumes c: "rchan_ok c" "pending c = num ver @ num t @ dis_str user @ rest"
    and c0: "(if mom then snd (snd (disrui c0)) else c0) = c"
    and u: "text_upto PBS_MAXUSER user" and e: "hdr_verdict mom ver t = Some e"
  shows "\<exists>c'. dis_request_read mom junk c0 new_request =
    (e, \<lparr>br_type = t, br_user = user, br_extend = None, br_ind = RQ_zero\<rparr>, c') \<and> pending c' = rest"
proof -
  obtain c1 where c1: "decode_DIS_ReqHdr c (- 1) [] = (DIS_SUCCESS, (PBS_BATCH_PROT_TYPE, ver, t, user), c1)"
    "got c c1 rest" by (rule hdr_read_ver [OF c u])
  note p = gotD(3) [OF c1(2)]
  show ?thesis
  proof (cases "e = PBSE_UNKREQ")
    case True
    then have "ver = PBS_BATCH_PROT_VER" using e by (auto simp: hdr_verdict_def split: if_splits)
    with e True unknown_body [of mom t junk c1] show ?thesis unfolding dis_request_read_def c0 Let_def
      using p by (auto simp: c1(1) new_request_def hdr_verdict_def PBS_BATCH_CEILING_def split: if_splits)
  next
    case False
    with e show ?thesis unfolding dis_request_read_def c0 Let_def
      using p by (auto simp: c1(1) new_request_def hdr_verdict_def PBS_BATCH_CEILING_def split: if_splits)
  qed
qed

theorem request_guards_witness:
  "\<exists>c'. dis_request_read False True (demo_chan [Sock_Data ''+1+9+1u!'']) new_request =
    (PBSE_DISPROTO, \<lparr>br_type = 9, br_user = ''u'', br_extend = None, br_ind = RQ_zero\<rparr>, c') \<and> pending c' = ''!''"
proof -
  let ?c = "demo_chan [Sock_Data ''+1+9+1u!'']"
  have c: "rchan_ok ?c" "pending ?c = num 1 @ num 9 @ dis_str ''u'' @ ''!''"
    using setup_ok(2) [OF demo_chan_setup] setup_views(9) [OF demo_chan_setup]
    by (simp_all add: dis_str_def dis_num_def dec.simps dis_prefix.simps dec_simps)
  have c0: "(if False then snd (snd (disrui ?c)) else ?c) = ?c" by simp
  have u: "text_upto PBS_MAXUSER ''u''" by (simp add: text_upto_def PBS_MAXUSER_def)
  have e: "hdr_verdict False 1 9 = Some PBSE_DISPROTO" by (simp add: hdr_verdict_def PBS_BATCH_PROT_VER_def)
  show ?thesis by (rule request_guards [OF c c0 u e])
qed

text \<open>
  The extension of a GPU control request does not reach the server.  The body encoder has already
  written an empty extension, which the server takes for the extension of the request; the one the
  caller gave stays unread on the channel.
\<close>

theorem gpu_extension_unread:
  assumes "env_ok env c" and "text_upto PBS_MAXUSER (env_user env)" and "ext_ok ext" and "gpu_ok (n, g, m, p, v)"
    and "DIS_tcp_setup fd inp wrs heap = Some cr" and "\<And>n. heap n"
    and "NUL \<notin> set (all_in inp) \<or> length (all_in inp) < THE_BUF_SIZE"
    and "incoming inp = snd (snd (PBSD_gpu_put env c n g m p v ext)) @ rest"
  shows "fst (PBSD_gpu_put env c n g m p v ext) = PBSE_NONE \<and>
    (\<exists>c'. port_read junk cr =
       Some (PBSE_NONE, \<lparr>br_type = PBS_BATCH_GpuCtrl, br_user = env_user env, br_extend = None,
                         br_ind = RQ_gpuctrl (gpu_got (n, g, m, p, v))\<rparr>, c') \<and> pending c' = ext_text ext @ rest)"
proof -
  let ?bt = "gpu_text (n, g, m, p, v)"
  have put: "PBSD_gpu_put env c n g m p v ext =
      (PBSE_NONE, env_conns env, request_text PBS_BATCH_GpuCtrl (env_user env) (?bt @ ext_text None) ext)"
    unfolding PBSD_gpu_put_def
    by (rule put_request_ok [OF assms(1) request_writes [OF assms(2,3) gpu_writes [OF assms(4)]]])
  have cr: "rchan_ok cr"
    "pending cr = request_text PBS_BATCH_GpuCtrl (env_user env) ?bt None @ (ext_text ext @ rest)"
    using setup_ok(2) [OF assms(5-7)] setup_views [OF assms(5)] assms(8) put by (simp_all add: request_text_def)
  have b: "body_reads (decode_body False junk PBS_BATCH_GpuCtrl) ?bt (RQ_gpuctrl (gpu_got (n, g, m, p, v)))"
    by (rule body_readsI [OF gpu_reads [OF assms(4)], of _ RQ_gpuctrl zero_gpuctrl])
      (simp add: decode_body_def decode_common_body_def req_type_defs)
  have t: "0 \<le> sint PBS_BATCH_GpuCtrl" "sint PBS_BATCH_GpuCtrl < sint PBS_BATCH_CEILING"
    "PBS_BATCH_GpuCtrl \<noteq> PBS_BATCH_Disconnect" by (simp_all add: req_type_defs)
  show ?thesis using port_read_request [OF cr assms(2) ext_ok_None t b] put by (simp add: ext_got_def opt_str_def)
qed

lemma demo_gpu_text:
  "snd (snd (PBSD_gpu_put demo_env 0 ''n1'' ''0'' 1 0 0 (Some ''x''))) = ''+2+22+62+4root+2n1+10+1+0+0+0+1+1x''"
proof -
  have ok: "text_upto PBS_MAXUSER (env_user demo_env)" "ext_ok (Some ''x'')" "gpu_ok (''n1'', ''0'', 1, 0, 0)"
    using demo_text_ok
    by (simp_all add: ext_ok_def opt_str_def any_text_def text_upto_def PBS_MAXHOSTNAME_def PBS_MAXGPUID_def)
  show ?thesis unfolding PBSD_gpu_put_def put_request_ok [OF demo_env_ok request_writes [OF ok(1,2) gpu_writes [OF ok(3)]]]
    by (simp add: demo_text_ok(3) request_text_def hdr_text_def ext_text_def opt_str_def dis_str_def dis_num_def
      dec.simps dis_prefix.simps PBS_BATCH_PROT_TYPE_def PBS_BATCH_PROT_VER_def PBS_BATCH_GpuCtrl_def dec_simps)
qed

theorem gpu_extension_unread_witness:
  "\<exists>c'. port_read True (demo_chan [Sock_Data ''+2+22+62+4root+2n1+10+1+0+0+0+1+1x'']) =
     Some (PBSE_NONE, \<lparr>br_type = PBS_BATCH_GpuCtrl, br_user = ''root'', br_extend = None,
       br_ind = RQ_gpuctrl \<lparr>rq_momnode = ''n1'', rq_gpuid = ''0'', rq_gpumode = 1, rq_reset_perm = 0, rq_reset_vol = 0\<rparr>\<rparr>, c') \<and>
     pending c' = ''+1+1x''"
proof -
  let ?inp = "[Sock_Data ''+2+22+62+4root+2n1+10+1+0+0+0+1+1x'']"
  have ok: "text_upto PBS_MAXUSER (env_user demo_env)" "ext_ok (Some ''x'')" "gpu_ok (''n1'', ''0'', 1, 0, 0)"
    using demo_text_ok
    by (simp_all add: ext_ok_def opt_str_def any_text_def text_upto_def PBS_MAXHOSTNAME_def PBS_MAXGPUID_def)
  have i: "incoming ?inp = snd (snd (PBSD_gpu_put demo_env 0 ''n1'' ''0'' 1 0 0 (Some ''x''))) @ []"
    by (simp add: demo_gpu_text)
  show ?thesis using gpu_extension_unread [OF demo_env_ok ok demo_chan_setup _ _ i, of True]
    by (simp add: demo_text_ok(3) ext_text_def opt_str_def dis_str_def dis_num_def dec.simps dis_prefix.simps dec_simps)
qed

lemma put_request_fail:
  assumes env: "0 \<le> c" "c < PBS_NET_MAX_CONNECTIONS" "0 \<le> ch_socket (env_conns env c)" "\<And>n. env_heap env n"
    and fail: "env_wr env = Wr_Fail # ws" and w: "writes w bs"
  shows "put_request badconn nochan noflush env c w = (noflush, env_conns env, [])"
proof -
  obtain chan where s: "DIS_tcp_setup (ch_socket (env_conns env c)) [] (env_wr env) (env_heap env) = Some chan"
    using env by (simp add: DIS_tcp_setup_def)
  obtain c1 where c1: "w chan = (DIS_SUCCESS, c1)" "wrote (DIS_SUCCESS, c1) chan bs"
    by (rule writesD [OF w setup_ok(1) [OF s env(4)]])
  have "sock_wr c1 = Wr_Fail # ws" "sock_out c1 = []" using c1(2) setup_views [OF s] fail by (simp_all add: wrote_def)
  then show ?thesis using s c1(1) env(1,2) by (simp add: put_request_def Let_def DIS_tcp_wflush_def)
qed

text \<open>
  When the socket refuses the first write of a request, the senders of signal, manage and message
  requests return \<open>PBSE_PROTOCOL\<close>, but the sender of status requests returns \<open>PBSE_NONE\<close>; nothing is sent
  in either case.
\<close>

theorem lost_flush:
  assumes "0 \<le> c" and "c < PBS_NET_MAX_CONNECTIONS" and "0 \<le> ch_socket (env_conns env c)" and "\<And>n. env_heap env n"
    and "env_wr env = Wr_Fail # ws" and "text_upto PBS_MAXUSER (env_user env)" and "ext_ok ext" and "client_ok r"
  shows "client_put env c r ext =
    ((case r of C_status t i a \<Rightarrow> PBSE_NONE | _ \<Rightarrow> PBSE_PROTOCOL), env_conns env, [])"
proof (cases r)
  case (C_signal j s)
  then have "signal_ok (j, s)" using assms(8) by simp
  from put_request_fail [OF assms(1-5) request_writes [OF assms(6,7) signal_writes [OF this, unfolded prod.case]]]
  show ?thesis by (simp add: C_signal PBSD_sig_put_def)
next
  case (C_manage t cmd ty nm a)
  then have "manage_ok (cmd, ty, nm, a)" using assms(8) by simp
  from put_request_fail [OF assms(1-5) request_writes [OF assms(6,7) manage_writes [OF this, unfolded prod.case]]]
  show ?thesis by (simp add: C_manage PBSD_mgr_put_def)
next
  case (C_status t i a)
  then have "status_ok (i, a)" using assms(8) by simp
  from put_request_fail [OF assms(1-5) request_writes [OF assms(6,7) status_writes [OF this, unfolded prod.case]]]
  show ?thesis by (simp add: C_status PBSD_status_put_def)
next
  case (C_message j f m)
  then have "message_ok (j, f, m)" using assms(8) by simp
  from put_request_fail [OF assms(1-5) request_writes [OF assms(6,7) message_writes [OF this, unfolded prod.case]]]
  show ?thesis by (simp add: C_message PBSD_msg_put_def)
qed

theorem lost_flush_witness:
  "fst (client_put (demo_env\<lparr>env_wr := [Wr_Fail]\<rparr>) 0 (C_status PBS_BATCH_StatusJob ''12.srv'' []) None) = PBSE_NONE"
proof -
  have "client_ok (C_status PBS_BATCH_StatusJob ''12.srv'' [])"
    by (simp add: status_types_def text_upto_def PBS_MAXSVRJOBID_def PBS_MAXSEQNUM_def list_ok_def)
  then show ?thesis
    using lost_flush [of 0 "demo_env\<lparr>env_wr := [Wr_Fail]\<rparr>" "[]" None "C_status PBS_BATCH_StatusJob ''12.srv'' []"]
      demo_env_ok demo_text_ok(1) ext_ok_None
    by (simp add: env_ok_def demo_env_def)
qed

end
