(* ===== verification/C_Text.thy ===== *)
theory C_Text
  imports Torque_Base
begin

text \<open>
  The text functions of the C library that the server's parsers and printers use: \<open>isspace\<close>,
  \<open>strtol\<close> with base 10 and its end pointer, \<open>strchr\<close> and \<open>strrchr\<close> as splits of a string, \<open>%d\<close> and the
  truncation of \<open>snprintf\<close>.  A string is the list of its characters before the NUL; a pointer into it
  is the rest of the list.
\<close>

section \<open>Numbers\<close>

definition isspace :: "char \<Rightarrow> bool" where
  "isspace c \<longleftrightarrow> (of_char c :: nat) = 32 \<or> (9 \<le> (of_char c :: nat) \<and> (of_char c :: nat) \<le> 13)"

definition strtol :: "char list \<Rightarrow> int \<times> char list" where
  "strtol s =
     (let t = dropWhile isspace s;
          neg = (t \<noteq> [] \<and> hd t = CHR ''-'');
          u = (if t \<noteq> [] \<and> (hd t = CHR ''-'' \<or> hd t = CHR ''+'') then tl t else t);
          ds = takeWhile is_digit u;
          v = int (dval ds)
      in if ds = [] then (0, s)
         else (if neg then max (- (2 ^ 63)) (- v) else min (2 ^ 63 - 1) v, dropWhile is_digit u))"

text \<open>The conversion of a \<open>long\<close> to an \<open>int\<close>, and \<open>strtol\<close> assigned to an \<open>int\<close>.\<close>

definition to_int :: "int \<Rightarrow> int" where
  "to_int v = sint (word_of_int v :: 32 word)"

definition strtol_int :: "char list \<Rightarrow> int \<times> char list" where
  "strtol_int s = (case strtol s of (v, t) \<Rightarrow> (to_int v, t))"

definition int_text :: "int \<Rightarrow> char list" where
  "int_text x = (if x < 0 then CHR ''-'' # dec (nat (- x)) else dec (nat x))"

text \<open>\<open>snprintf\<close> into an array of \<open>n\<close> characters keeps one for the NUL.\<close>

definition snprintf_text :: "nat \<Rightarrow> char list \<Rightarrow> char list" where
  "snprintf_text n s = take (n - 1) s"

definition INT_MAX :: int where "INT_MAX = 2 ^ 31 - 1"

section \<open>Splitting\<close>

text \<open>
  \<open>strchr\<close> with a NUL written over the character found: the text before it and the text behind it.
\<close>

fun strchr_cut :: "char \<Rightarrow> char list \<Rightarrow> char list \<times> char list option" where
  "strchr_cut c [] = ([], None)"
| "strchr_cut c (x # xs) =
     (if x = c then ([], Some xs) else (case strchr_cut c xs of (a, b) \<Rightarrow> (x # a, b)))"

definition strrchr_cut :: "char \<Rightarrow> char list \<Rightarrow> char list \<times> char list option" where
  "strrchr_cut c s =
     (case strchr_cut c (rev s) of
        (a, None) \<Rightarrow> (s, None)
      | (a, Some b) \<Rightarrow> (rev b, Some (rev a)))"

section \<open>Lemmas\<close>

definition num_end :: "char list \<Rightarrow> bool" where
  "num_end s \<longleftrightarrow> s = [] \<or> \<not> is_digit (hd s)"

lemma num_end_simps [simp]:
  "num_end []" "num_end (c # s) \<longleftrightarrow> \<not> is_digit c"
  by (simp_all add: num_end_def)

lemma is_digit_consts [simp]:
  "\<not> is_digit (CHR ''-'')" "\<not> is_digit (CHR '','')" "\<not> is_digit (CHR ''+'')" "\<not> is_digit (CHR ''/'')" "\<not> is_digit (CHR '':'')"
  "\<not> is_digit (CHR ''%'')" "\<not> is_digit (CHR '' '')"
  by (simp_all add: is_digit_def)

lemma digit_not_space [simp]: "is_digit c \<Longrightarrow> \<not> isspace c"
  by (auto simp: is_digit_def isspace_def)

lemma digit_not_sign [simp]: "is_digit c \<Longrightarrow> c \<noteq> CHR ''-''" "is_digit c \<Longrightarrow> c \<noteq> CHR ''+''"
  by auto

lemma is_digit_hd_dec [simp]: "is_digit (hd (dec n))"
  by (rule dec_digits [OF hd_in_set]) simp

lemma takeWhile_dec: "num_end r \<Longrightarrow> takeWhile is_digit (dec n @ r) = dec n"
  using dec_digits by (cases r) (auto simp: takeWhile_append2 takeWhile_append1)

lemma dropWhile_dec: "num_end r \<Longrightarrow> dropWhile is_digit (dec n @ r) = r"
  using dec_digits by (cases r) (auto simp: dropWhile_append2)

lemma dropWhile_hd: "\<not> P (hd s) \<Longrightarrow> s \<noteq> [] \<Longrightarrow> dropWhile P s = s"
  by (cases s) auto

lemma strtol_dec [simp]:
  assumes "num_end r" and "n < 2 ^ 63"
  shows "strtol (dec n @ r) = (int n, r)"
proof -
  have h: "hd (dec n @ r) = hd (dec n)" by (simp add: hd_append)
  have d: "is_digit (hd (dec n @ r))" unfolding h by simp
  have s: "dropWhile isspace (dec n @ r) = dec n @ r" by (rule dropWhile_hd) (use d in auto)
  have n: "hd (dec n @ r) \<noteq> CHR ''-''" "hd (dec n @ r) \<noteq> CHR ''+''" using digit_not_sign [OF d] by blast+
  have "int n \<le> 2 ^ 63 - 1" using assms(2) by simp
  then show ?thesis unfolding strtol_def s Let_def
    using n assms(1) by (simp add: takeWhile_dec dropWhile_dec)
qed

lemma to_int_small: "- (2 ^ 31) \<le> v \<Longrightarrow> v < 2 ^ 31 \<Longrightarrow> to_int v = v"
  unfolding to_int_def by (simp add: sint_sbintrunc' signed_take_bit_int_eq_self)

lemma strtol_int_dec [simp]:
  assumes "num_end r" and "n < 2 ^ 31"
  shows "strtol_int (dec n @ r) = (int n, r)"
proof -
  have "int n < 2 ^ 31" using assms(2) by simp
  then show ?thesis using strtol_dec [OF assms(1), of n] assms(2) by (simp add: strtol_int_def to_int_small)
qed

lemma strtol_rest: "snd (strtol s) = s \<or> length (snd (strtol s)) < length s"
proof -
  define t where "t = dropWhile isspace s"
  define u where "u = (if t \<noteq> [] \<and> (hd t = CHR ''-'' \<or> hd t = CHR ''+'') then tl t else t)"
  have e: "snd (strtol s) = (if takeWhile is_digit u = [] then s else dropWhile is_digit u)"
    by (simp add: strtol_def Let_def u_def t_def)
  have "length t \<le> length s" by (simp add: t_def length_dropWhile_le)
  then have "length u \<le> length s" unfolding u_def by auto
  moreover have "takeWhile is_digit u \<noteq> [] \<Longrightarrow> length (dropWhile is_digit u) < length u"
    by (metis takeWhile_dropWhile_id length_append length_greater_0_conv less_add_same_cancel2)
  ultimately show ?thesis unfolding e by (cases "takeWhile is_digit u = []") (simp, force)
qed

lemma strtol_int_rest: "snd (strtol_int s) = s \<or> length (snd (strtol_int s)) < length s"
  using strtol_rest [of s] by (simp add: strtol_int_def case_prod_beta)

lemma int_text_nat [simp]: "0 \<le> x \<Longrightarrow> int_text x = dec (nat x)"
  by (simp add: int_text_def)

lemma snprintf_fits [simp]: "length s < n \<Longrightarrow> snprintf_text n s = s"
  by (simp add: snprintf_text_def)

lemma strchr_cut_miss: "c \<notin> set s \<Longrightarrow> strchr_cut c s = (s, None)"
  by (induction s) auto

lemma strchr_cut_hit: "c \<notin> set s \<Longrightarrow> strchr_cut c (s @ c # t) = (s, Some t)"
  by (induction s) auto

lemma strrchr_cut_miss: "c \<notin> set s \<Longrightarrow> strrchr_cut c s = (s, None)"
  by (simp add: strrchr_cut_def strchr_cut_miss)

lemma strrchr_cut_hit: "c \<notin> set t \<Longrightarrow> strrchr_cut c (s @ c # t) = (s, Some t)"
  by (simp add: strrchr_cut_def strchr_cut_hit)

lemma strchr_cut_len: "strchr_cut c s = (a, Some b) \<Longrightarrow> length a + length b < length s"
  by (induction s arbitrary: a b) (auto split: if_splits prod.splits)

lemma strrchr_cut_len: "strrchr_cut c s = (a, Some b) \<Longrightarrow> length a + length b < length s"
  using strchr_cut_len [of c "rev s"] by (fastforce simp: strrchr_cut_def split: prod.splits option.splits)

section \<open>Where a string is cut\<close>

lemma cut_absent: "c \<notin> set s \<Longrightarrow> strchr_cut c s = (s, None)"
  by (induction s) auto

lemma cut_present: "c \<notin> set a \<Longrightarrow> strchr_cut c (a @ c # b) = (a, Some b)"
  by (induction a) auto

lemma cut_cases:
  obtains "c \<notin> set s" "strchr_cut c s = (s, None)"
  | a b where "s = a @ c # b" "c \<notin> set a" "strchr_cut c s = (a, Some b)"
proof (cases "c \<in> set s")
  case True
  then obtain a b where "s = a @ c # b" "c \<notin> set a" by (meson split_list_first)
  then show thesis using that(2) cut_present by metis
qed (use that(1) cut_absent in auto)

end
