(* ===== verification/Attr_Base.thy ===== *)
theory Attr_Base
  imports Batch_Attr C_Text
begin

unbundle bit_operations_syntax

text \<open>
  Attributes of jobs, queues and the server: the value with its flags, the operations that a client asks
  for, and the entry of an attribute list that an encoder creates (\<^verbatim>\<open>include/attribute.h\<close>,
  \<^verbatim>\<open>lib/Libattr/attr_func.c\<close>).  The functions of a type of attributes, which \<open>attribute_def\<close> collects, are
  an interface: the locale \<open>attribute_type\<close> states what the decoder and the encoder of a type promise.
\<close>

section \<open>Values, flags and operations\<close>

datatype batch_op =
  SET | UNSET | INCR | DECR | EQ | NE | GE | GT | LE | LT | DFLT | MERGE | INCR_OLD | SET_PLUGIN

definition ATR_VFLAG_SET :: "16 word" where "ATR_VFLAG_SET = 0x01"
definition ATR_VFLAG_MODIFY :: "16 word" where "ATR_VFLAG_MODIFY = 0x02"

record 'v pbs_attribute =
  at_flags :: "16 word"
  at_val :: 'v

definition at_set :: "'v pbs_attribute \<Rightarrow> bool" where
  "at_set a \<longleftrightarrow> at_flags a AND ATR_VFLAG_SET \<noteq> 0"

definition mark_set :: "'v pbs_attribute \<Rightarrow> 'v pbs_attribute" where
  "mark_set a = a\<lparr>at_flags := at_flags a OR (ATR_VFLAG_SET OR ATR_VFLAG_MODIFY)\<rparr>"

definition mark_unset :: "'v pbs_attribute \<Rightarrow> 'v pbs_attribute" where
  "mark_unset a = a\<lparr>at_flags := (at_flags a AND NOT ATR_VFLAG_SET) OR ATR_VFLAG_MODIFY\<rparr>"

text \<open>\<open>clear_attr\<close>: no flag is set, and the value is the one that memory full of zeros stands for.\<close>

definition clear_attr :: "'v \<Rightarrow> 'v pbs_attribute" where
  "clear_attr zero = \<lparr>at_flags = 0, at_val = zero\<rparr>"

lemma flag_set_bit: "at_set a = bit (at_flags a) 0"
  by (simp add: at_set_def ATR_VFLAG_SET_def and_one_eq bit_0 odd_iff_mod_2_eq_one)

lemma mark_set_simps [simp]: "at_set (mark_set a)" "at_val (mark_set a) = at_val a"
  by (simp_all add: flag_set_bit mark_set_def ATR_VFLAG_SET_def bit_0 even_or_iff)

lemma mark_unset_simps [simp]: "\<not> at_set (mark_unset a)" "at_val (mark_unset a) = at_val a"
  by (simp_all add: flag_set_bit mark_unset_def ATR_VFLAG_SET_def ATR_VFLAG_MODIFY_def bit_0 even_or_iff even_and_iff)

lemma clear_attr_simps [simp]: "\<not> at_set (clear_attr z)" "at_val (clear_attr z) = z"
  by (simp_all add: clear_attr_def at_set_def)

lemma at_set_val [simp]: "at_set (a\<lparr>at_val := v\<rparr>) = at_set a"
  by (simp add: at_set_def)

section \<open>Entries of an attribute list\<close>

text \<open>\<open>heap\<close> says which sizes can be allocated.  \<open>None\<close> is the null pointer.\<close>

definition attrlist_alloc :: "(nat \<Rightarrow> bool) \<Rightarrow> nat \<Rightarrow> nat \<Rightarrow> nat \<Rightarrow> svrattrl option" where
  "attrlist_alloc heap szname szresc szval =
     (let tsize = sizeof_svrattrl + szname + szresc + szval in
      if heap tsize
      then Some \<lparr>al_name = [], al_resc = (if szresc > 0 then Some [] else None), al_value = [], al_op = OP_SET,
                 al_tsize = tsize, al_nameln = szname, al_rescln = szresc, al_valln = szval, al_flags = 0\<rparr>
      else None)"

text \<open>
  The names are copied into the entry whether or not it could be allocated: \<open>None\<close> is the write through
  the null pointer.
\<close>

definition attrlist_create :: "(nat \<Rightarrow> bool) \<Rightarrow> char list \<Rightarrow> char list option \<Rightarrow> nat \<Rightarrow> svrattrl option" where
  "attrlist_create heap aname rname vsize =
     (case attrlist_alloc heap (length aname + 1) (case rname of None \<Rightarrow> 0 | Some r \<Rightarrow> length r + 1) vsize of
        None \<Rightarrow> None
      | Some pal \<Rightarrow> Some (pal\<lparr>al_name := aname, al_resc := rname\<rparr>))"

text \<open>What the encoders do with the text of a value: the entry gets the text and the flags.\<close>

definition encode_entry :: "(nat \<Rightarrow> bool) \<Rightarrow> 'v pbs_attribute \<Rightarrow> char list \<Rightarrow> char list option \<Rightarrow> nat \<Rightarrow> char list \<Rightarrow> (int \<times> svrattrl option) option" where
  "encode_entry heap attr atname rsname vsize v =
     (case attrlist_create heap atname rsname vsize of
        None \<Rightarrow> None
      | Some pal \<Rightarrow> Some (1, Some (pal\<lparr>al_value := v, al_flags := unat (at_flags attr)\<rparr>)))"

definition entry_of :: "'v pbs_attribute \<Rightarrow> char list \<Rightarrow> char list option \<Rightarrow> nat \<Rightarrow> char list \<Rightarrow> svrattrl" where
  "entry_of attr n r vsize v =
     \<lparr>al_name = n, al_resc = r, al_value = v, al_op = OP_SET,
      al_tsize = sizeof_svrattrl + (length n + 1) + (case r of None \<Rightarrow> 0 | Some x \<Rightarrow> length x + 1) + vsize,
      al_nameln = length n + 1, al_rescln = (case r of None \<Rightarrow> 0 | Some x \<Rightarrow> length x + 1), al_valln = vsize,
      al_flags = unat (at_flags attr)\<rparr>"

lemma encode_entry_eq: "(\<And>k. heap k) \<Longrightarrow> encode_entry heap attr n r vsize v = Some (1, Some (entry_of attr n r vsize v))"
  by (cases r) (simp_all add: encode_entry_def attrlist_create_def attrlist_alloc_def entry_of_def Let_def)

lemma entry_of_simps [simp]:
  "al_name (entry_of a n r k v) = n" "al_resc (entry_of a n r k v) = r" "al_value (entry_of a n r k v) = v" "al_op (entry_of a n r k v) = OP_SET"
  by (simp_all add: entry_of_def)

section \<open>The functions of a type of attributes\<close>

text \<open>
  What \<open>at_decode\<close> and \<open>at_encode\<close> of an \<open>attribute_def\<close> promise: an attribute that is not set has no entry,
  the entry of a set one holds the text of its value, and a fresh attribute decodes the text to the value.
\<close>

locale attribute_type =
  fixes decode :: "'v pbs_attribute \<Rightarrow> char list option \<Rightarrow> (pbse \<times> 'v pbs_attribute) option"
    and encode :: "'v pbs_attribute \<Rightarrow> char list \<Rightarrow> char list option \<Rightarrow> (int \<times> svrattrl option) option"
    and zero :: 'v
    and text_of :: "'v \<Rightarrow> char list"
    and valid :: "'v \<Rightarrow> bool"
    and same :: "'v \<Rightarrow> 'v \<Rightarrow> bool"
  assumes encode_unset: "\<not> at_set a \<Longrightarrow> encode a n r = Some (0, None)"
    and encode_set: "at_set a \<Longrightarrow> valid (at_val a) \<Longrightarrow> \<exists>k. encode a n r = Some (1, Some (entry_of a n r k (text_of (at_val a))))"
    and decode_text: "valid v \<Longrightarrow> \<exists>a. decode (clear_attr zero) (Some (text_of v)) = Some (PBSE_NONE, a) \<and> at_set a \<and> same v (at_val a)"
    and text_nul_free: "valid v \<Longrightarrow> NUL \<notin> set (text_of v)"
begin

lemma round_trip:
  assumes "at_set a" and "valid (at_val a)"
  shows "\<exists>e a'. encode a n r = Some (1, Some e) \<and> al_name e = n \<and> al_resc e = r \<and>
    decode (clear_attr zero) (Some (al_value e)) = Some (PBSE_NONE, a') \<and> at_set a' \<and> same (at_val a) (at_val a')"
  using encode_set [OF assms, of n r] decode_text [OF assms(2)] by force

text \<open>The entry of a set attribute is fit for the wire, and what arrives decodes to the value.\<close>

lemma wire_entry:
  assumes "at_set a" and "valid (at_val a)" and "nul_free n" and "\<forall>x. r = Some x \<longrightarrow> nul_free x"
    and "length n + length (text_of (at_val a)) + 2 + strlen_opt r < 2 ^ 32"
  shows "\<exists>e a'. encode a n r = Some (1, Some e) \<and> list_ok Batch_Attr.svr_ok [e] \<and>
    decode (clear_attr zero) (Some (al_value (svr_copy e))) = Some (PBSE_NONE, a') \<and> at_set a' \<and> same (at_val a) (at_val a')"
proof -
  obtain k where e: "encode a n r = Some (1, Some (entry_of a n r k (text_of (at_val a))))" using encode_set [OF assms(1,2)] by blast
  let ?e = "entry_of a n r k (text_of (at_val a))"
  have "Batch_Attr.svr_ok ?e" using assms(3-5) text_nul_free [OF assms(2)] by (simp add: svr_ok_def attr_fits_def nul_free_def)
  then have "list_ok Batch_Attr.svr_ok [?e]" by (simp add: list_ok_def)
  moreover have "al_value (svr_copy ?e) = text_of (at_val a)" by (simp add: svr_copy_def svr_of_def)
  ultimately show ?thesis using e decode_text [OF assms(2)] by auto
qed

text \<open>
  Sent to another server as a list of attributes, the attribute arrives: whatever portions the
  connection delivers, the receiver reads one entry with the names, and decodes its text to the value.
\<close>

lemma over_wire:
  assumes a: "at_set a" "valid (at_val a)" "nul_free n" "\<forall>x. r = Some x \<longrightarrow> nul_free x"
      "length n + length (text_of (at_val a)) + 2 + strlen_opt r < 2 ^ 32"
    and w: "DIS_tcp_setup fd [] wrs heap = Some cw" "\<And>n. heap n" "Wr_Fail \<notin> set wrs"
    and rd: "DIS_tcp_setup fd' inp wrs' heap' = Some cr" "\<And>n. heap' n"
      "NUL \<notin> set (all_in inp) \<or> length (all_in inp) < THE_BUF_SIZE"
    and e: "encode a n r = Some (1, Some e)"
    and inp: "incoming inp = sock_out (snd (DIS_tcp_wflush (snd (encode_DIS_svrattrl cw [e])))) @ t"
  shows "\<exists>e' a' c'. decode_DIS_svrattrl [] cr = (DIS_SUCCESS, [e'], c') \<and> pending c' = t \<and> al_name e' = n \<and> al_resc e' = r \<and>
    decode (clear_attr zero) (Some (al_value e')) = Some (PBSE_NONE, a') \<and> at_set a' \<and> same (at_val a) (at_val a')"
proof -
  obtain k where k: "e = entry_of a n r k (text_of (at_val a))" using encode_set [OF a(1,2), of n r] e by auto
  have ok: "list_ok Batch_Attr.svr_ok [e]" and d: "\<exists>a'. decode (clear_attr zero) (Some (al_value (svr_copy e))) = Some (PBSE_NONE, a') \<and> at_set a' \<and> same (at_val a) (at_val a')"
    using wire_entry [OF a] e by auto
  obtain c' where c': "decode_DIS_svrattrl [] cr = (DIS_SUCCESS, [] @ map svr_copy [e], c')" "pending c' = t"
    using svrl.end_to_end [OF w ok rd inp] by blast
  moreover have "al_name (svr_copy e) = n" "al_resc (svr_copy e) = r" by (simp_all add: k svr_copy_def svr_of_def)
  ultimately show ?thesis using d by auto
qed

end

end
