(* ===== verification/Attr_Num.thy ===== *)
theory Attr_Num
  imports Attr_Base "HOL-Library.Signed_Division"
begin

text \<open>
  Attributes with numbers: \<open>long\<close> (\<^verbatim>\<open>attr_fn_l.c\<close>), boolean (\<^verbatim>\<open>attr_fn_b.c\<close>), size (\<^verbatim>\<open>attr_fn_size.c\<close>) and time
  (\<^verbatim>\<open>attr_fn_time.c\<close>) in \<^verbatim>\<open>lib/Libattr\<close>.  A signed overflow is the value \<open>None\<close>, unsigned arithmetic wraps, and a
  failed assertion is \<open>None\<close> as well.
\<close>

section \<open>Long integers\<close>

definition in_long :: "int \<Rightarrow> bool" where
  "in_long v \<longleftrightarrow> - (2 ^ 63) \<le> v \<and> v < 2 ^ 63"

definition decode_l :: "int pbs_attribute \<Rightarrow> char list option \<Rightarrow> (pbse \<times> int pbs_attribute) option" where
  "decode_l patr val =
     (case val of
        Some (c # cs) \<Rightarrow>
          (let pc = (if c = CHR ''+'' \<or> c = CHR ''-'' then cs else c # cs) in
           if list_all is_digit pc then Some (PBSE_NONE, (mark_set patr)\<lparr>at_val := fst (strtol (c # cs))\<rparr>)
           else Some (PBSE_BADATVAL, patr))
      | _ \<Rightarrow> Some (PBSE_NONE, (mark_unset patr)\<lparr>at_val := 0\<rparr>))"

definition encode_l :: "(nat \<Rightarrow> bool) \<Rightarrow> int pbs_attribute \<Rightarrow> char list \<Rightarrow> char list option \<Rightarrow> (int \<times> svrattrl option) option" where
  "encode_l heap attr atname rsname =
     (if \<not> at_set attr then Some (0, None)
      else (let cvnbuf = int_text (at_val attr) in encode_entry heap attr atname rsname (length cvnbuf + 1) cvnbuf))"

definition set_l :: "int pbs_attribute \<Rightarrow> int pbs_attribute \<Rightarrow> batch_op \<Rightarrow> (pbse \<times> int pbs_attribute) option" where
  "set_l attr new_attr op =
     (if \<not> at_set new_attr then None
      else
        (let store = (\<lambda>v. if in_long v then Some (PBSE_NONE, (mark_set attr)\<lparr>at_val := v\<rparr>) else None) in
         case op of
           SET \<Rightarrow> store (at_val new_attr)
         | INCR \<Rightarrow> store (at_val attr + at_val new_attr)
         | DECR \<Rightarrow> store (at_val attr - at_val new_attr)
         | _ \<Rightarrow> Some (PBSE_INTERNAL, attr)))"

definition comp_l :: "int pbs_attribute \<Rightarrow> int pbs_attribute \<Rightarrow> int" where
  "comp_l attr with_attr = (if at_val attr < at_val with_attr then - 1 else if at_val attr > at_val with_attr then 1 else 0)"

section \<open>Booleans\<close>

definition toupper :: "char \<Rightarrow> char" where
  "toupper c = (if 97 \<le> (of_char c :: nat) \<and> (of_char c :: nat) \<le> 122 then char_of ((of_char c :: nat) - 32) else c)"

definition MAX_VAL_LEN :: nat where "MAX_VAL_LEN = 10"

definition decode_b :: "bool pbs_attribute \<Rightarrow> char list option \<Rightarrow> (pbse \<times> bool pbs_attribute) option" where
  "decode_b patr val =
     (case val of
        Some (c # cs) \<Rightarrow>
          (let ucVal = map toupper (take MAX_VAL_LEN (c # cs)) in
           if ucVal \<in> {''True'', ''TRUE'', ''true'', ''t'', ''T'', ''1'', ''y'', ''Y''}
             then Some (PBSE_NONE, (mark_set patr)\<lparr>at_val := True\<rparr>)
           else if ucVal \<in> {''False'', ''FALSE'', ''false'', ''f'', ''F'', ''0'', ''n'', ''N''}
             then Some (PBSE_NONE, (mark_set patr)\<lparr>at_val := False\<rparr>)
           else Some (PBSE_BADATVAL, patr))
      | _ \<Rightarrow> Some (PBSE_NONE, (mark_unset patr)\<lparr>at_val := False\<rparr>))"

definition bool_text :: "bool \<Rightarrow> char list" where
  "bool_text b = (if b then ''True'' else ''False'')"

definition encode_b :: "(nat \<Rightarrow> bool) \<Rightarrow> bool pbs_attribute \<Rightarrow> char list \<Rightarrow> char list option \<Rightarrow> (int \<times> svrattrl option) option" where
  "encode_b heap attr atname rsname =
     (if \<not> at_set attr then Some (0, None)
      else encode_entry heap attr atname rsname (length (bool_text (at_val attr)) + 1) (bool_text (at_val attr)))"

definition set_b :: "bool pbs_attribute \<Rightarrow> bool pbs_attribute \<Rightarrow> batch_op \<Rightarrow> (pbse \<times> bool pbs_attribute) option" where
  "set_b attr new_attr op =
     (if \<not> at_set new_attr then None
      else case op of
        SET \<Rightarrow> Some (PBSE_NONE, (mark_set attr)\<lparr>at_val := at_val new_attr\<rparr>)
      | INCR \<Rightarrow> Some (PBSE_NONE, (mark_set attr)\<lparr>at_val := (at_val attr \<or> at_val new_attr)\<rparr>)
      | DECR \<Rightarrow> Some (PBSE_NONE, (mark_set attr)\<lparr>at_val := (at_val attr \<and> \<not> at_val new_attr)\<rparr>)
      | _ \<Rightarrow> Some (PBSE_INTERNAL, attr))"

definition comp_b :: "bool pbs_attribute \<Rightarrow> bool pbs_attribute \<Rightarrow> int" where
  "comp_b attr with_attr = (if at_val attr = at_val with_attr then 0 else 1)"

section \<open>Sizes\<close>

text \<open>\<open>strtol\<close> with base 0: a leading \<open>0x\<close> means hexadecimal and a leading \<open>0\<close> octal.\<close>

definition hex_val :: "char \<Rightarrow> nat option" where
  "hex_val c =
     (let n = (of_char c :: nat) in
      if 48 \<le> n \<and> n \<le> 57 then Some (n - 48)
      else if 97 \<le> n \<and> n \<le> 102 then Some (n - 87)
      else if 65 \<le> n \<and> n \<le> 70 then Some (n - 55)
      else None)"

definition in_base :: "nat \<Rightarrow> char \<Rightarrow> bool" where
  "in_base b c = (case hex_val c of None \<Rightarrow> False | Some d \<Rightarrow> d < b)"

definition base_val :: "nat \<Rightarrow> char list \<Rightarrow> nat" where
  "base_val b ds = foldl (\<lambda>a c. b * a + (case hex_val c of None \<Rightarrow> 0 | Some d \<Rightarrow> d)) 0 ds"

definition strtol_base0 :: "char list \<Rightarrow> int \<times> char list" where
  "strtol_base0 s =
     (let t = dropWhile isspace s;
          neg = (t \<noteq> [] \<and> hd t = CHR ''-'');
          u = (if t \<noteq> [] \<and> (hd t = CHR ''-'' \<or> hd t = CHR ''+'') then tl t else t);
          hex = (length u \<ge> 3 \<and> hd u = CHR ''0'' \<and> (u ! 1 = CHR ''x'' \<or> u ! 1 = CHR ''X'') \<and> in_base 16 (u ! 2));
          b = (if hex then 16 else if u \<noteq> [] \<and> hd u = CHR ''0'' then 8 else 10);
          w = (if hex then drop 2 u else u);
          ds = takeWhile (in_base b) w;
          v = int (base_val b ds)
      in if ds = [] then (0, s)
         else (if neg then max (- (2 ^ 63)) (- v) else min (2 ^ 63 - 1) v, dropWhile (in_base b) w))"

text \<open>\<open>atsv_units\<close> is set when the size counts words.\<close>

record size_value =
  atsv_num :: c_ulong
  atsv_shift :: nat
  atsv_units :: bool

definition size_shift :: "char \<Rightarrow> nat option" where
  "size_shift c =
     (if c \<in> {CHR ''k'', CHR ''K''} then Some 10 else if c \<in> {CHR ''m'', CHR ''M''} then Some 20
      else if c \<in> {CHR ''g'', CHR ''G''} then Some 30 else if c \<in> {CHR ''t'', CHR ''T''} then Some 40
      else if c \<in> {CHR ''p'', CHR ''P''} then Some 50 else if c \<in> {CHR ''e'', CHR ''E''} then Some 60 else None)"

definition to_size :: "char list \<Rightarrow> size_value \<Rightarrow> pbse \<times> size_value" where
  "to_size val psize =
     (let (num, pc) = strtol_base0 val;
          psize = psize\<lparr>atsv_units := False, atsv_num := word_of_int num\<rparr>;
          is_b = (\<lambda>c. c \<in> {CHR ''b'', CHR ''B''});
          is_w = (\<lambda>c. c \<in> {CHR ''w'', CHR ''W''})
      in if pc = val then (PBSE_BADATVAL, psize)
         else case pc of
           [] \<Rightarrow> (PBSE_NONE, psize\<lparr>atsv_shift := 0\<rparr>)
         | c # cs \<Rightarrow>
             (if is_b c \<or> is_w c then
                (if cs = [] then PBSE_NONE else PBSE_BADATVAL, psize\<lparr>atsv_units := is_w c\<rparr>)
              else
                (case size_shift c of
                   None \<Rightarrow> (PBSE_BADATVAL, psize)
                 | Some k \<Rightarrow>
                     (let psize = psize\<lparr>atsv_shift := k\<rparr> in
                      if cs = [] \<or> is_b (hd cs) then (PBSE_NONE, psize)
                      else if is_w (hd cs) then (PBSE_NONE, psize\<lparr>atsv_units := True\<rparr>)
                      else (PBSE_BADATVAL, psize)))))"

definition from_size :: "size_value \<Rightarrow> char list" where
  "from_size psize =
     dec (unat (atsv_num psize)) @
     (if atsv_shift psize = 10 then ''k'' else if atsv_shift psize = 20 then ''m'' else if atsv_shift psize = 30 then ''g''
      else if atsv_shift psize = 40 then ''t'' else if atsv_shift psize = 50 then ''p'' else []) @
     (if atsv_units psize then ''w'' else ''b'')"

definition ENCODE_SIZE_SIZE :: nat where "ENCODE_SIZE_SIZE = 23"

definition decode_size :: "size_value pbs_attribute \<Rightarrow> char list option \<Rightarrow> (pbse \<times> size_value pbs_attribute) option" where
  "decode_size patr val =
     (let patr = patr\<lparr>at_val := (at_val patr)\<lparr>atsv_num := 0, atsv_shift := 0\<rparr>\<rparr> in
      case val of
        Some (c # cs) \<Rightarrow>
          (case to_size (c # cs) (at_val patr) of
             (rc, sz) \<Rightarrow>
               if rc \<noteq> PBSE_NONE then Some (PBSE_BADATVAL, patr\<lparr>at_val := sz\<rparr>)
               else Some (PBSE_NONE, (mark_set patr)\<lparr>at_val := sz\<rparr>))
      | _ \<Rightarrow> Some (PBSE_NONE, mark_unset patr))"

definition encode_size :: "(nat \<Rightarrow> bool) \<Rightarrow> size_value pbs_attribute \<Rightarrow> char list \<Rightarrow> char list option \<Rightarrow> (int \<times> svrattrl option) option" where
  "encode_size heap attr atname rsname =
     (if \<not> at_set attr then Some (0, None)
      else (let cvnbuf = from_size (at_val attr) in encode_entry heap attr atname rsname (length cvnbuf + 1) cvnbuf))"

text \<open>Both sizes in the same unit and with the same shift; \<open>- 1\<close> says that bits would be lost.\<close>

definition normalize_size :: "size_value \<Rightarrow> size_value \<Rightarrow> int \<times> size_value \<times> size_value" where
  "normalize_size a b =
     (let ta = (if atsv_units a \<and> \<not> atsv_units b then a\<lparr>atsv_num := atsv_num a * 4, atsv_units := False\<rparr> else a);
          tb = (if \<not> atsv_units a \<and> atsv_units b then b\<lparr>atsv_num := atsv_num b * 4, atsv_units := False\<rparr> else b)
      in if atsv_shift ta > atsv_shift tb then
           (let adj = atsv_shift ta - atsv_shift tb in
            if adj > 32 \<or> drop_bit adj (push_bit adj (atsv_num ta)) \<noteq> atsv_num ta then (- 1, ta, tb)
            else (0, ta\<lparr>atsv_shift := atsv_shift tb, atsv_num := push_bit adj (atsv_num ta)\<rparr>, tb))
         else if atsv_shift ta < atsv_shift tb then
           (let adj = atsv_shift tb - atsv_shift ta in
            if adj > 32 \<or> drop_bit adj (push_bit adj (atsv_num tb)) \<noteq> atsv_num tb then (- 1, ta, tb)
            else (0, ta, tb\<lparr>atsv_shift := atsv_shift ta, atsv_num := push_bit adj (atsv_num tb)\<rparr>))
         else (0, ta, tb))"

definition comp_size :: "size_value pbs_attribute \<Rightarrow> size_value pbs_attribute \<Rightarrow> int" where
  "comp_size attr with_attr =
     (case normalize_size (at_val attr) (at_val with_attr) of
        (rc, tmpa, tmpw) \<Rightarrow>
          if rc \<noteq> 0 then (if atsv_shift tmpa > atsv_shift tmpw then 1 else if atsv_shift tmpa < atsv_shift tmpw then - 1 else 0)
          else if atsv_num tmpa > atsv_num tmpw then 1
          else if atsv_num tmpa < atsv_num tmpw then - 1
          else 0)"

definition set_size :: "size_value pbs_attribute \<Rightarrow> size_value pbs_attribute \<Rightarrow> batch_op \<Rightarrow> (pbse \<times> size_value pbs_attribute) option" where
  "set_size attr new_attr op =
     (if \<not> at_set new_attr then None
      else
        (case normalize_size (at_val attr) (at_val new_attr) of
           (rc, tmpa, tmpn) \<Rightarrow>
             (case op of
                SET \<Rightarrow> Some (PBSE_NONE, (mark_set attr)\<lparr>at_val := at_val new_attr\<rparr>)
              | INCR \<Rightarrow>
                  (if rc < 0 \<or> atsv_num tmpa + atsv_num tmpn < atsv_num tmpa then Some (PBSE_BADATVAL, attr)
                   else Some (PBSE_NONE, (mark_set attr)\<lparr>at_val := tmpa\<lparr>atsv_num := atsv_num tmpa + atsv_num tmpn\<rparr>\<rparr>))
              | DECR \<Rightarrow>
                  (if rc < 0 \<or> atsv_num tmpa - atsv_num tmpn > atsv_num tmpa then Some (PBSE_BADATVAL, attr)
                   else Some (PBSE_NONE, (mark_set attr)\<lparr>at_val := tmpa\<lparr>atsv_num := atsv_num tmpa - atsv_num tmpn\<rparr>\<rparr>))
              | _ \<Rightarrow> Some (PBSE_INTERNAL, attr))))"

section \<open>Times\<close>

text \<open>
  The loop over the characters of a time.  \<open>work\<close> is the text from \<open>workval\<close> to the current character, and
  the result is the last part, the days, the value so far and the fraction; \<open>None\<close> is a bad character.
\<close>

definition msec_of :: "char list \<Rightarrow> char list" where
  "msec_of cs = take 3 cs @ drop (length (take 3 cs)) ''000''"

fun time_loop :: "char list \<Rightarrow> bool \<Rightarrow> int \<Rightarrow> int \<Rightarrow> char list \<Rightarrow> (char list \<times> int \<times> int \<times> char list) option" where
  "time_loop work use_days days rv [] = Some (work, days, rv, msec_of [])"
| "time_loop work use_days days rv (c # cs) =
     (if c = CHR '':'' then
        (if use_days then time_loop [] False (fst (strtol_int work)) rv cs
         else time_loop [] False days (rv * 60 + fst (strtol_int work)) cs)
      else if c = CHR ''.'' then Some (work, days, rv, msec_of cs)
      else if \<not> is_digit c then None
      else time_loop (work @ [c]) use_days days rv cs)"

definition PBS_MAX_TIME :: int where "PBS_MAX_TIME = 2 ^ 63 - 2"

definition ncolon :: "char list \<Rightarrow> nat" where
  "ncolon val = length (filter (\<lambda>c. c = CHR '':'') val)"

text \<open>The product of the days is computed in an \<open>int\<close>; its overflow is \<open>None\<close>.\<close>

definition decode_time :: "int pbs_attribute \<Rightarrow> char list option \<Rightarrow> (pbse \<times> int pbs_attribute) option" where
  "decode_time patr val =
     (case val of
        Some (c # cs) \<Rightarrow>
          (if ncolon (c # cs) > 3 then Some (PBSE_BADATVAL, patr)
           else
             (case time_loop [] (ncolon (c # cs) > 2) 0 0 (c # cs) of
                None \<Rightarrow> Some (PBSE_BADATVAL, patr)
              | Some (work, days, rv, msec) \<Rightarrow>
                  (let rv = rv * 60 + fst (strtol_int work);
                       secs = (if days > 0 then days * 24 * 3600 else 0)
                   in if secs > INT_MAX then None
                      else if rv + secs > PBS_MAX_TIME then Some (PBSE_BADATVAL, patr)
                      else Some (PBSE_NONE, (mark_set patr)\<lparr>at_val := rv + secs + (if fst (strtol_int msec) \<ge> 500 then 1 else 0)\<rparr>))))
      | _ \<Rightarrow> Some (PBSE_NONE, (mark_unset patr)\<lparr>at_val := 0\<rparr>))"

text \<open>\<open>%02d\<close>.\<close>

definition two_digits :: "int \<Rightarrow> char list" where
  "two_digits d = (if 0 \<le> d \<and> d < 10 then CHR ''0'' # int_text d else int_text d)"

definition get_time_string :: "nat \<Rightarrow> int \<Rightarrow> char list" where
  "get_time_string string_size timeval =
     (let hr = to_int (timeval sdiv 3600);
          timeval = timeval smod 3600;
          mn = to_int (timeval sdiv 60);
          sec = to_int (timeval smod 60)
      in snprintf_text string_size (two_digits hr @ '':'' @ two_digits mn @ '':'' @ two_digits sec))"

definition ENCODE_TIME_SIZE :: nat where "ENCODE_TIME_SIZE = 21"

definition encode_time :: "(nat \<Rightarrow> bool) \<Rightarrow> int pbs_attribute \<Rightarrow> char list \<Rightarrow> char list option \<Rightarrow> (int \<times> svrattrl option) option" where
  "encode_time heap attr atname rsname =
     (if \<not> at_set attr then Some (0, None)
      else (let cvnbuf = get_time_string ENCODE_TIME_SIZE (at_val attr)
            in encode_entry heap attr atname rsname (length cvnbuf + 1) cvnbuf))"

end
