(* ===== verification/Attr_Num_Props.thy ===== *)
theory Attr_Num_Props
  imports Attr_Num
begin

text \<open>
  What the functions of numeric attributes promise: each type is an \<open>attribute_type\<close>, sizes are compared
  and added as numbers of bytes, and the inputs on which the code does something else.
\<close>

section \<open>Text of long integers and booleans\<close>

lemma strtol_neg:
  assumes "n \<le> 2 ^ 63"
  shows "strtol (CHR ''-'' # dec n) = (- int n, [])"
proof -
  have t: "takeWhile is_digit (dec n) = dec n" "dropWhile is_digit (dec n) = []"
    using takeWhile_dec [of "[]" n] dropWhile_dec [of "[]" n] by simp_all
  have "- (2 ^ 63) \<le> - int n" using assms by simp
  then show ?thesis by (simp add: strtol_def isspace_def t)
qed

lemma strtol_int_text: "in_long v \<Longrightarrow> strtol (int_text v) = (v, [])"
proof (cases "v < 0")
  case True
  moreover assume "in_long v"
  ultimately have "nat (- v) \<le> 2 ^ 63" by (simp add: in_long_def)
  from strtol_neg [OF this] show ?thesis using True by (simp add: int_text_def)
next
  case False
  moreover assume "in_long v"
  ultimately have "nat v < 2 ^ 63" by (simp add: in_long_def)
  from strtol_dec [OF _ this, of "[]"] show ?thesis using False by simp
qed

lemma int_text_shape: "\<exists>c cs. int_text v = c # cs \<and> list_all is_digit (if c = CHR ''+'' \<or> c = CHR ''-'' then cs else c # cs)"
proof -
  have d: "list_all is_digit (dec n)" for n using dec_digits by (auto simp: list_all_iff)
  obtain c cs where c: "dec (nat v) = c # cs" by (metis dec_not_Nil list.exhaust)
  have "is_digit c" using d [of "nat v"] c by simp
  then have "c \<noteq> CHR ''+''" "c \<noteq> CHR ''-''" by auto
  then show ?thesis using d [of "nat v"] d [of "nat (- v)"] c by (cases "v < 0") (auto simp: int_text_def)
qed

lemma nul_free_int_text: "NUL \<notin> set (int_text v)"
  by (simp add: int_text_def)

interpretation long_attr: attribute_type decode_l "encode_l (\<lambda>n. True)" 0 int_text in_long "(=)"
proof
  fix a :: "int pbs_attribute" and n r
  show "\<not> at_set a \<Longrightarrow> encode_l (\<lambda>n. True) a n r = Some (0, None)" by (simp add: encode_l_def)
  show "\<exists>k. encode_l (\<lambda>n. True) a n r = Some (1, Some (entry_of a n r k (int_text (at_val a))))" if "at_set a"
    using that by (auto simp: encode_l_def Let_def encode_entry_eq)
next
  fix v
  assume v: "in_long v"
  obtain c cs where c: "int_text v = c # cs" "list_all is_digit (if c = CHR ''+'' \<or> c = CHR ''-'' then cs else c # cs)"
    using int_text_shape by blast
  show "\<exists>a. decode_l (clear_attr 0) (Some (int_text v)) = Some (PBSE_NONE, a) \<and> at_set a \<and> v = at_val a"
    using strtol_int_text [OF v] c by (auto simp: decode_l_def Let_def)
qed (rule nul_free_int_text)

interpretation bool_attr: attribute_type decode_b "encode_b (\<lambda>n. True)" False bool_text "\<lambda>v. True" "(=)"
proof
  fix a :: "bool pbs_attribute" and n r
  show "\<not> at_set a \<Longrightarrow> encode_b (\<lambda>n. True) a n r = Some (0, None)" by (simp add: encode_b_def)
  show "\<exists>k. encode_b (\<lambda>n. True) a n r = Some (1, Some (entry_of a n r k (bool_text (at_val a))))" if "at_set a"
    using that by (auto simp: encode_b_def encode_entry_eq)
next
  fix v
  have upper: "toupper (CHR ''T'') = CHR ''T''" "toupper (CHR ''F'') = CHR ''F''" "toupper (CHR ''r'') = CHR ''R''"
    "toupper (CHR ''u'') = CHR ''U''" "toupper (CHR ''e'') = CHR ''E''" "toupper (CHR ''a'') = CHR ''A''"
    "toupper (CHR ''l'') = CHR ''L''" "toupper (CHR ''s'') = CHR ''S''" by code_simp+
  show "\<exists>a. decode_b (clear_attr False) (Some (bool_text v)) = Some (PBSE_NONE, a) \<and> at_set a \<and> v = at_val a"
    by (cases v) (simp_all add: decode_b_def bool_text_def MAX_VAL_LEN_def upper)
qed (auto simp: bool_text_def)

section \<open>Text of sizes\<close>

lemma hd_dec_zero: "hd (dec n) = CHR ''0'' \<longleftrightarrow> n = 0"
proof (induction n rule: dec.induct)
  case (1 n)
  show ?case
  proof (cases "n < 10")
    case True
    have "digit_char n = digit_char 0 \<longleftrightarrow> n = 0" using True by simp
    then show ?thesis using True by (simp add: dec_small digit_chars(1))
  next
    case False
    then show ?thesis using 1 by (simp add: dec_step)
  qed
qed

lemma in_base_digit: "is_digit c \<Longrightarrow> hex_val c = Some (digit_val c)"
  by (simp add: is_digit_def hex_val_def digit_val_def)

lemma in_base_10: "in_base 10 c = is_digit c"
  by (auto simp: in_base_def hex_val_def is_digit_def Let_def)

lemma base_val_10:
  assumes "\<forall>c \<in> set ds. is_digit c"
  shows "base_val 10 ds = dval ds"
proof -
  have "foldl (\<lambda>a c. 10 * a + (case hex_val c of None \<Rightarrow> 0 | Some d \<Rightarrow> d)) x ds = foldl (\<lambda>a c. 10 * a + digit_val c) x ds" for x
    using assms by (induction ds arbitrary: x) (simp_all add: in_base_digit)
  then show ?thesis by (simp add: base_val_def dval_from_def)
qed

lemma strtol_base0_dec:
  assumes "n < 2 ^ 63" and "r = [] \<or> (\<not> is_digit (hd r) \<and> hd r \<noteq> CHR ''x'' \<and> hd r \<noteq> CHR ''X'')"
  shows "strtol_base0 (dec n @ r) = (int n, r)"
proof -
  let ?s = "dec n @ r"
  have d: "is_digit (hd ?s)" by (simp add: hd_append)
  have sp: "dropWhile isspace ?s = ?s" by (rule dropWhile_hd) (use d in auto)
  have sg: "hd ?s \<noteq> CHR ''-''" "hd ?s \<noteq> CHR ''+''" using digit_not_sign [OF d] by blast+
  have ne: "num_end r" using assms(2) by (cases r) auto
  show ?thesis
  proof (cases "n = 0")
    case True
    then have e: "?s = CHR ''0'' # r" by (simp add: dec_small digit_chars(1))
    have z: "in_base 8 (CHR ''0'')" by (simp add: in_base_def hex_val_def)
    have nb: "takeWhile (in_base 8) r = []" "dropWhile (in_base 8) r = r"
      if "r = [] \<or> \<not> in_base 8 (hd r)" using that by (cases r; simp)+
    have "r = [] \<or> \<not> in_base 8 (hd r)" using assms(2) by (auto simp: in_base_def hex_val_def is_digit_def Let_def)
    from nb [OF this] show ?thesis
      using assms(2) True sp e z by (cases r) (auto simp: strtol_base0_def Let_def isspace_def base_val_def hex_val_def)
  next
    case False
    then have h: "hd ?s \<noteq> CHR ''0''" using hd_dec_zero by (simp add: hd_append)
    have "base_val 10 (dec n) = n" using base_val_10 [of "dec n"] dec_digits by simp
    moreover have "in_base 10 = is_digit" by (rule ext) (rule in_base_10)
    moreover have "int n \<le> 2 ^ 63 - 1" using assms(1) by simp
    ultimately show ?thesis unfolding strtol_base0_def sp Let_def
      using sg h by (simp add: takeWhile_dec [OF ne] dropWhile_dec [OF ne])
  qed
qed

text \<open>The sizes that the encoder can write: no exabytes, and a number that \<open>strtol\<close> can read.\<close>

definition size_valid :: "size_value \<Rightarrow> bool" where
  "size_valid s \<longleftrightarrow> unat (atsv_num s) < 2 ^ 63 \<and> atsv_shift s \<in> {0, 10, 20, 30, 40, 50}"

lemma to_from_size:
  assumes "size_valid s"
  shows "to_size (from_size s) s0 = (PBSE_NONE, s\<lparr>atsv_shift := if atsv_shift s = 0 then atsv_shift s0 else atsv_shift s\<rparr>)"
proof -
  let ?u = "if atsv_units s then ''w'' else ''b''"
  let ?k = "if atsv_shift s = 10 then ''k'' else if atsv_shift s = 20 then ''m'' else if atsv_shift s = 30 then ''g''
      else if atsv_shift s = 40 then ''t'' else if atsv_shift s = 50 then ''p'' else []"
  have f: "from_size s = dec (unat (atsv_num s)) @ ?k @ ?u" by (simp add: from_size_def)
  have "strtol_base0 (dec (unat (atsv_num s)) @ ?k @ ?u) = (int (unat (atsv_num s)), ?k @ ?u)"
    by (rule strtol_base0_dec) (use assms in \<open>auto simp: size_valid_def is_digit_def\<close>)
  then have p: "strtol_base0 (from_size s) = (uint (atsv_num s), ?k @ ?u)" unfolding f by simp
  have n: "?k @ ?u \<noteq> from_size s" by (simp add: f)
  consider "atsv_shift s = 0" | "atsv_shift s = 10" | "atsv_shift s = 20" | "atsv_shift s = 30" | "atsv_shift s = 40" | "atsv_shift s = 50"
    using assms by (auto simp: size_valid_def)
  then show ?thesis using n unfolding to_size_def p by cases (auto simp: size_shift_def Let_def)
qed

lemma nul_free_from_size: "NUL \<notin> set (from_size s)"
  by (simp add: from_size_def)

abbreviation size_zero :: size_value where
  "size_zero \<equiv> \<lparr>atsv_num = 0, atsv_shift = 0, atsv_units = False\<rparr>"

interpretation size_attr: attribute_type decode_size "encode_size (\<lambda>n. True)" size_zero from_size size_valid "(=)"
proof
  fix a :: "size_value pbs_attribute" and n r
  show "\<not> at_set a \<Longrightarrow> encode_size (\<lambda>n. True) a n r = Some (0, None)" by (simp add: encode_size_def)
  show "\<exists>k. encode_size (\<lambda>n. True) a n r = Some (1, Some (entry_of a n r k (from_size (at_val a))))" if "at_set a"
    using that by (auto simp: encode_size_def Let_def encode_entry_eq)
next
  fix s
  assume v: "size_valid s"
  obtain c cs where c: "from_size s = c # cs" by (metis from_size_def append_is_Nil_conv dec_not_Nil list.exhaust)
  have "to_size (c # cs) size_zero = (PBSE_NONE, s)" using to_from_size [OF v, of size_zero] c by simp
  then show "\<exists>a. decode_size (clear_attr size_zero) (Some (from_size s)) = Some (PBSE_NONE, a) \<and> at_set a \<and> s = at_val a"
    by (simp add: decode_size_def c)
qed (rule nul_free_from_size)

section \<open>Sizes as numbers of bytes\<close>

definition size_bytes :: "size_value \<Rightarrow> nat" where
  "size_bytes s = unat (atsv_num s) * 2 ^ atsv_shift s * (if atsv_units s then 4 else 1)"

text \<open>The number of words, if it has to be turned into bytes, does not wrap.\<close>

definition words_fit :: "size_value \<Rightarrow> size_value \<Rightarrow> bool" where
  "words_fit a b \<longleftrightarrow> (atsv_units a \<noteq> atsv_units b \<longrightarrow> unat (atsv_num (if atsv_units a then a else b)) < 2 ^ 62)"

lemma shift_back:
  fixes x :: c_ulong
  assumes "k < 64"
  shows "drop_bit k (push_bit k x) = x \<longleftrightarrow> unat x * 2 ^ k < 2 ^ 64"
    and "unat x * 2 ^ k < 2 ^ 64 \<Longrightarrow> unat (push_bit k x) = unat x * 2 ^ k"
proof -
  have u: "unat (push_bit k x) = unat x * 2 ^ k mod 2 ^ 64"
    by (simp only: unsigned_push_bit_eq) (simp add: take_bit_eq_mod push_bit_eq_mult)
  have d: "unat (drop_bit k (push_bit k x)) = unat x * 2 ^ k mod 2 ^ 64 div 2 ^ k"
    by (simp only: unsigned_drop_bit_eq) (simp add: drop_bit_eq_div take_bit_eq_mod u)
  show "unat x * 2 ^ k < 2 ^ 64 \<Longrightarrow> unat (push_bit k x) = unat x * 2 ^ k" by (simp add: u)
  show "drop_bit k (push_bit k x) = x \<longleftrightarrow> unat x * 2 ^ k < 2 ^ 64"
  proof
    assume "drop_bit k (push_bit k x) = x"
    then have "unat x * 2 ^ k mod 2 ^ 64 div 2 ^ k = unat x" using d by simp
    then have "unat x * 2 ^ k \<le> unat x * 2 ^ k mod 2 ^ 64" by (metis div_times_less_eq_dividend)
    also have "\<dots> < 2 ^ 64" by simp
    finally show "unat x * 2 ^ k < 2 ^ 64" .
  next
    assume "unat x * 2 ^ k < 2 ^ 64"
    then have "unat (drop_bit k (push_bit k x)) = unat x" using d by simp
    then show "drop_bit k (push_bit k x) = x" by (simp add: word_unat_eq_iff)
  qed
qed

text \<open>Both values in the unit that \<open>normalize_size\<close> chooses, before the shifts are made equal.\<close>

definition same_units :: "size_value \<Rightarrow> size_value \<Rightarrow> size_value" where
  "same_units a b = (if atsv_units a \<and> \<not> atsv_units b then a\<lparr>atsv_num := atsv_num a * 4, atsv_units := False\<rparr> else a)"

lemma same_units_simps:
  assumes "words_fit a b"
  shows "size_bytes (same_units a b) = size_bytes a" "size_bytes (same_units b a) = size_bytes b"
    "atsv_shift (same_units a b) = atsv_shift a" "atsv_shift (same_units b a) = atsv_shift b"
    "atsv_units (same_units a b) = atsv_units (same_units b a)"
proof -
  have m: "unat (x * 4) = unat x * 4" if "unat x < 2 ^ 62" for x :: c_ulong
    using that by (simp add: unat_word_ariths)
  show "size_bytes (same_units a b) = size_bytes a" "size_bytes (same_units b a) = size_bytes b"
    using assms by (auto simp: same_units_def size_bytes_def words_fit_def m split: if_splits)
qed (auto simp: same_units_def)

lemma size_bytes_shift:
  assumes "atsv_shift t \<le> atsv_shift s" and "unat (atsv_num s) * 2 ^ (atsv_shift s - atsv_shift t) < 2 ^ 64" and "atsv_shift s - atsv_shift t < 64"
  shows "size_bytes (s\<lparr>atsv_shift := atsv_shift t, atsv_num := push_bit (atsv_shift s - atsv_shift t) (atsv_num s)\<rparr>) = size_bytes s"
proof -
  have "(2::nat) ^ (atsv_shift s - atsv_shift t) * 2 ^ atsv_shift t = 2 ^ atsv_shift s"
    using assms(1) by (simp flip: power_add)
  then show ?thesis using assms(3) shift_back(2) [OF assms(3,2)] by (simp add: size_bytes_def)
qed

lemma size_bytes_less:
  assumes "atsv_shift t < atsv_shift s" and "atsv_units s = atsv_units t"
    and "\<not> unat (atsv_num s) * 2 ^ (atsv_shift s - atsv_shift t) < 2 ^ 64"
  shows "size_bytes t < size_bytes s"
proof -
  have "unat (atsv_num t) < 2 ^ 64" using unsigned_less [of "atsv_num t"] by simp
  then have "unat (atsv_num t) < unat (atsv_num s) * 2 ^ (atsv_shift s - atsv_shift t)" using assms(3) by linarith
  then have "unat (atsv_num t) * 2 ^ atsv_shift t < unat (atsv_num s) * 2 ^ (atsv_shift s - atsv_shift t) * 2 ^ atsv_shift t" by simp
  also have "\<dots> = unat (atsv_num s) * 2 ^ atsv_shift s" using assms(1) by (simp add: mult.assoc flip: power_add)
  finally show ?thesis using assms(2) by (simp add: size_bytes_def)
qed

lemma normalize_size_same:
  "normalize_size a b =
     (let ta = same_units a b; tb = same_units b a
      in if atsv_shift tb < atsv_shift ta then
           (let adj = atsv_shift ta - atsv_shift tb in
            if adj > 32 \<or> drop_bit adj (push_bit adj (atsv_num ta)) \<noteq> atsv_num ta then (- 1, ta, tb)
            else (0, ta\<lparr>atsv_shift := atsv_shift tb, atsv_num := push_bit adj (atsv_num ta)\<rparr>, tb))
         else if atsv_shift ta < atsv_shift tb then
           (let adj = atsv_shift tb - atsv_shift ta in
            if adj > 32 \<or> drop_bit adj (push_bit adj (atsv_num tb)) \<noteq> atsv_num tb then (- 1, ta, tb)
            else (0, ta, tb\<lparr>atsv_shift := atsv_shift ta, atsv_num := push_bit adj (atsv_num tb)\<rparr>))
         else (0, ta, tb))"
  by (auto simp: normalize_size_def same_units_def Let_def)

lemma normalize_size_cases:
  assumes "words_fit a b" and "atsv_shift a \<le> atsv_shift b + 32" and "atsv_shift b \<le> atsv_shift a + 32"
  obtains ta tb where "normalize_size a b = (0, ta, tb)" "size_bytes ta = size_bytes a" "size_bytes tb = size_bytes b"
    "atsv_shift ta = atsv_shift tb" "atsv_units ta = atsv_units tb"
  | ta tb where "normalize_size a b = (- 1, ta, tb)" "atsv_shift ta = atsv_shift a" "atsv_shift tb = atsv_shift b"
    "atsv_shift a > atsv_shift b \<and> size_bytes a > size_bytes b \<or> atsv_shift a < atsv_shift b \<and> size_bytes a < size_bytes b"
proof -
  let ?a = "same_units a b" and ?b = "same_units b a"
  note u = same_units_simps [OF assms(1)]
  consider "atsv_shift b < atsv_shift a" | "atsv_shift a < atsv_shift b" | "atsv_shift a = atsv_shift b" by linarith
  then show thesis
  proof cases
    case 1
    let ?d = "atsv_shift a - atsv_shift b"
    have d: "?d < 64" "\<not> ?d > 32" using assms(2) by simp_all
    note bk = shift_back(1) [OF d(1), of "atsv_num ?a"]
    show thesis
    proof (cases "unat (atsv_num ?a) * 2 ^ ?d < 2 ^ 64")
      case True
      have "size_bytes (?a\<lparr>atsv_shift := atsv_shift ?b, atsv_num := push_bit ?d (atsv_num ?a)\<rparr>) = size_bytes a"
        using size_bytes_shift [of ?b ?a] True d 1 by (simp add: u)
      moreover have "normalize_size a b = (0, ?a\<lparr>atsv_shift := atsv_shift ?b, atsv_num := push_bit ?d (atsv_num ?a)\<rparr>, ?b)"
        using True bk d 1 by (simp add: normalize_size_same Let_def u)
      ultimately show thesis using that(1) u by simp
    next
      case False
      have "size_bytes b < size_bytes a" using size_bytes_less [of ?b ?a] False 1 by (simp add: u)
      moreover have "normalize_size a b = (- 1, ?a, ?b)"
        using False bk d 1 by (simp add: normalize_size_same Let_def u)
      ultimately show thesis using that(2) u 1 by simp
    qed
  next
    case 2
    let ?d = "atsv_shift b - atsv_shift a"
    have d: "?d < 64" "\<not> ?d > 32" using assms(3) by simp_all
    note bk = shift_back(1) [OF d(1), of "atsv_num ?b"]
    show thesis
    proof (cases "unat (atsv_num ?b) * 2 ^ ?d < 2 ^ 64")
      case True
      have "size_bytes (?b\<lparr>atsv_shift := atsv_shift ?a, atsv_num := push_bit ?d (atsv_num ?b)\<rparr>) = size_bytes b"
        using size_bytes_shift [of ?a ?b] True d 2 by (simp add: u)
      moreover have "normalize_size a b = (0, ?a, ?b\<lparr>atsv_shift := atsv_shift ?a, atsv_num := push_bit ?d (atsv_num ?b)\<rparr>)"
        using True bk d 2 by (simp add: normalize_size_same Let_def u)
      ultimately show thesis using that(1) u by simp
    next
      case False
      have "size_bytes a < size_bytes b" using size_bytes_less [of ?a ?b] False 2 by (simp add: u)
      moreover have "normalize_size a b = (- 1, ?a, ?b)"
        using False bk d 2 by (simp add: normalize_size_same Let_def u)
      ultimately show thesis using that(2) u 2 by simp
    qed
  next
    case 3
    then show thesis using that(1) [of ?a ?b] u by (simp add: normalize_size_same Let_def)
  qed
qed

lemma size_bytes_same:
  assumes "atsv_shift ta = atsv_shift tb" "atsv_units ta = atsv_units tb"
  shows "size_bytes ta < size_bytes tb \<longleftrightarrow> atsv_num ta < atsv_num tb"
    and "size_bytes ta = size_bytes tb \<longleftrightarrow> atsv_num ta = atsv_num tb"
  using assms by (simp_all add: size_bytes_def word_less_nat_alt word_unat_eq_iff)

text \<open>
  C24: sizes compare as the numbers of bytes they stand for, in whatever units and multiples they are written, as
  long as the multiples are at most 32 bits apart and the words, where only one of the two counts words, fit in
  an unsigned long as bytes.
\<close>

theorem comp_size_bytes:
  assumes "words_fit (at_val a) (at_val b)"
    and "atsv_shift (at_val a) \<le> atsv_shift (at_val b) + 32" and "atsv_shift (at_val b) \<le> atsv_shift (at_val a) + 32"
  shows "comp_size a b = sgn (int (size_bytes (at_val a)) - int (size_bytes (at_val b)))"
proof (rule normalize_size_cases [OF assms], goal_cases)
  case (1 ta tb)
  then show ?case using size_bytes_same [of ta tb] size_bytes_same [of tb ta]
    by (auto simp: comp_size_def sgn_if)
next
  case (2 ta tb)
  then show ?case by (auto simp: comp_size_def sgn_if)
qed

lemma unat_add_wraps:
  fixes x y :: c_ulong
  shows "x + y < x \<longleftrightarrow> unat x + unat y \<ge> 2 ^ 64" and "unat x + unat y < 2 ^ 64 \<Longrightarrow> unat (x + y) = unat x + unat y"
    and "x - y > x \<longleftrightarrow> unat x < unat y" and "unat y \<le> unat x \<Longrightarrow> unat (x - y) = unat x - unat y"
proof -
  have lt: "unat x < 2 ^ 64" "unat y < 2 ^ 64" using unsigned_less [of x] unsigned_less [of y] by simp_all
  have p: "unat (x + y) = (unat x + unat y) mod 2 ^ 64" by (simp add: unat_word_ariths)
  show "unat x + unat y < 2 ^ 64 \<Longrightarrow> unat (x + y) = unat x + unat y" by (simp add: p)
  have "unat (x + y) < unat x \<longleftrightarrow> unat x + unat y \<ge> 2 ^ 64"
  proof (cases "unat x + unat y < 2 ^ 64")
    case True
    then show ?thesis by (simp add: p)
  next
    case False
    then have "(unat x + unat y) mod 2 ^ 64 = unat x + unat y - 2 ^ 64" using lt by (simp add: mod_if)
    then show ?thesis using False lt p by simp
  qed
  then show "x + y < x \<longleftrightarrow> unat x + unat y \<ge> 2 ^ 64" by (simp add: word_less_nat_alt)
  show d: "unat y \<le> unat x \<Longrightarrow> unat (x - y) = unat x - unat y" by (simp add: unat_sub word_le_nat_alt)
  have "unat (x - y) = unat x + 2 ^ 64 - unat y" if "unat x < unat y"
    using that unat_sub_if_size [of x y] by (simp add: word_size word_le_nat_alt)
  then have "unat (x - y) > unat x \<longleftrightarrow> unat x < unat y" using d lt by (cases "unat x < unat y") auto
  then show "x - y > x \<longleftrightarrow> unat x < unat y" by (simp add: word_less_nat_alt)
qed

text \<open>
  Adding to and subtracting from a size changes the number of bytes by that of the other, or leaves the
  attribute as it was and reports a bad value.
\<close>

theorem set_size_bytes:
  assumes "at_set n" and "op = INCR \<or> op = DECR" and "words_fit (at_val a) (at_val n)"
    and "atsv_shift (at_val a) \<le> atsv_shift (at_val n) + 32" and "atsv_shift (at_val n) \<le> atsv_shift (at_val a) + 32"
  shows "set_size a n op = Some (PBSE_BADATVAL, a) \<or>
    (\<exists>a'. set_size a n op = Some (PBSE_NONE, a') \<and> at_set a' \<and>
      int (size_bytes (at_val a')) =
        (if op = INCR then int (size_bytes (at_val a)) + int (size_bytes (at_val n))
         else int (size_bytes (at_val a)) - int (size_bytes (at_val n))))"
proof (rule normalize_size_cases [OF assms(3-5)], goal_cases)
  case (1 ta tb)
  have s: "size_bytes t = unat (atsv_num t) * (2 ^ atsv_shift t * (if atsv_units t then 4 else 1))" for t
    by (simp add: size_bytes_def mult.assoc)
  let ?x = "atsv_num ta" and ?y = "atsv_num tb"
  note w = unat_add_wraps [where x = ?x and y = ?y]
  have inc: "\<not> ?x + ?y < ?x \<Longrightarrow> unat (?x + ?y) = unat ?x + unat ?y" using w(1,2) by linarith
  have dec: "\<not> ?x - ?y > ?x \<Longrightarrow> unat (?x - ?y) = unat ?x - unat ?y \<and> unat ?y \<le> unat ?x" using w(3,4) by linarith
  consider "op = INCR" | "op = DECR" using assms(2) by blast
  then show ?case
  proof cases
    case i: 1
    show ?thesis
    proof (cases "?x + ?y < ?x")
      case False
      then show ?thesis using 1 assms(1) i inc by (simp add: set_size_def s [of ta] s [of tb] s [of "ta\<lparr>atsv_num := ?x + ?y\<rparr>"] flip: 1(2,3)) (simp add: algebra_simps)
    qed (use 1 assms(1) i in \<open>simp add: set_size_def\<close>)
  next
    case i: 2
    show ?thesis
    proof (cases "?x - ?y > ?x")
      case False
      then show ?thesis using 1 assms(1) i dec by (simp add: set_size_def s [of ta] s [of tb] s [of "ta\<lparr>atsv_num := ?x - ?y\<rparr>"] of_nat_diff flip: 1(2,3)) (simp add: algebra_simps of_nat_diff)
    qed (use 1 assms(1) i in \<open>simp add: set_size_def\<close>)
  qed
next
  case (2 ta tb)
  then show ?case using assms(1,2) by (auto simp: set_size_def)
qed

definition mk_size :: "c_ulong \<Rightarrow> nat \<Rightarrow> bool \<Rightarrow> size_value pbs_attribute" where
  "mk_size n k w = (mark_set (clear_attr size_zero))\<lparr>at_val := \<lparr>atsv_num = n, atsv_shift = k, atsv_units = w\<rparr>\<rparr>"

lemmas size_eval = mk_size_def words_fit_def size_bytes_def

theorem comp_size_bytes_witness:
  "comp_size (mk_size 3 10 True) (mk_size 12289 0 False) = - 1"
  using comp_size_bytes [of "mk_size 3 10 True" "mk_size 12289 0 False"] by (simp add: size_eval)

theorem set_size_bytes_witness:
  "\<exists>a'. set_size (mk_size 3 10 False) (mk_size 1 0 True) INCR = Some (PBSE_NONE, a') \<and> size_bytes (at_val a') = 3076"
proof -
  let ?a = "mk_size 3 10 False" and ?n = "mk_size 1 0 True"
  have v: "at_set ?n" "words_fit (at_val ?a) (at_val ?n)" "atsv_shift (at_val ?a) = 10" "atsv_shift (at_val ?n) = 0"
    "size_bytes (at_val ?a) = 3072" "size_bytes (at_val ?n) = 4"
    by (simp_all add: size_eval)
  have n: "normalize_size (at_val ?a) (at_val ?n) = (0, \<lparr>atsv_num = 3072, atsv_shift = 0, atsv_units = False\<rparr>, \<lparr>atsv_num = 4, atsv_shift = 0, atsv_units = False\<rparr>)"
    by (simp add: normalize_size_def mk_size_def)
  have "set_size ?a ?n INCR \<noteq> Some (PBSE_BADATVAL, ?a)"
    using v(1) by (simp add: set_size_def n)
  then show ?thesis using set_size_bytes [of ?n INCR ?a] v by auto
qed

text \<open>With multiples further apart, nothing at all in terabytes is more than five bytes.\<close>

theorem comp_size_far_apart:
  "comp_size (mk_size 0 40 False) (mk_size 5 0 False) = 1 \<and>
   size_bytes (at_val (mk_size 0 40 False)) < size_bytes (at_val (mk_size 5 0 False))"
  by (simp add: comp_size_def normalize_size_def size_eval Let_def)

text \<open>
  A size in exabytes is read, but written as bytes: the text of the value that was read is the text of a
  different size, for every number.
\<close>

theorem exabytes_lost:
  assumes "n < 2 ^ 63" and "0 < n"
  shows "\<exists>s. to_size (dec n @ ''eb'') s0 = (PBSE_NONE, s) \<and> size_bytes s = n * 2 ^ 60 \<and>
    (\<exists>s'. to_size (from_size s) size_zero = (PBSE_NONE, s') \<and> size_bytes s' = n)"
proof -
  let ?s = "\<lparr>atsv_num = word_of_nat n, atsv_shift = 60, atsv_units = False\<rparr>"
  have u: "unat (word_of_nat n :: c_ulong) = n" using assms(1) by (simp add: unat_of_nat)
  have "to_size (dec n @ ''eb'') s0 = (PBSE_NONE, ?s\<lparr>atsv_units := False\<rparr>)"
    using strtol_base0_dec [of n "''eb''"] assms(1) by (simp add: is_digit_def to_size_def size_shift_def Let_def)
  moreover have "to_size (from_size ?s) size_zero = to_size (from_size (?s\<lparr>atsv_shift := 0\<rparr>)) size_zero"
    by (simp add: from_size_def)
  moreover have "\<dots> = (PBSE_NONE, ?s\<lparr>atsv_shift := 0\<rparr>)"
    using to_from_size [of "?s\<lparr>atsv_shift := 0\<rparr>" size_zero] assms by (simp add: size_valid_def u)
  ultimately show ?thesis using u by (simp add: size_bytes_def)
qed

text \<open>A size in bytes read over one in another multiple keeps that multiple: \<open>5b\<close> over \<open>1gb\<close> is 5 gigabytes.\<close>

theorem to_size_keeps_shift:
  assumes "n < 2 ^ 63"
  shows "to_size (dec n @ ''b'') s = (PBSE_NONE, \<lparr>atsv_num = word_of_nat n, atsv_shift = atsv_shift s, atsv_units = False\<rparr>)"
  using strtol_base0_dec [of n "''b''"] assms(1) by (simp add: is_digit_def to_size_def Let_def)

section \<open>Times\<close>

lemma strtol_digits:
  assumes "s \<noteq> []" and "\<And>c. c \<in> set s \<Longrightarrow> is_digit c" and "dval s < 2 ^ 63"
  shows "strtol s = (int (dval s), [])"
proof -
  have d: "is_digit (hd s)" using assms(1,2) by simp
  have sp: "dropWhile isspace s = s" by (rule dropWhile_hd) (use d assms(1) in auto)
  have w: "takeWhile is_digit s = s" "dropWhile is_digit s = []" using assms(2) by (simp_all add: takeWhile_eq_all_conv)
  have n: "hd s \<noteq> CHR ''-''" "hd s \<noteq> CHR ''+''" using digit_not_sign [OF d] by blast+
  have "int (dval s) \<le> 2 ^ 63 - 1" using assms(3) by simp
  then show ?thesis unfolding strtol_def sp Let_def using n assms(1) by (simp add: w)
qed

lemma two_digits_props:
  assumes "0 \<le> d" and "d < 2 ^ 31"
  shows "two_digits d \<noteq> []" "c \<in> set (two_digits d) \<Longrightarrow> is_digit c" "dval (two_digits d) = nat d" "length (two_digits d) \<le> 10"
    "fst (strtol_int (two_digits d)) = d" "d < 60 \<Longrightarrow> length (two_digits d) \<le> 2"
proof -
  have t: "two_digits d = (if d < 10 then CHR ''0'' # dec (nat d) else dec (nat d))" using assms by (simp add: two_digits_def int_text_def)
  show ne: "two_digits d \<noteq> []" by (simp add: t)
  show dg: "c \<in> set (two_digits d) \<Longrightarrow> is_digit c" for c using dec_digits by (auto simp: t is_digit_def split: if_splits)
  show v: "dval (two_digits d) = nat d" by (simp add: t digit_val_def)
  have "length (dec (nat d)) \<le> 10" by (rule length_dec_le) (use assms in simp_all)
  moreover have "length (dec (nat d)) \<le> 1" if "d < 10" by (rule length_dec_le) (use that in simp_all)
  ultimately show "length (two_digits d) \<le> 10" by (cases "d < 10") (simp_all add: t)
  show "d < 60 \<Longrightarrow> length (two_digits d) \<le> 2" using length_dec_le [of 1 "nat d"] length_dec_le [of 2 "nat d"] by (auto simp: t)
  have "strtol (two_digits d) = (d, [])" using strtol_digits [OF ne dg] v assms by simp
  then show "fst (strtol_int (two_digits d)) = d" using assms by (simp add: strtol_int_def to_int_small)
qed

lemma time_loop_digits:
  assumes "\<And>c. c \<in> set ds \<Longrightarrow> is_digit c"
  shows "time_loop w u d rv (ds @ r) = time_loop (w @ ds) u d rv r"
  using assms
proof (induction ds arbitrary: w)
  case (Cons c ds)
  have "is_digit c" by (simp add: Cons.prems)
  then have "c \<noteq> CHR '':''" "c \<noteq> CHR ''.''" "is_digit c" by (auto simp: is_digit_def)
  then show ?case using Cons.IH [of "w @ [c]"] Cons.prems by simp
qed simp

definition time_text :: "int \<Rightarrow> char list" where
  "time_text t = two_digits (t div 3600) @ '':'' @ two_digits (t div 60 mod 60) @ '':'' @ two_digits (t mod 60)"

definition time_valid :: "int \<Rightarrow> bool" where
  "time_valid t \<longleftrightarrow> 0 \<le> t \<and> t < 2 ^ 31 * 3600"

lemma time_parts:
  assumes "time_valid t"
  shows "0 \<le> t div 3600" "t div 3600 < 2 ^ 31" "0 \<le> t div 60 mod 60" "t div 60 mod 60 < 60" "0 \<le> t mod 60" "t mod 60 < 60"
    "(t div 3600 * 60 + t div 60 mod 60) * 60 + t mod 60 = t"
proof -
  have "t div 3600 = t div 60 div 60" using zdiv_zmult2_eq [of 60 t 60] by simp
  then show "(t div 3600 * 60 + t div 60 mod 60) * 60 + t mod 60 = t" by simp
qed (use assms in \<open>auto simp: time_valid_def\<close>)

lemma sdiv_nonneg:
  fixes a b :: int
  assumes "0 \<le> a" and "0 < b"
  shows "a sdiv b = a div b" and "a smod b = a mod b"
proof -
  show "a sdiv b = a div b" using assms by (cases "a = 0") (simp_all add: signed_divide_int_def)
  show "a smod b = a mod b" using assms by (cases "a = 0") (simp_all add: signed_modulo_int_def)
qed

lemma get_time_string_text:
  assumes "time_valid t"
  shows "get_time_string ENCODE_TIME_SIZE t = time_text t" and "length (time_text t) \<le> 16"
proof -
  note p = time_parts [OF assms]
  have t: "0 \<le> t" using assms by (simp add: time_valid_def)
  have m: "t mod 3600 div 60 = t div 60 mod 60" "t mod 3600 mod 60 = t mod 60"
    using zmod_zmult2_eq [of 60 t 60] by simp_all
  have l: "length (two_digits (t div 3600)) \<le> 10" "length (two_digits (t div 60 mod 60)) \<le> 2" "length (two_digits (t mod 60)) \<le> 2"
    using two_digits_props(4) [OF p(1,2)] two_digits_props(6) [OF p(3)] two_digits_props(6) [OF p(5)] p(4,6) by simp_all
  show le: "length (time_text t) \<le> 16" using l by (simp add: time_text_def)
  have d: "t sdiv 3600 = t div 3600" "t smod 3600 = t mod 3600" "(t mod 3600) sdiv 60 = t div 60 mod 60" "(t mod 3600) smod 60 = t mod 60"
    using t m by (simp_all add: sdiv_nonneg)
  have sm: "to_int d = d" if "0 \<le> d" "d < 60" for d by (rule to_int_small) (use that in simp_all)
  have i: "to_int (t div 3600) = t div 3600" "to_int (t div 60 mod 60) = t div 60 mod 60" "to_int (t mod 60) = t mod 60"
    using to_int_small [OF order.trans [OF _ p(1)] p(2)] by simp (rule sm, rule p, rule p)+
  have "get_time_string ENCODE_TIME_SIZE t = take 20 (time_text t)"
    by (simp only: get_time_string_def Let_def time_text_def ENCODE_TIME_SIZE_def snprintf_text_def d i) simp
  then show "get_time_string ENCODE_TIME_SIZE t = time_text t" using le by simp
qed

lemma decode_time_text:
  assumes "time_valid t"
  shows "decode_time a (Some (time_text t)) = Some (PBSE_NONE, (mark_set a)\<lparr>at_val := t\<rparr>)"
proof -
  note p = time_parts [OF assms]
  let ?h = "two_digits (t div 3600)" and ?m = "two_digits (t div 60 mod 60)" and ?s = "two_digits (t mod 60)"
  have dg: "c \<in> set ?h \<union> set ?m \<union> set ?s \<Longrightarrow> is_digit c" for c
    using two_digits_props(2) [OF p(1,2), of c] two_digits_props(2) [OF p(3), of c] two_digits_props(2) [OF p(5), of c] p(4,6) by auto
  have v: "fst (strtol_int ?h) = t div 3600" "fst (strtol_int ?m) = t div 60 mod 60" "fst (strtol_int ?s) = t mod 60"
    using two_digits_props(5) [OF p(1,2)] two_digits_props(5) [OF p(3)] two_digits_props(5) [OF p(5)] p(4,6) by simp_all
  have nc: "filter (\<lambda>c. c = CHR '':'') x = []" if "\<And>c. c \<in> set x \<Longrightarrow> is_digit c" for x
    using that [of "CHR '':''"] by (auto simp: filter_empty_conv is_digit_def)
  have "ncolon (time_text t) = 2" using dg by (simp add: ncolon_def time_text_def nc)
  moreover have "time_loop [] False 0 0 (time_text t) = Some (?s, 0, t div 3600 * 60 + t div 60 mod 60, ''000'')"
    using time_loop_digits [of ?h] time_loop_digits [of ?m] time_loop_digits [of ?s _ _ _ _ "[]"] dg
    by (simp add: time_text_def v msec_of_def)
  moreover have "fst (strtol_int ''000'') = 0" by (simp add: strtol_int_def strtol_def isspace_def is_digit_def digit_val_def to_int_def)
  moreover obtain c cs where "time_text t = c # cs" by (cases "time_text t") (simp_all add: time_text_def)
  moreover have "t \<le> PBS_MAX_TIME" using assms by (simp add: time_valid_def PBS_MAX_TIME_def)
  ultimately show ?thesis using p(7) by (simp add: decode_time_def v INT_MAX_def)
qed

lemma nul_free_time: "time_valid t \<Longrightarrow> NUL \<notin> set (time_text t)"
proof
  assume "time_valid t" and n: "NUL \<in> set (time_text t)"
  note p = time_parts [OF this(1)]
  have "is_digit NUL"
    using n two_digits_props(2) [OF p(1,2), of NUL] two_digits_props(2) [OF p(3), of NUL] two_digits_props(2) [OF p(5), of NUL] p(4,6)
    by (auto simp: time_text_def)
  then show False by (simp add: is_digit_def)
qed

interpretation time_attr: attribute_type decode_time "encode_time (\<lambda>n. True)" 0 time_text time_valid "(=)"
proof
  fix a :: "int pbs_attribute" and n r
  show "\<not> at_set a \<Longrightarrow> encode_time (\<lambda>n. True) a n r = Some (0, None)" by (simp add: encode_time_def)
  show "\<exists>k. encode_time (\<lambda>n. True) a n r = Some (1, Some (entry_of a n r k (time_text (at_val a))))" if "at_set a" "time_valid (at_val a)"
    using that by (auto simp: encode_time_def Let_def encode_entry_eq get_time_string_text)
  show "\<exists>a. decode_time (clear_attr 0) (Some (time_text v)) = Some (PBSE_NONE, a) \<and> at_set a \<and> v = at_val a" if "time_valid v" for v
    by (simp add: decode_time_text [OF that])
qed (rule nul_free_time)

text \<open>
  C38: a time given in seconds as a plain number is read by \<open>atoi\<close>, and wraps: the test against
  \<open>PBS_MAX_TIME\<close> passes and the time is negative, for every number from \<open>2\<^sup>3\<^sup>1\<close> to \<open>2\<^sup>3\<^sup>2 - 1\<close>.
\<close>

theorem decode_time_wraps:
  assumes "2 ^ 31 \<le> n" and "n < 2 ^ 32"
  shows "decode_time a (Some (dec n)) = Some (PBSE_NONE, (mark_set a)\<lparr>at_val := int n - 2 ^ 32\<rparr>)"
proof -
  have dg: "c \<in> set (dec n) \<Longrightarrow> is_digit c" for c using dec_digits by blast
  have "filter (\<lambda>c. c = CHR '':'') (dec n) = []"
    using dg [of "CHR '':''"] by (auto simp: filter_empty_conv is_digit_def)
  then have "ncolon (dec n) = 0" by (simp add: ncolon_def)
  moreover have "time_loop [] False 0 0 (dec n) = Some (dec n, 0, 0, ''000'')"
    using time_loop_digits [of "dec n" "[]" False 0 0 "[]"] dg by (simp add: msec_of_def)
  moreover have "fst (strtol_int ''000'') = 0" by (simp add: strtol_int_def strtol_def isspace_def is_digit_def digit_val_def to_int_def)
  moreover have "to_int (int n) = int n - 2 ^ 32"
  proof -
    have "(word_of_int (int n) :: 32 word) = word_of_int (int n - 2 ^ 32)" unfolding word_of_int_eq_iff by (simp add: take_bit_eq_mod)
    then have "to_int (int n) = to_int (int n - 2 ^ 32)" by (simp only: to_int_def)
    also have "\<dots> = int n - 2 ^ 32" by (rule to_int_small) (use assms in simp_all)
    finally show ?thesis .
  qed
  moreover have "fst (strtol_int (dec n)) = to_int (int n)"
    using strtol_dec [of "[]" n] assms by (simp add: strtol_int_def)
  moreover obtain c cs where "dec n = c # cs" by (cases "dec n") simp_all
  ultimately show ?thesis using assms by (simp add: decode_time_def INT_MAX_def PBS_MAX_TIME_def)
qed

theorem decode_time_wraps_witness:
  "decode_time (clear_attr 0) (Some (dec 2147483648)) = Some (PBSE_NONE, (mark_set (clear_attr 0))\<lparr>at_val := - 2147483648\<rparr>)"
  using decode_time_wraps [of 2147483648 "clear_attr 0"] by simp

end
