(* ===== verification/Attr_Arst.thy ===== *)
theory Attr_Arst
  imports Attr_Base
begin

text \<open>
  Attributes that hold an array of strings (\<^verbatim>\<open>lib/Libattr/attr_fn_arst.c\<close>, and \<open>parse_comma_string\<close> of
  \<^verbatim>\<open>lib/Libattr/attr_func.c\<close>).  The value is an \<open>array_strings\<close>: one buffer with the strings one after the
  other, each with its NUL, and an array of pointers into it.  A pointer into the buffer is its offset.  A read or a write
  outside the buffer or outside the array of pointers is \<open>None\<close>.  Sizes are natural numbers; they are \<open>int\<close>s
  in the code, which no value that a request can carry exceeds.
\<close>

section \<open>The buffer and its pointers\<close>

text \<open>\<open>as_string\<close> has the slots in use: its length is \<open>as_usedptr\<close>.  The other slots are never read.\<close>

record array_strings =
  as_npointers :: nat
  as_bufsize :: nat
  as_buf :: "char list option"
  as_next :: nat
  as_string :: "nat list"

definition as_usedptr :: "array_strings \<Rightarrow> nat" where
  "as_usedptr a = length (as_string a)"

type_synonym arst_attribute = "array_strings option pbs_attribute"

text \<open>\<open>sizeof(struct array_strings)\<close> with \<open>j\<close> pointers.\<close>

definition arst_block :: "nat \<Rightarrow> nat" where
  "arst_block j = 32 + 8 * j"

text \<open>The string that starts at an offset, which has to have its NUL in the buffer, and \<open>strcpy\<close> to an offset.\<close>

definition cstr_at :: "char list option \<Rightarrow> nat \<Rightarrow> char list option" where
  "cstr_at buf off =
     (case buf of
        None \<Rightarrow> None
      | Some b \<Rightarrow> if NUL \<in> set (drop off b) then Some (takeWhile (\<lambda>c. c \<noteq> NUL) (drop off b)) else None)"

definition put_str :: "char list option \<Rightarrow> nat \<Rightarrow> char list \<Rightarrow> char list option" where
  "put_str buf off s =
     (case buf of
        None \<Rightarrow> None
      | Some b \<Rightarrow>
          if off + length s + 1 \<le> length b then Some (take off b @ s @ NUL # drop (off + length s + 1) b) else None)"

text \<open>The three lines that add a string: \<open>strcpy\<close> to \<open>as_next\<close>, the pointer, and the next free byte.\<close>

definition push_string :: "array_strings \<Rightarrow> char list \<Rightarrow> array_strings option" where
  "push_string a s =
     (case put_str (as_buf a) (as_next a) s of
        None \<Rightarrow> None
      | Some b \<Rightarrow>
          if as_usedptr a < as_npointers a
          then Some (a\<lparr>as_buf := Some b, as_string := as_string a @ [as_next a], as_next := as_next a + length s + 1\<rparr>)
          else None)"

fun strings_of :: "char list option \<Rightarrow> nat list \<Rightarrow> char list list option" where
  "strings_of b [] = Some []"
| "strings_of b (p # ps) =
     (case cstr_at b p of
        None \<Rightarrow> None
      | Some s \<Rightarrow> (case strings_of b ps of None \<Rightarrow> None | Some ss \<Rightarrow> Some (s # ss)))"

text \<open>The loops read every string in use.\<close>

definition arst_strings :: "array_strings \<Rightarrow> char list list option" where
  "arst_strings a = strings_of (as_buf a) (as_string a)"

section \<open>Reading the comma string\<close>

definition is_sep :: "char \<Rightarrow> bool" where
  "is_sep c \<longleftrightarrow> c = CHR '','' \<or> c = CHR 0x0A"

text \<open>The element up to a separator that no back-slash precedes, and the text from the separator on.\<close>

fun scan_elem :: "char list \<Rightarrow> char list \<times> char list" where
  "scan_elem [] = ([], [])"
| "scan_elem (c # cs) =
     (if c = CHR 0x5C then
        (case cs of
           [] \<Rightarrow> ([c], [])
         | d # ds \<Rightarrow> (case scan_elem ds of (e, r) \<Rightarrow> (c # d # e, r)))
      else if is_sep c then ([], c # cs)
      else (case scan_elem cs of (e, r) \<Rightarrow> (c # e, r)))"

definition rstrip :: "char list \<Rightarrow> char list" where
  "rstrip s = rev (dropWhile isspace (rev s))"

text \<open>
  One call: \<open>Some None\<close> is the null pointer, and otherwise the element and the text after it.  Trailing spaces are
  removed by walking back until a character that is not a space.  Before a later element that is the NUL which
  the previous call wrote over its separator; before the first there is nothing to stop at, and the walk leaves the buffer.
\<close>

definition parse_comma_string :: "bool \<Rightarrow> char list \<Rightarrow> (char list \<times> char list) option option" where
  "parse_comma_string first s =
     (if s = [] then Some None
      else
        (case scan_elem (dropWhile (\<lambda>c. c \<noteq> CHR 0x0A \<and> isspace c) s) of
           (e, r) \<Rightarrow> if first \<and> rstrip e = [] then None else Some (Some (rstrip e, tl r))))"

fun unescape :: "char list \<Rightarrow> char list" where
  "unescape [] = []"
| "unescape (c # cs) =
     (if c = CHR 0x5C then (case cs of [] \<Rightarrow> [] | d # ds \<Rightarrow> d # unescape ds) else c # unescape cs)"

fun count_seps :: "char list \<Rightarrow> nat" where
  "count_seps [] = 0"
| "count_seps (c # cs) =
     (if c = CHR 0x5C then (case cs of [] \<Rightarrow> 0 | d # ds \<Rightarrow> count_seps ds)
      else (if is_sep c then 1 else 0) + count_seps cs)"

text \<open>The loop over the elements, with \<open>k\<close> slots left.\<close>

primrec arst_fill :: "nat \<Rightarrow> bool \<Rightarrow> char list \<Rightarrow> array_strings \<Rightarrow> array_strings option" where
  "arst_fill 0 first s a = Some a"
| "arst_fill (Suc k) first s a =
     (case parse_comma_string first s of
        None \<Rightarrow> None
      | Some None \<Rightarrow> Some a
      | Some (Some (e, r)) \<Rightarrow>
          (case push_string a (unescape e) of None \<Rightarrow> None | Some a' \<Rightarrow> arst_fill k False r a'))"

definition strip_trailing :: "char list \<Rightarrow> bool" where
  "strip_trailing val \<longleftrightarrow> is_sep (last val) \<and> val ! (length val - 2) \<noteq> CHR 0x5C"

definition decode_arst_direct :: "(nat \<Rightarrow> bool) \<Rightarrow> arst_attribute \<Rightarrow> char list \<Rightarrow> (pbse \<times> arst_attribute) option" where
  "decode_arst_direct heap patr val =
     (if \<not> heap (length val + 1) then Some (PBSE_SYSTEM, patr)
      else if val = [] \<or> is_sep (last val) \<and> length val = 1 then None
      else
        (let strip = strip_trailing val;
             tmpval = (if strip then butlast val else val);
             ns = max 1 (1 + count_seps val - (if strip then 1 else 0));
             ssize = length tmpval + 1
         in if \<not> heap ssize then Some (PBSE_SYSTEM, patr)
            else if \<not> heap (arst_block ns) then Some (PBSE_SYSTEM, patr)
            else
              (case arst_fill ns True tmpval
                      \<lparr>as_npointers = ns, as_bufsize = ssize, as_buf = Some (replicate ssize NUL), as_next = 0, as_string = []\<rparr> of
                 None \<Rightarrow> None
               | Some stp \<Rightarrow> Some (PBSE_NONE, (mark_set patr)\<lparr>at_val := Some stp\<rparr>))))"

section \<open>Writing it\<close>

definition escaped :: "char \<Rightarrow> bool" where
  "escaped c \<longleftrightarrow> c \<in> {CHR 0x22, CHR 0x27, CHR '','', CHR 0x5C, CHR 0x0A}"

definition escape_char :: "char \<Rightarrow> char \<Rightarrow> char list" where
  "escape_char separator c = (if c = NUL then [separator] else if escaped c then [CHR 0x5C, c] else [c])"

text \<open>The buffer from its start to \<open>as_next\<close> with every NUL replaced; without the last separator unless it is saved.\<close>

definition arst_text :: "bool \<Rightarrow> array_strings \<Rightarrow> char list option" where
  "arst_text save a =
     (case as_buf a of
        None \<Rightarrow> None
      | Some b \<Rightarrow>
          if as_next a \<le> length b
          then (let t = concat (map (escape_char (if save then CHR 0x0A else CHR '','')) (take (as_next a) b))
                in Some (if save then t else butlast t))
          else None)"

definition encode_arst :: "(nat \<Rightarrow> bool) \<Rightarrow> bool \<Rightarrow> arst_attribute \<Rightarrow> char list \<Rightarrow> char list option \<Rightarrow> (int \<times> svrattrl option) option" where
  "encode_arst heap save attr atname rsname =
     (case at_val attr of
        None \<Rightarrow> Some (0, None)
      | Some pas \<Rightarrow>
          if \<not> at_set attr \<or> as_usedptr pas = 0 then Some (0, None)
          else
            (case (as_buf pas, arst_text save pas) of
               (Some b, Some t) \<Rightarrow>
                 encode_entry heap attr atname rsname
                   (as_next pas + (if save then 1 else 0) + length (filter escaped (take (as_next pas) b)) + 1) t
             | _ \<Rightarrow> None))"

section \<open>Freeing, copying and comparing\<close>

definition free_arst :: "arst_attribute \<Rightarrow> arst_attribute" where
  "free_arst attr = attr\<lparr>at_val := None, at_flags := at_flags attr AND NOT ATR_VFLAG_SET\<rparr>"

text \<open>\<open>copy_arst\<close>; a copy of strings that are not in the buffer, or of a null buffer, is \<open>None\<close>.\<close>

definition copy_arst :: "(nat \<Rightarrow> bool) \<Rightarrow> array_strings option \<Rightarrow> array_strings option option" where
  "copy_arst heap to_copy =
     (case to_copy of
        None \<Rightarrow> Some None
      | Some a \<Rightarrow>
          if as_npointers a < 1 then Some None
          else if \<not> heap (arst_block (as_npointers a)) \<or> \<not> heap (as_bufsize a) then Some None
          else
            (case as_buf a of
               None \<Rightarrow> if as_bufsize a = 0 then Some (Some (a\<lparr>as_buf := Some []\<rparr>)) else None
             | Some b \<Rightarrow> if as_bufsize a \<le> length b then Some (Some (a\<lparr>as_buf := Some (take (as_bufsize a) b)\<rparr>)) else None))"

definition ATR_TYPE_ARST :: nat where "ATR_TYPE_ARST = 4"

text \<open>The \<open>at_type\<close> of the two attributes comes with them.\<close>

definition comp_arst :: "nat \<Rightarrow> arst_attribute \<Rightarrow> nat \<Rightarrow> arst_attribute \<Rightarrow> int option" where
  "comp_arst attr_type attr with_type with_attr =
     (case (at_val attr, at_val with_attr) of
        (Some apa, Some bpb) \<Rightarrow>
          if attr_type \<noteq> ATR_TYPE_ARST \<or> with_type \<noteq> ATR_TYPE_ARST then Some 1
          else
            (case (arst_strings apa, arst_strings bpb) of
               (Some as, Some bs) \<Rightarrow> Some (if list_all (\<lambda>b. list_ex (\<lambda>a. b = a) as) bs then 0 else 1)
             | _ \<Rightarrow> None)
      | _ \<Rightarrow> Some 1)"

text \<open>The first string that \<open>str\<close> is a prefix of; a value that is set and has no array is dereferenced.\<close>

definition is_prefix :: "char list \<Rightarrow> char list \<Rightarrow> bool" where
  "is_prefix s t \<longleftrightarrow> take (length s) t = s"

definition arst_string :: "char list option \<Rightarrow> nat \<Rightarrow> arst_attribute \<Rightarrow> char list option option" where
  "arst_string str attr_type pattr =
     (case str of
        None \<Rightarrow> Some None
      | Some s \<Rightarrow>
          if attr_type \<noteq> ATR_TYPE_ARST \<or> \<not> at_set pattr then Some None
          else
            (case at_val pattr of
               None \<Rightarrow> None
             | Some parst \<Rightarrow> (case arst_strings parst of None \<Rightarrow> None | Some ss \<Rightarrow> Some (find (is_prefix s) ss))))"

section \<open>Setting\<close>

text \<open>
  \<open>name_len\<close> is the length of what precedes the first \<open>=\<close>; \<open>same_name s t\<close> is the test that \<open>t\<close> has the name of \<open>s\<close>, with a length of 0 for
  a \<open>t\<close> that has no \<open>=\<close>.
\<close>

definition name_len :: "char list \<Rightarrow> nat" where
  "name_len s = (if CHR ''='' \<in> set s then length (takeWhile (\<lambda>c. c \<noteq> CHR ''='') s) else 0)"

definition same_name :: "char list \<Rightarrow> char list \<Rightarrow> bool" where
  "same_name s t \<longleftrightarrow> take (name_len s) s = take (name_len s) t \<and> name_len s = name_len t"

definition overridden :: "char list list \<Rightarrow> char list \<Rightarrow> bool" where
  "overridden ts s \<longleftrightarrow> CHR ''='' \<in> set s \<and> list_ex (same_name s) ts"

text \<open>Growing the buffer and the array of pointers; the flag is that the allocation succeeded.\<close>

definition grow_buf :: "(nat \<Rightarrow> bool) \<Rightarrow> nat \<Rightarrow> array_strings \<Rightarrow> bool \<times> array_strings" where
  "grow_buf heap nsize pas =
     (if as_next pas + nsize > as_bufsize pas then
        (let need = as_bufsize pas + 2 * nsize in
         if heap need
         then (True, pas\<lparr>as_buf := Some ((case as_buf pas of None \<Rightarrow> [] | Some b \<Rightarrow> b) @ replicate (need - (case as_buf pas of None \<Rightarrow> 0 | Some b \<Rightarrow> length b)) NUL),
                         as_bufsize := need\<rparr>)
         else (False, pas))
      else (True, pas))"

definition grow_pointers :: "(nat \<Rightarrow> bool) \<Rightarrow> nat \<Rightarrow> array_strings \<Rightarrow> bool \<times> array_strings" where
  "grow_pointers heap k pas =
     (let j = as_usedptr pas + k in
      if j > as_npointers pas then
        (if heap (arst_block (3 * j div 2)) then (True, pas\<lparr>as_npointers := 3 * j div 2\<rparr>) else (False, pas))
      else (True, pas))"

text \<open>The loop that appends, which with \<open>MERGE\<close> skips a string whose name is there already.\<close>

fun append_strings :: "bool \<Rightarrow> char list list \<Rightarrow> array_strings \<Rightarrow> array_strings option" where
  "append_strings merge [] pas = Some pas"
| "append_strings merge (s # ss) pas =
     (case (if merge \<and> CHR ''='' \<in> set s then arst_strings pas else Some []) of
        None \<Rightarrow> None
      | Some cur \<Rightarrow>
          if overridden cur s then append_strings merge ss pas
          else (case push_string pas s of None \<Rightarrow> None | Some pas' \<Rightarrow> append_strings merge ss pas'))"

text \<open>\<open>SET\<close>: no strings, and a buffer that the new ones fit in, cleared.\<close>

definition clear_arst :: "(nat \<Rightarrow> bool) \<Rightarrow> nat \<Rightarrow> array_strings \<Rightarrow> bool \<times> array_strings" where
  "clear_arst heap nsize pas =
     (let pas = pas\<lparr>as_string := [], as_next := 0\<rparr> in
      if nsize > as_bufsize pas then
        (let n = nsize + nsize div 2 in
         if heap n then (True, pas\<lparr>as_buf := Some (replicate n NUL), as_bufsize := n\<rparr>)
         else (False, pas\<lparr>as_buf := None, as_bufsize := 0\<rparr>))
      else
        (case as_buf pas of
           None \<Rightarrow> (False, pas\<lparr>as_bufsize := 0\<rparr>)
         | Some b \<Rightarrow> (True, pas\<lparr>as_buf := Some (replicate (as_bufsize pas) NUL)\<rparr>)))"

text \<open>\<open>DECR\<close>: the first string that is equal is cut out of the buffer, and the pointers after it move down.\<close>

definition cut_string :: "array_strings \<Rightarrow> char list \<Rightarrow> nat \<Rightarrow> array_strings option" where
  "cut_string pas s i =
     (case as_buf pas of
        None \<Rightarrow> None
      | Some b \<Rightarrow>
          (let off = as_string pas ! i;
               nsize = length s + 1;
               pc = off + nsize;
               need = as_next pas - pc
           in Some (pas\<lparr>as_buf := Some (take off b @ take need (drop pc b) @ drop (off + need) b),
                        as_next := as_next pas - nsize,
                        as_string := take i (as_string pas) @ map (\<lambda>p. p - nsize) (drop (Suc i) (as_string pas))\<rparr>)))"

fun index_of :: "'a \<Rightarrow> 'a list \<Rightarrow> nat option" where
  "index_of x [] = None"
| "index_of x (y # ys) = (if x = y then Some 0 else map_option Suc (index_of x ys))"

fun remove_strings :: "char list list \<Rightarrow> array_strings \<Rightarrow> array_strings option" where
  "remove_strings [] pas = Some pas"
| "remove_strings (t # ts) pas =
     (case arst_strings pas of
        None \<Rightarrow> None
      | Some cur \<Rightarrow>
          (case index_of t cur of
             None \<Rightarrow> remove_strings ts pas
           | Some i \<Rightarrow> (case cut_string pas t i of None \<Rightarrow> None | Some pas' \<Rightarrow> remove_strings ts pas')))"

text \<open>The branches of the \<open>switch\<close>, on the array of the attribute; \<open>Inl\<close> is an error with what the array is then.\<close>

definition arst_append :: "(nat \<Rightarrow> bool) \<Rightarrow> bool \<Rightarrow> array_strings \<Rightarrow> array_strings \<Rightarrow> (array_strings + array_strings) option" where
  "arst_append heap merge pas newpas =
     (case grow_buf heap (as_next newpas) pas of
        (False, pas) \<Rightarrow> Some (Inl pas)
      | (True, pas) \<Rightarrow>
          (case grow_pointers heap (as_usedptr newpas) pas of
             (False, pas) \<Rightarrow> Some (Inl pas)
           | (True, pas) \<Rightarrow>
               (case arst_strings newpas of
                  None \<Rightarrow> None
                | Some ss \<Rightarrow> map_option Inr (append_strings merge ss pas))))"

definition arst_incr :: "(nat \<Rightarrow> bool) \<Rightarrow> array_strings \<Rightarrow> array_strings \<Rightarrow> (array_strings + array_strings) option" where
  "arst_incr heap pas newpas =
     (let j = 3 * (as_usedptr pas + as_usedptr newpas) div 2;
          need = 2 * (as_next newpas + as_next pas)
      in if \<not> heap (arst_block j) \<or> \<not> heap need then Some (Inl pas)
         else
           (case (arst_strings newpas, arst_strings pas) of
              (Some new, Some old) \<Rightarrow>
                map_option Inr
                  (append_strings False (new @ filter (\<lambda>s. \<not> overridden new s) old)
                     \<lparr>as_npointers = j, as_bufsize = need, as_buf = Some (replicate need NUL), as_next = 0, as_string = []\<rparr>)
            | _ \<Rightarrow> None))"

definition finish_set :: "arst_attribute \<Rightarrow> (array_strings + array_strings) option \<Rightarrow> (pbse \<times> arst_attribute) option" where
  "finish_set attr r =
     (case r of
        None \<Rightarrow> None
      | Some (Inl pas) \<Rightarrow> Some (PBSE_SYSTEM, attr\<lparr>at_val := Some pas\<rparr>)
      | Some (Inr pas) \<Rightarrow> Some (PBSE_NONE, (mark_set attr)\<lparr>at_val := Some pas\<rparr>))"

definition set_arst_on :: "(nat \<Rightarrow> bool) \<Rightarrow> arst_attribute \<Rightarrow> array_strings \<Rightarrow> array_strings \<Rightarrow> batch_op \<Rightarrow> (pbse \<times> arst_attribute) option" where
  "set_arst_on heap attr pas newpas op =
     (case (if op = INCR \<and> as_buf pas = None then SET else op) of
        SET \<Rightarrow>
          finish_set attr
            (case clear_arst heap (as_next newpas) pas of
               (False, pas) \<Rightarrow> Some (Inl pas)
             | (True, pas) \<Rightarrow> arst_append heap False pas newpas)
      | INCR_OLD \<Rightarrow> finish_set attr (arst_append heap False pas newpas)
      | MERGE \<Rightarrow> finish_set attr (arst_append heap True pas newpas)
      | INCR \<Rightarrow> finish_set attr (arst_incr heap pas newpas)
      | DECR \<Rightarrow>
          finish_set attr
            (case arst_strings newpas of
               None \<Rightarrow> None
             | Some ss \<Rightarrow> map_option Inr (remove_strings ss pas))
      | _ \<Rightarrow> Some (PBSE_INTERNAL, attr\<lparr>at_val := Some pas\<rparr>))"

definition set_arst :: "(nat \<Rightarrow> bool) \<Rightarrow> arst_attribute \<Rightarrow> arst_attribute \<Rightarrow> batch_op \<Rightarrow> (pbse \<times> arst_attribute) option" where
  "set_arst heap attr new_attr op =
     (if \<not> at_set new_attr then None
      else
        (case at_val new_attr of
           None \<Rightarrow> Some (PBSE_INTERNAL, attr)
         | Some newpas \<Rightarrow>
             (case at_val attr of
                Some pas \<Rightarrow> set_arst_on heap attr pas newpas op
              | None \<Rightarrow>
                  if as_npointers newpas < 1 then Some (PBSE_INTERNAL, attr)
                  else if \<not> heap (arst_block (as_npointers newpas)) then Some (PBSE_SYSTEM, attr)
                  else
                    set_arst_on heap attr
                      \<lparr>as_npointers = as_npointers newpas, as_bufsize = 0, as_buf = None, as_next = 0, as_string = []\<rparr> newpas op)))"

definition set_acl_arst :: "(nat \<Rightarrow> bool) \<Rightarrow> arst_attribute \<Rightarrow> arst_attribute \<Rightarrow> batch_op \<Rightarrow> (pbse \<times> arst_attribute) option" where
  "set_acl_arst heap attr new_attr op =
     (if \<not> at_set new_attr then None
      else if at_val new_attr = None then
        Some (PBSE_NONE, if op = SET then mark_set (free_arst attr) else attr)
      else
        (case set_arst heap attr new_attr op of
           Some (PBSE_NONE, attr) \<Rightarrow>
             (case at_val attr of
                None \<Rightarrow> None
              | Some pas \<Rightarrow> Some (PBSE_NONE, if as_usedptr pas = 0 then mark_set (free_arst attr) else attr))
         | r \<Rightarrow> r))"

section \<open>Decoding into an attribute that may have a value\<close>

definition unmodify :: "'v pbs_attribute \<Rightarrow> 'v pbs_attribute" where
  "unmodify a = a\<lparr>at_flags := at_flags a AND NOT ATR_VFLAG_MODIFY\<rparr>"

definition decode_arst :: "(nat \<Rightarrow> bool) \<Rightarrow> arst_attribute \<Rightarrow> char list option \<Rightarrow> (pbse \<times> arst_attribute) option" where
  "decode_arst heap patr val =
     (case val of
        Some (c # cs) \<Rightarrow>
          (if at_set patr \<and> at_val patr \<noteq> None then
             (case decode_arst_direct heap (clear_attr None) (c # cs) of
                Some (PBSE_NONE, temp) \<Rightarrow> set_arst heap patr temp INCR
              | Some (rc, temp) \<Rightarrow> Some (rc, patr)
              | None \<Rightarrow> None)
           else decode_arst_direct heap patr (c # cs))
      | _ \<Rightarrow> Some (PBSE_NONE, unmodify (free_arst patr)))"

definition decode_acl_arst :: "(nat \<Rightarrow> bool) \<Rightarrow> arst_attribute \<Rightarrow> char list option \<Rightarrow> (pbse \<times> arst_attribute) option" where
  "decode_acl_arst heap patr val =
     (case val of
        Some (c # cs) \<Rightarrow> decode_arst heap patr val
      | _ \<Rightarrow> Some (PBSE_NONE, mark_set (free_arst patr)))"

text \<open>The old value is merged into the new one, so that a new string overrides the old one of its name.\<close>

definition decode_arst_merge :: "(nat \<Rightarrow> bool) \<Rightarrow> arst_attribute \<Rightarrow> char list option \<Rightarrow> (pbse \<times> arst_attribute) option" where
  "decode_arst_merge heap patr val =
     (case val of
        Some (c # cs) \<Rightarrow>
          (if \<not> at_set patr \<or> at_val patr = None then decode_arst_direct heap patr (c # cs)
           else
             (case decode_arst_direct heap (clear_attr None) (c # cs) of
                Some (PBSE_NONE, new_attr) \<Rightarrow>
                  set_arst heap (patr\<lparr>at_val := at_val new_attr\<rparr>) \<lparr>at_flags = ATR_VFLAG_SET, at_val = at_val patr\<rparr> MERGE
              | Some (rc, new_attr) \<Rightarrow> Some (rc, patr)
              | None \<Rightarrow> None))
      | _ \<Rightarrow> Some (PBSE_NONE, unmodify (free_arst patr)))"

end
