(* ===== verification/Attr_Arst_Laws.thy ===== *)
theory Attr_Arst_Laws
  imports Attr_Arst
begin

text \<open>
  Arrays of strings as lists: \<open>arst_holds\<close> relates the buffer and the pointers of an \<open>array_strings\<close> to the list of its strings,
  and each operation on the buffer is an operation on the list.
\<close>

section \<open>The list that a buffer holds\<close>

definition flat :: "char list list \<Rightarrow> char list" where
  "flat L = concat (map (\<lambda>s. s @ [NUL]) L)"

fun offsets_from :: "nat \<Rightarrow> char list list \<Rightarrow> nat list" where
  "offsets_from k [] = []"
| "offsets_from k (s # ss) = k # offsets_from (k + length s + 1) ss"

definition nul_free_list :: "char list list \<Rightarrow> bool" where
  "nul_free_list L \<longleftrightarrow> list_all (\<lambda>s. NUL \<notin> set s) L"

text \<open>
  The type invariant of \<open>array_strings\<close>: there are slots for the pointers, which point at the strings in order, and the
  buffer starts with the strings, each with its NUL, up to \<open>as_next\<close>.
\<close>

definition arst_holds :: "array_strings \<Rightarrow> char list list \<Rightarrow> bool" where
  "arst_holds a L \<longleftrightarrow>
     length L \<le> as_npointers a \<and> as_string a = offsets_from 0 L \<and> as_next a = length (flat L) \<and> nul_free_list L \<and>
     (case as_buf a of
        None \<Rightarrow> L = [] \<and> as_bufsize a = 0
      | Some b \<Rightarrow> length b = as_bufsize a \<and> length (flat L) \<le> length b \<and> take (length (flat L)) b = flat L)"

lemma flat_simps [simp]: "flat [] = []" "flat (s # L) = s @ NUL # flat L" "flat (L @ M) = flat L @ flat M"
  by (simp_all add: flat_def)

lemma offsets_append: "offsets_from k (L @ M) = offsets_from k L @ offsets_from (k + length (flat L)) M"
  by (induction L arbitrary: k) (simp_all add: add.assoc)

lemma length_offsets [simp]: "length (offsets_from k L) = length L"
  by (induction L arbitrary: k) simp_all

lemma nul_free_simps [simp]:
  "nul_free_list []" "nul_free_list (s # L) \<longleftrightarrow> NUL \<notin> set s \<and> nul_free_list L"
  "nul_free_list (L @ M) \<longleftrightarrow> nul_free_list L \<and> nul_free_list M"
  by (simp_all add: nul_free_list_def)

lemma nul_free_filter [simp]: "nul_free_list L \<Longrightarrow> nul_free_list (filter P L)"
  by (auto simp: nul_free_list_def list_all_iff)

lemma offsets_shift: "map (\<lambda>p. p - n) (offsets_from (k + n) L) = offsets_from k L"
proof (induction L arbitrary: k)
  case (Cons s L)
  show ?case using Cons.IH [of "k + length s + 1"] by (simp add: ac_simps)
qed simp

lemma holds_used: "arst_holds a L \<Longrightarrow> as_usedptr a = length L"
  by (simp add: arst_holds_def as_usedptr_def)

lemma cstr_flat:
  assumes "NUL \<notin> set s" and "take (length (p @ s @ NUL # r)) b = p @ s @ NUL # r"
  shows "cstr_at (Some b) (length p) = Some s"
proof -
  obtain b2 where b: "b = p @ s @ NUL # r @ b2" using assms(2) by (metis append_take_drop_id append.assoc append_Cons)
  have "takeWhile (\<lambda>c. c \<noteq> NUL) (s @ NUL # r @ b2) = s" using assms(1) by (subst takeWhile_append2) auto
  then show ?thesis by (simp add: cstr_at_def b)
qed

lemma strings_of_offsets:
  assumes "nul_free_list L" and "take (length (flat (M @ L))) b = flat (M @ L)"
  shows "strings_of (Some b) (offsets_from (length (flat M)) L) = Some L"
  using assms
proof (induction L arbitrary: M)
  case (Cons s L)
  have "cstr_at (Some b) (length (flat M)) = Some s" using cstr_flat [of s "flat M" "flat L" b] Cons.prems by simp
  moreover have "strings_of (Some b) (offsets_from (length (flat (M @ [s]))) L) = Some L"
    using Cons.IH [of "M @ [s]"] Cons.prems by simp
  ultimately show ?case by simp
qed simp

lemma holds_strings: "arst_holds a L \<Longrightarrow> arst_strings a = Some L"
  using strings_of_offsets [of L "[]"] by (auto simp: arst_holds_def arst_strings_def split: option.splits)

lemma holds_unique: "arst_holds a L \<Longrightarrow> arst_holds a M \<Longrightarrow> L = M"
  by (drule holds_strings, drule holds_strings) simp

section \<open>Adding strings\<close>

text \<open>Room for \<open>n\<close> more bytes and \<open>k\<close> more strings.\<close>

definition has_room :: "array_strings \<Rightarrow> nat \<Rightarrow> nat \<Rightarrow> bool" where
  "has_room a n k \<longleftrightarrow> as_next a + n \<le> as_bufsize a \<and> as_usedptr a + k \<le> as_npointers a \<and> as_buf a \<noteq> None"

lemma push_string_holds:
  assumes "arst_holds a L" and "NUL \<notin> set s" and "has_room a (length s + 1 + n) (Suc k)"
  shows "\<exists>a'. push_string a s = Some a' \<and> arst_holds a' (L @ [s]) \<and> has_room a' n k"
proof -
  obtain b where b: "as_buf a = Some b" using assms(3) by (auto simp: has_room_def)
  then have h: "length b = as_bufsize a" "take (length (flat L)) b = flat L" "as_next a = length (flat L)" "as_string a = offsets_from 0 L"
    using assms(1) by (simp_all add: arst_holds_def)
  have r: "length (flat L) + length s + 1 + n \<le> as_bufsize a" "length L < as_npointers a" "length L + Suc k \<le> as_npointers a"
    using assms(3) h by (simp_all add: has_room_def as_usedptr_def)
  let ?b = "take (length (flat L)) b @ s @ NUL # drop (length (flat L) + length s + 1) b"
  have "put_str (Some b) (as_next a) s = Some ?b" using r h by (simp add: put_str_def)
  then have p: "push_string a s = Some (a\<lparr>as_buf := Some ?b, as_string := as_string a @ [as_next a], as_next := as_next a + length s + 1\<rparr>)"
    using r by (simp add: push_string_def b as_usedptr_def h)
  show ?thesis
    unfolding p using assms(1,2) r h
    by (simp add: arst_holds_def has_room_def as_usedptr_def offsets_append)
qed

text \<open>The strings that \<open>MERGE\<close> adds: those whose name is not there yet.\<close>

fun merge_strings :: "char list list \<Rightarrow> char list list \<Rightarrow> char list list" where
  "merge_strings L [] = L"
| "merge_strings L (s # ss) = (if overridden L s then merge_strings L ss else merge_strings (L @ [s]) ss)"

lemma has_room_less: "has_room a n k \<Longrightarrow> n' \<le> n \<Longrightarrow> k' \<le> k \<Longrightarrow> has_room a n' k'"
  by (auto simp: has_room_def)

lemma append_strings_holds:
  assumes "arst_holds a L" and "nul_free_list M" and "has_room a (length (flat M)) (length M)"
  shows "\<exists>a'. append_strings merge M a = Some a' \<and> arst_holds a' (if merge then merge_strings L M else L @ M)"
  using assms
proof (induction M arbitrary: a L)
  case (Cons s M)
  have push: "\<exists>a'. push_string a s = Some a' \<and> arst_holds a' (L @ [s]) \<and> has_room a' (length (flat M)) (length M)"
    by (rule push_string_holds) (use Cons.prems in simp_all)
  have none: "\<not> overridden [] s" by (simp add: overridden_def)
  have less: "has_room a (length (flat M)) (length M)" by (rule has_room_less [OF Cons.prems(3)]) simp_all
  show ?case
  proof (cases "merge \<and> overridden L s")
    case True
    then have "CHR ''='' \<in> set s" by (simp add: overridden_def)
    then show ?thesis using Cons.IH [OF Cons.prems(1) _ less] Cons.prems(2) True holds_strings [OF Cons.prems(1)] by simp
  next
    case False
    obtain a' where a': "push_string a s = Some a'" "arst_holds a' (L @ [s])" "has_room a' (length (flat M)) (length M)" using push by blast
    have "append_strings merge (s # M) a = append_strings merge M a'"
      using False none holds_strings [OF Cons.prems(1)] a'(1) by (auto simp: overridden_def)
    then show ?thesis using Cons.IH [OF a'(2) _ a'(3)] Cons.prems(2) False by auto
  qed
qed (cases merge, simp_all)

section \<open>Making room\<close>

text \<open>Whichever allocations fail, the strings are kept, and there is room where the flag says so.\<close>

lemma ex_flag [simp]: "\<exists>ok. ok \<and> (P \<longrightarrow> ok)"
  by blast

lemma grow_buf_holds:
  assumes "arst_holds a L"
  shows "\<exists>ok a'. grow_buf heap n a = (ok, a') \<and> arst_holds a' L \<and> ((\<forall>k. heap k) \<longrightarrow> ok) \<and>
    (ok \<longrightarrow> as_next a' + n \<le> as_bufsize a' \<and> (0 < n \<longrightarrow> as_buf a' \<noteq> None))"
proof -
  let ?b = "case as_buf a of None \<Rightarrow> [] | Some b \<Rightarrow> b"
  let ?a = "a\<lparr>as_buf := Some (?b @ replicate (as_bufsize a + 2 * n - length ?b) NUL), as_bufsize := as_bufsize a + 2 * n\<rparr>"
  have len: "length ?b = as_bufsize a" "length (flat L) \<le> as_bufsize a" "take (length (flat L)) ?b = flat L" "as_next a = length (flat L)"
    using assms by (auto simp: arst_holds_def split: option.splits)
  have g: "arst_holds ?a L" using assms len by (simp add: arst_holds_def)
  have l: "(case as_buf a of None \<Rightarrow> 0 | Some b \<Rightarrow> length b) = length ?b" by (cases "as_buf a") simp_all
  consider "as_next a + n \<le> as_bufsize a" | "as_next a + n > as_bufsize a" "heap (as_bufsize a + 2 * n)"
    | "as_next a + n > as_bufsize a" "\<not> heap (as_bufsize a + 2 * n)" by linarith
  then show ?thesis
  proof cases
    case 1
    then have "grow_buf heap n a = (True, a)" by (simp add: grow_buf_def)
    moreover have "0 < n \<longrightarrow> as_buf a \<noteq> None" using 1 assms by (cases "as_buf a") (auto simp: arst_holds_def)
    ultimately show ?thesis using 1 assms by simp
  next
    case 2
    then have "grow_buf heap n a = (True, ?a)" by (simp add: grow_buf_def Let_def l)
    then show ?thesis using g len by simp
  next
    case 3
    then have "grow_buf heap n a = (False, a)" by (simp add: grow_buf_def Let_def)
    then show ?thesis using 3(2) assms by auto
  qed
qed

lemma grow_pointers_holds:
  assumes "arst_holds a L"
  shows "\<exists>ok a'. grow_pointers heap k a = (ok, a') \<and> arst_holds a' L \<and> ((\<forall>k. heap k) \<longrightarrow> ok) \<and>
    (ok \<longrightarrow> as_usedptr a' + k \<le> as_npointers a' \<and> as_next a' = as_next a \<and> as_bufsize a' = as_bufsize a \<and> as_buf a' = as_buf a)"
proof -
  let ?j = "as_usedptr a + k"
  have le: "j \<le> 3 * j div 2" for j :: nat by presburger
  have g: "arst_holds (a\<lparr>as_npointers := 3 * ?j div 2\<rparr>) L"
    using assms le [of ?j] holds_used [OF assms] unfolding arst_holds_def by (cases "as_buf a") simp_all
  consider "?j \<le> as_npointers a" | "?j > as_npointers a" "heap (arst_block (3 * ?j div 2))" | "?j > as_npointers a" "\<not> heap (arst_block (3 * ?j div 2))"
    by linarith
  then show ?thesis
  proof cases
    case 1
    then show ?thesis using assms by (simp add: grow_pointers_def Let_def)
  next
    case 2
    then have "grow_pointers heap k a = (True, a\<lparr>as_npointers := 3 * ?j div 2\<rparr>)" by (simp add: grow_pointers_def Let_def)
    moreover have "as_usedptr (a\<lparr>as_npointers := 3 * ?j div 2\<rparr>) = as_usedptr a" by (simp add: as_usedptr_def)
    ultimately show ?thesis using g le [of ?j] by simp
  next
    case 3
    then have "grow_pointers heap k a = (False, a)" by (simp add: grow_pointers_def Let_def)
    then show ?thesis using 3(2) assms by blast
  qed
qed

lemma clear_arst_holds:
  assumes "arst_holds a L"
  shows "\<exists>ok a'. clear_arst heap n a = (ok, a') \<and> arst_holds a' [] \<and> ((\<forall>k. heap k) \<and> (0 < n \<or> as_buf a \<noteq> None) \<longrightarrow> ok)"
proof -
  let ?a = "a\<lparr>as_string := [], as_next := 0\<rparr>" and ?n = "n + n div 2"
  have h: "arst_holds (?a\<lparr>as_buf := Some (replicate m NUL), as_bufsize := m\<rparr>) []" "arst_holds (?a\<lparr>as_buf := None, as_bufsize := 0\<rparr>) []" for m
    by (simp_all add: arst_holds_def)
  consider "n > as_bufsize a" "heap ?n" | "n > as_bufsize a" "\<not> heap ?n" | "n \<le> as_bufsize a" "as_buf a = None"
    | b where "n \<le> as_bufsize a" "as_buf a = Some b" by (meson not_less option.exhaust)
  then show ?thesis
  proof cases
    case 1
    then show ?thesis using h(1) [of ?n] by (simp add: clear_arst_def Let_def)
  next
    case 2
    then have "clear_arst heap n a = (False, ?a\<lparr>as_buf := None, as_bufsize := 0\<rparr>)" by (simp add: clear_arst_def Let_def)
    then show ?thesis using h(2) 2(2) by auto
  next
    case 3
    then have "as_bufsize a = 0" using assms by (simp add: arst_holds_def)
    then have "clear_arst heap n a = (False, ?a\<lparr>as_bufsize := 0\<rparr>)" "arst_holds (?a\<lparr>as_bufsize := 0\<rparr>) []"
      using 3 by (simp_all add: clear_arst_def Let_def arst_holds_def)
    moreover have "n = 0" using 3 \<open>as_bufsize a = 0\<close> by simp
    ultimately show ?thesis using 3(2) by auto
  next
    case 4
    then show ?thesis using h(1) [of "as_bufsize a"] by (simp add: clear_arst_def Let_def arst_holds_def)
  qed
qed

lemma flat_empty: "length (flat M) = 0 \<longleftrightarrow> M = []"
  by (cases M) auto

text \<open>The result of a branch: an error leaves some strings, a success those of the list operation.\<close>

definition branch_ok :: "bool \<Rightarrow> (array_strings + array_strings) option \<Rightarrow> char list list \<Rightarrow> bool" where
  "branch_ok sure r L \<longleftrightarrow> (\<exists>a'. r = Some (Inr a') \<and> arst_holds a' L) \<or> \<not> sure \<and> (\<exists>a' L'. r = Some (Inl a') \<and> arst_holds a' L')"

lemma branch_okL: "\<not> sure \<Longrightarrow> arst_holds a' L' \<Longrightarrow> branch_ok sure (Some (Inl a')) L"
  and branch_okR: "arst_holds a' L \<Longrightarrow> branch_ok sure (Some (Inr a')) L"
  by (auto simp: branch_ok_def)

lemma branch_ok_mono: "branch_ok s r L \<Longrightarrow> s' \<longrightarrow> s \<Longrightarrow> branch_ok s' r L"
  unfolding branch_ok_def by blast

lemma branch_ok_map: "\<exists>a'. r = Some a' \<and> arst_holds a' L \<Longrightarrow> branch_ok sure (map_option Inr r) L"
  by (auto simp: branch_okR)

lemma arst_append_holds:
  assumes "arst_holds a L" and "arst_holds n M"
  shows "branch_ok (\<forall>k. heap k) (arst_append heap merge a n) (if merge then merge_strings L M else L @ M)"
proof -
  let ?n = "length (flat M)"
  have n: "as_next n = ?n" "as_usedptr n = length M" "nul_free_list M" "arst_strings n = Some M"
    using assms(2) holds_strings [OF assms(2)] by (auto simp: arst_holds_def as_usedptr_def)
  obtain ok1 a1 where a1: "grow_buf heap ?n a = (ok1, a1)" "arst_holds a1 L" "(\<forall>k. heap k) \<longrightarrow> ok1"
    "ok1 \<longrightarrow> as_next a1 + ?n \<le> as_bufsize a1 \<and> (0 < ?n \<longrightarrow> as_buf a1 \<noteq> None)"
    using grow_buf_holds [OF assms(1), where n = ?n and heap = heap] by (elim exE conjE) (rule that)
  obtain ok2 a2 where a2: "grow_pointers heap (length M) a1 = (ok2, a2)" "arst_holds a2 L" "(\<forall>k. heap k) \<longrightarrow> ok2"
    "ok2 \<longrightarrow> as_usedptr a2 + length M \<le> as_npointers a2 \<and> as_next a2 = as_next a1 \<and> as_bufsize a2 = as_bufsize a1 \<and> as_buf a2 = as_buf a1"
    using grow_pointers_holds [OF a1(2), where k = "length M" and heap = heap] by (elim exE conjE) (rule that)
  show ?thesis
  proof (cases "ok1 \<and> ok2")
    case True
    then have e: "arst_append heap merge a n = map_option Inr (append_strings merge M a2)"
      by (simp add: arst_append_def n a1(1) a2(1))
    show ?thesis
    proof (cases "M = []")
      case True
      then show ?thesis using e a2(2) by (simp add: branch_okR)
    next
      case False
      then have "has_room a2 ?n (length M)" using True a1(4) a2(4) flat_empty [of M] by (auto simp: has_room_def)
      from append_strings_holds [OF a2(2) n(3) this, of merge] show ?thesis unfolding e by (rule branch_ok_map)
    qed
  next
    case False
    then have "arst_append heap merge a n = Some (Inl (if ok1 then a2 else a1))"
      by (simp add: arst_append_def n a1(1) a2(1))
    moreover have "\<not> (\<forall>k. heap k)" using False a1(3) a2(3) by blast
    moreover have "arst_holds (if ok1 then a2 else a1) L" using a1(2) a2(2) by simp
    ultimately show ?thesis using branch_okL by metis
  qed
qed

section \<open>Removing strings\<close>

lemma index_of_split: "index_of t L = Some i \<Longrightarrow> \<exists>A B. L = A @ t # B \<and> length A = i \<and> remove1 t L = A @ B"
proof (induction L arbitrary: i)
  case (Cons y ys)
  show ?case
  proof (cases "t = y")
    case True
    then show ?thesis using Cons.prems by (intro exI [of _ "[]"] exI [of _ ys]) simp
  next
    case False
    then obtain j where j: "index_of t ys = Some j" "i = Suc j" using Cons.prems by auto
    obtain A B where "ys = A @ t # B" "length A = j" "remove1 t ys = A @ B" using Cons.IH [OF j(1)] by blast
    then have "y # ys = (y # A) @ t # B \<and> length (y # A) = i \<and> remove1 t (y # ys) = (y # A) @ B" using False j by simp
    then show ?thesis by blast
  qed
qed simp

lemma index_of_None: "index_of t L = None \<Longrightarrow> t \<notin> set L"
  by (induction L) (auto split: if_splits)

lemma cut_string_holds:
  assumes "arst_holds a (A @ t # B)"
  shows "\<exists>a'. cut_string a t (length A) = Some a' \<and> arst_holds a' (A @ B)"
proof -
  obtain b where b: "as_buf a = Some b" using assms by (cases "as_buf a") (simp_all add: arst_holds_def)
  let ?n = "length t + 1"
  have h: "length b = as_bufsize a" "as_next a = length (flat A) + ?n + length (flat B)" "as_next a \<le> length b"
    "take (as_next a) b = flat A @ t @ NUL # flat B"
    using assms b by (simp_all add: arst_holds_def)
  then obtain r where r: "b = flat A @ t @ NUL # flat B @ r" by (metis append_take_drop_id append.assoc append_Cons)
  have st: "as_string a = offsets_from 0 A @ length (flat A) # offsets_from (length (flat A) + ?n) B"
    using assms by (simp add: arst_holds_def offsets_append add.assoc)
  have i: "as_string a ! length A = length (flat A)" by (simp add: st nth_append)
  have need: "as_next a - (length (flat A) + ?n) = length (flat B)" using h(2) by simp
  have d: "drop (length (flat A) + ?n) b = flat B @ r" by (simp add: r)
  have m: "map (\<lambda>p. p - ?n) (offsets_from (length (flat A) + ?n) B) = offsets_from (length (flat A)) B" by (rule offsets_shift)
  have k: "take (length A) (as_string a) = offsets_from 0 A" "drop (Suc (length A)) (as_string a) = offsets_from (length (flat A) + ?n) B"
    unfolding st by simp_all
  have t: "take (length (flat A)) b = flat A" "take (length (flat B)) (flat B @ r) = flat B" by (simp_all add: r)
  have "cut_string a t (length A) = Some (a\<lparr>as_buf := Some (flat A @ flat B @ drop (length (flat A) + length (flat B)) b),
      as_next := length (flat A) + length (flat B), as_string := offsets_from 0 A @ offsets_from (length (flat A)) B\<rparr>)"
    unfolding cut_string_def b option.case Let_def i need d k m t using h(2) by simp
  moreover have "length (flat A) + length (flat B) + length (drop (length (flat A) + length (flat B)) b) = length b"
    using h by simp
  ultimately show ?thesis using assms h(1) by (simp add: arst_holds_def offsets_append b)
qed

lemma remove_strings_holds:
  assumes "arst_holds a L"
  shows "\<exists>a'. remove_strings M a = Some a' \<and> arst_holds a' (foldl (\<lambda>L t. remove1 t L) L M)"
  using assms
proof (induction M arbitrary: a L)
  case (Cons t M)
  note s = holds_strings [OF Cons.prems]
  show ?case
  proof (cases "index_of t L")
    case None
    then have "remove1 t L = L" using index_of_None [OF None] by (simp add: remove1_idem)
    then show ?thesis using Cons.IH [OF Cons.prems] s None by simp
  next
    case (Some i)
    obtain A B where AB: "L = A @ t # B" "length A = i" "remove1 t L = A @ B" using index_of_split [OF Some] by blast
    have "arst_holds a (A @ t # B)" using Cons.prems unfolding AB(1) .
    from cut_string_holds [OF this] obtain a' where a': "cut_string a t i = Some a'" "arst_holds a' (A @ B)" unfolding AB(2) by blast
    have "remove_strings (t # M) a = remove_strings M a'" by (simp add: s Some a'(1))
    then show ?thesis using Cons.IH [OF a'(2)] unfolding foldl.simps AB(3) by simp
  qed
qed simp

section \<open>The other branches\<close>

lemma arst_incr_holds:
  assumes "arst_holds a L" and "arst_holds n M"
  shows "branch_ok (\<forall>k. heap k) (arst_incr heap a n) (M @ filter (\<lambda>s. \<not> overridden M s) L)"
proof -
  have n: "as_next n = length (flat M)" "as_usedptr n = length M" "nul_free_list M" "arst_strings n = Some M"
    using assms(2) holds_strings [OF assms(2)] by (auto simp: arst_holds_def as_usedptr_def)
  have a: "as_next a = length (flat L)" "as_usedptr a = length L" "nul_free_list L" "arst_strings a = Some L"
    using assms(1) holds_strings [OF assms(1)] by (auto simp: arst_holds_def as_usedptr_def)
  let ?j = "3 * (length L + length M) div 2" and ?need = "2 * (length (flat M) + length (flat L))"
  let ?N = "M @ filter (\<lambda>s. \<not> overridden M s) L"
  let ?t = "\<lparr>as_npointers = ?j, as_bufsize = ?need, as_buf = Some (replicate ?need NUL), as_next = 0, as_string = []\<rparr>"
  show ?thesis
  proof (cases "heap (arst_block ?j) \<and> heap ?need")
    case True
    have e: "arst_incr heap a n = map_option Inr (append_strings False ?N ?t)"
      using True by (simp add: arst_incr_def n a Let_def)
    have f: "length (flat (filter P L)) \<le> length (flat L)" for P
      by (induction L) auto
    have h: "arst_holds ?t []" by (simp add: arst_holds_def)
    have l: "length ?N \<le> length L + length M" using length_filter_le [of "\<lambda>s. \<not> overridden M s" L] by simp
    have "k \<le> 3 * k div 2" for k :: nat by presburger
    with l have "length ?N \<le> ?j" by (rule order.trans)
    then have r: "has_room ?t (length (flat ?N)) (length ?N)"
      using f [of "\<lambda>s. \<not> overridden M s"] unfolding has_room_def as_usedptr_def by simp
    have nf: "nul_free_list ?N" using n(3) a(3) by simp
    from append_strings_holds [OF h nf r, of False] show ?thesis unfolding e by (simp add: branch_ok_map)
  next
    case False
    then have "arst_incr heap a n = Some (Inl a)" by (auto simp: arst_incr_def n a Let_def)
    moreover have "\<not> (\<forall>k. heap k)" using False by blast
    ultimately show ?thesis using branch_okL assms(1) by metis
  qed
qed

section \<open>Setting as an operation on lists\<close>

text \<open>What \<open>set_arst\<close> promises for each operation.\<close>

definition set_spec :: "batch_op \<Rightarrow> char list list \<Rightarrow> char list list \<Rightarrow> char list list" where
  "set_spec op L M =
     (case op of
        SET \<Rightarrow> M
      | INCR \<Rightarrow> M @ filter (\<lambda>s. \<not> overridden M s) L
      | INCR_OLD \<Rightarrow> L @ M
      | MERGE \<Rightarrow> merge_strings L M
      | DECR \<Rightarrow> foldl (\<lambda>L t. remove1 t L) L M
      | _ \<Rightarrow> L)"

definition attr_holds :: "arst_attribute \<Rightarrow> char list list \<Rightarrow> bool" where
  "attr_holds a L \<longleftrightarrow> (case at_val a of None \<Rightarrow> L = [] | Some pas \<Rightarrow> arst_holds pas L)"

definition attr_wf :: "arst_attribute \<Rightarrow> bool" where
  "attr_wf a \<longleftrightarrow> (\<exists>L. attr_holds a L)"

definition sets_strings :: "batch_op \<Rightarrow> bool" where
  "sets_strings op \<longleftrightarrow> op \<in> {SET, INCR, INCR_OLD, MERGE, DECR}"

lemma finish_set_holds:
  assumes "branch_ok sure r L"
  shows "\<exists>rc a'. finish_set a r = Some (rc, a') \<and> attr_wf a' \<and> (rc = PBSE_NONE \<longrightarrow> at_set a' \<and> attr_holds a' L) \<and> (sure \<longrightarrow> rc = PBSE_NONE)"
  using assms by (auto simp: branch_ok_def finish_set_def attr_holds_def attr_wf_def)

lemma set_arst_on_holds:
  assumes "arst_holds pas L" and "arst_holds newpas M"
  shows "\<exists>rc a'. set_arst_on heap a pas newpas op = Some (rc, a') \<and> attr_wf a' \<and>
    (rc = PBSE_NONE \<longrightarrow> at_set a' \<and> attr_holds a' (set_spec op L M)) \<and>
    ((\<forall>k. heap k) \<and> sets_strings op \<and> (M \<noteq> [] \<or> as_buf pas \<noteq> None) \<longrightarrow> rc = PBSE_NONE)"
proof -
  let ?sure = "(\<forall>k. heap k) \<and> (M \<noteq> [] \<or> as_buf pas \<noteq> None)"
  have n: "as_next newpas = length (flat M)" using assms(2) by (simp add: arst_holds_def)
  have ne: "0 < as_next newpas \<longleftrightarrow> M \<noteq> []" using flat_empty [of M] n by auto
  obtain ok p where c: "clear_arst heap (as_next newpas) pas = (ok, p)" "arst_holds p []" "?sure \<longrightarrow> ok"
    using clear_arst_holds [OF assms(1), of heap "as_next newpas"] unfolding ne by (elim exE conjE) (rule that)
  have set: "branch_ok ?sure (case clear_arst heap (as_next newpas) pas of (False, pas) \<Rightarrow> Some (Inl pas) | (True, pas) \<Rightarrow> arst_append heap False pas newpas) M"
  proof (cases ok)
    case True
    then show ?thesis using branch_ok_mono [OF arst_append_holds [OF c(2) assms(2), of heap False], of ?sure] c(1) by simp
  next
    case False
    then have "\<not> ?sure" using c(3) by blast
    from branch_okL [OF this c(2), of M] show ?thesis using False by (simp add: c(1))
  qed
  have empty: "L = []" if "as_buf pas = None" using that assms(1) by (simp add: arst_holds_def)
  have decr: "branch_ok True (case arst_strings newpas of None \<Rightarrow> None | Some ss \<Rightarrow> map_option Inr (remove_strings ss pas)) (foldl (\<lambda>L t. remove1 t L) L M)"
    using remove_strings_holds [OF assms(1), of M] unfolding holds_strings [OF assms(2)] option.case by (rule branch_ok_map)
  have fin: ?thesis if "set_arst_on heap a pas newpas op = finish_set a r" "branch_ok sure r (set_spec op L M)" "?sure \<longrightarrow> sure" for r sure
  proof -
    note t = that
    obtain rc a' where "finish_set a r = Some (rc, a')" "attr_wf a'" "rc = PBSE_NONE \<longrightarrow> at_set a' \<and> attr_holds a' (set_spec op L M)"
      "sure \<longrightarrow> rc = PBSE_NONE"
      using finish_set_holds [OF t(2), of a] by (elim exE conjE) (rule that)
    then show ?thesis using t(1,3) by (intro exI [of _ rc] exI [of _ a'] conjI) simp_all
  qed
  consider "op = SET \<or> op = INCR \<and> as_buf pas = None" | "op = INCR_OLD" | "op = MERGE" | "op = INCR" "as_buf pas \<noteq> None" | "op = DECR" | "\<not> sets_strings op"
    unfolding sets_strings_def by blast
  then show ?thesis
  proof cases
    case 1
    show ?thesis
    proof (rule fin)
      show "set_arst_on heap a pas newpas op = finish_set a (case clear_arst heap (as_next newpas) pas of (False, pas) \<Rightarrow> Some (Inl pas) | (True, pas) \<Rightarrow> arst_append heap False pas newpas)"
        using 1 by (auto simp: set_arst_on_def)
      have "set_spec op L M = M" using 1 empty by (auto simp: set_spec_def)
      then show "branch_ok ?sure (case clear_arst heap (as_next newpas) pas of (False, pas) \<Rightarrow> Some (Inl pas) | (True, pas) \<Rightarrow> arst_append heap False pas newpas) (set_spec op L M)"
        using set by simp
    qed simp
  next
    case 2
    show ?thesis
    proof (rule fin)
      show "branch_ok (\<forall>k. heap k) (arst_append heap False pas newpas) (set_spec op L M)"
        using 2 arst_append_holds [OF assms, of heap False] by (simp add: set_spec_def)
    qed (simp_all add: 2 set_arst_on_def)
  next
    case 3
    show ?thesis
    proof (rule fin)
      show "branch_ok (\<forall>k. heap k) (arst_append heap True pas newpas) (set_spec op L M)"
        using 3 arst_append_holds [OF assms, of heap True] by (simp add: set_spec_def)
    qed (simp_all add: 3 set_arst_on_def)
  next
    case 4
    show ?thesis
    proof (rule fin)
      show "branch_ok (\<forall>k. heap k) (arst_incr heap pas newpas) (set_spec op L M)"
        using 4 arst_incr_holds [OF assms, of heap] by (simp add: set_spec_def)
      show "set_arst_on heap a pas newpas op = finish_set a (arst_incr heap pas newpas)" using 4 by (auto simp: set_arst_on_def)
    qed simp
  next
    case 5
    show ?thesis
    proof (rule fin)
      show "branch_ok True (case arst_strings newpas of None \<Rightarrow> None | Some ss \<Rightarrow> map_option Inr (remove_strings ss pas)) (set_spec op L M)"
        using 5 decr by (simp add: set_spec_def)
    qed (simp_all add: 5 set_arst_on_def)
  next
    case 6
    have d: "attr_wf (a\<lparr>at_val := Some pas\<rparr>)" using assms(1) by (auto simp: attr_wf_def attr_holds_def)
    have "set_arst_on heap a pas newpas op = Some (PBSE_INTERNAL, a\<lparr>at_val := Some pas\<rparr>)"
      using 6 by (cases op) (simp_all add: set_arst_on_def sets_strings_def)
    then show ?thesis using d 6 by simp
  qed
qed

end
