(* ===== verification/Attr_Arst_Props.thy ===== *)
theory Attr_Arst_Props
  imports Attr_Arst_Laws
begin

text \<open>
  What the functions of string arrays promise: \<open>set_arst\<close> is an operation on lists of strings and keeps the type
  invariant whichever allocations fail, decoding stays inside its buffer, and what is encoded decodes to the same strings.
\<close>

section \<open>Reading elements\<close>

lemma scan_elem_split: "scan_elem s = (e, r) \<Longrightarrow> s = e @ r \<and> (r = [] \<or> is_sep (hd r))"
proof (induction s arbitrary: e r rule: scan_elem.induct)
  case (2 c cs)
  show ?case
  proof (cases "c = CHR 0x5C")
    case True
    show ?thesis
    proof (cases cs)
      case Nil
      then show ?thesis using 2(3) True by auto
    next
      case (Cons d ds)
      obtain e' r' where "scan_elem ds = (e', r')" by fastforce
      then show ?thesis using 2(1) [OF True Cons] 2(3) True Cons by auto
    qed
  next
    case False
    obtain e' r' where "scan_elem cs = (e', r')" by fastforce
    then show ?thesis using 2(2) [OF False] 2(3) False by (cases "is_sep c") auto
  qed
qed simp

lemma unescape_le: "length (unescape s) \<le> length s" and unescape_set: "set (unescape s) \<subseteq> set s"
  by (induction s rule: unescape.induct) (auto split: list.splits)

lemma rstrip_prefix: "\<exists>t. s = rstrip s @ t"
proof -
  have "rev (rev s) = rev (dropWhile isspace (rev s)) @ rev (takeWhile isspace (rev s))"
    by (simp only: rev_append [symmetric] takeWhile_dropWhile_id)
  then show ?thesis unfolding rstrip_def by auto
qed

lemma rstrip_le: "length (rstrip s) \<le> length s" and rstrip_set: "set (rstrip s) \<subseteq> set s"
  using rstrip_prefix [of s] by (metis le_add1 length_append, metis Un_upper1 set_append)

lemma rstrip_empty: "rstrip s = [] \<longleftrightarrow> (\<forall>c \<in> set s. isspace c)"
  by (simp add: rstrip_def)

lemma rstrip_last: "s \<noteq> [] \<Longrightarrow> \<not> isspace (last s) \<Longrightarrow> rstrip s = s"
  by (simp add: rstrip_def dropWhile_hd hd_rev)

text \<open>A text whose first element is not blank.\<close>

definition starts_ok :: "char list \<Rightarrow> bool" where
  "starts_ok s \<longleftrightarrow> s \<noteq> [] \<and> \<not> isspace (hd s) \<and> hd s \<noteq> CHR '',''"

lemma isspace_nl: "isspace (CHR 0x0A)"
  by code_simp

lemma parse_comma_some:
  assumes "s \<noteq> []" and "first \<Longrightarrow> starts_ok s"
  shows "\<exists>e r. parse_comma_string first s = Some (Some (e, r)) \<and> set e \<subseteq> set s \<and> set r \<subseteq> set s \<and>
    (length e + 1 + length r \<le> length s \<or> r = [] \<and> length e \<le> length s)"
proof -
  let ?t = "dropWhile (\<lambda>c. c \<noteq> CHR 0x0A \<and> isspace c) s"
  obtain e r where er: "scan_elem ?t = (e, r)" by fastforce
  have t: "?t = e @ r" using scan_elem_split [OF er] by simp
  have sub: "set ?t \<subseteq> set s" "length ?t \<le> length s" by (auto dest: set_dropWhileD simp: length_dropWhile_le)
  have "\<not> (first \<and> rstrip e = [])"
  proof
    assume f: "first \<and> rstrip e = []"
    then have s: "starts_ok s" using assms(2) by simp
    then obtain c cs where c: "s = c # cs" "\<not> isspace c" "c \<noteq> CHR '',''" by (cases s) (auto simp: starts_ok_def)
    have "?t = s" using c by simp
    moreover have "\<not> is_sep c" using c isspace_nl by (auto simp: is_sep_def)
    ultimately have "e \<noteq> [] \<and> hd e = c" using er c(1) by (auto split: if_splits list.splits prod.splits)
    then show False using f c(2) by (cases e) (auto simp: rstrip_empty)
  qed
  then have "parse_comma_string first s = Some (Some (rstrip e, tl r))"
    using assms(1) by (simp add: parse_comma_string_def er)
  moreover have "set (rstrip e) \<subseteq> set s" "set (tl r) \<subseteq> set s"
    using rstrip_set [of e] sub(1) t by (auto dest: list.set_sel(2) [rotated]) (cases r; auto)
  moreover have "length (rstrip e) + 1 + length (tl r) \<le> length s \<or> tl r = [] \<and> length (rstrip e) \<le> length s"
    using rstrip_le [of e] sub(2) t by (cases r) auto
  ultimately show ?thesis by blast
qed

lemma arst_fill_safe:
  assumes "arst_holds a M" and "NUL \<notin> set s" and "first \<Longrightarrow> starts_ok s" and "as_usedptr a + k \<le> as_npointers a" and "as_buf a \<noteq> None"
    and "s = [] \<or> as_next a + length s + 1 \<le> as_bufsize a"
  shows "\<exists>a' L. arst_fill k first s a = Some a' \<and> arst_holds a' (M @ L)"
  using assms
proof (induction k arbitrary: first s a M)
  case 0
  then show ?case by (intro exI [of _ a] exI [of _ "[]"]) simp
next
  case (Suc k)
  show ?case
  proof (cases "s = []")
    case True
    then have "arst_fill (Suc k) first s a = Some a" by (simp add: parse_comma_string_def)
    then show ?thesis using Suc.prems(1) by (intro exI [of _ a] exI [of _ "[]"]) simp
  next
    case False
    obtain e r where p: "parse_comma_string first s = Some (Some (e, r))" "set e \<subseteq> set s" "set r \<subseteq> set s"
      "length e + 1 + length r \<le> length s \<or> r = [] \<and> length e \<le> length s"
      using parse_comma_some [OF False Suc.prems(3)] by blast
    let ?n = "if r = [] then 0 else length r + 1"
    have nf: "NUL \<notin> set (unescape e)" using unescape_set [of e] p(2) Suc.prems(2) by blast
    have room: "has_room a (length (unescape e) + 1 + ?n) (Suc k)"
      using unescape_le [of e] p(4) Suc.prems(4-6) False by (auto simp: has_room_def)
    obtain a' where a': "push_string a (unescape e) = Some a'" "arst_holds a' (M @ [unescape e])" "has_room a' ?n k"
      using push_string_holds [OF Suc.prems(1) nf room] by blast
    have "\<exists>b L. arst_fill k False r a' = Some b \<and> arst_holds b ((M @ [unescape e]) @ L)"
    proof (rule Suc.IH [OF a'(2)])
      show "NUL \<notin> set r" using p(3) Suc.prems(2) by blast
    qed (use a'(3) in \<open>auto simp: has_room_def split: if_splits\<close>)
    then obtain b L where "arst_fill k False r a' = Some b" "arst_holds b (M @ ([unescape e] @ L))" by auto
    then show ?thesis using p(1) a'(1) by auto
  qed
qed

lemma butlast_starts: "starts_ok s \<Longrightarrow> is_sep (last s) \<Longrightarrow> starts_ok (butlast s)"
  by (cases s rule: rev_cases) (auto simp: starts_ok_def is_sep_def isspace_nl hd_append split: if_splits)

lemma if_three: "(if \<not> a then x else if \<not> b then x else if \<not> c then x else y) = (if \<not> (a \<and> b \<and> c) then x else y)"
  by simp

lemma decode_arst_direct_cases:
  assumes "starts_ok val"
  defines "strip \<equiv> strip_trailing val"
  defines "tmpval \<equiv> (if strip then butlast val else val)"
  defines "ns \<equiv> max 1 (1 + count_seps val - (if strip then 1 else 0))"
  shows "decode_arst_direct heap patr val =
    (if \<not> (heap (length val + 1) \<and> heap (length tmpval + 1) \<and> heap (arst_block ns)) then Some (PBSE_SYSTEM, patr)
     else map_option (\<lambda>stp. (PBSE_NONE, (mark_set patr)\<lparr>at_val := Some stp\<rparr>))
            (arst_fill ns True tmpval \<lparr>as_npointers = ns, as_bufsize = length tmpval + 1, as_buf = Some (replicate (length tmpval + 1) NUL), as_next = 0, as_string = []\<rparr>))"
proof -
  have "\<not> (val = [] \<or> is_sep (last val) \<and> length val = 1)"
    using assms(1) isspace_nl by (cases val) (auto simp: starts_ok_def is_sep_def)
  then show ?thesis
    unfolding decode_arst_direct_def Let_def strip_def tmpval_def ns_def by (simp only: if_False if_three map_option_case)
qed

text \<open>
  C16: decoding stays inside the buffer and the array of pointers that it allocates, for every text whose first
  character is neither a separator nor blank: it returns, and the value satisfies the type invariant or, when memory
  runs out, the attribute is as it was.
\<close>

theorem decode_arst_direct_safe:
  assumes "starts_ok val" and "NUL \<notin> set val"
  shows "decode_arst_direct heap patr val = Some (PBSE_SYSTEM, patr) \<or>
    (\<exists>a L stp. decode_arst_direct heap patr val = Some (PBSE_NONE, a) \<and> at_set a \<and> at_val a = Some stp \<and> arst_holds stp L)"
proof -
  let ?strip = "strip_trailing val"
  let ?t = "if ?strip then butlast val else val"
  let ?ns = "max 1 (1 + count_seps val - (if ?strip then 1 else 0))"
  let ?a = "\<lparr>as_npointers = ?ns, as_bufsize = length ?t + 1, as_buf = Some (replicate (length ?t + 1) NUL), as_next = 0, as_string = []\<rparr>"
  have "arst_holds ?a []" by (simp add: arst_holds_def)
  moreover have "NUL \<notin> set ?t" using assms(2) by (auto dest: in_set_butlastD)
  moreover have "starts_ok ?t" using assms(1) butlast_starts by (simp add: strip_trailing_def)
  ultimately obtain a' L where "arst_fill ?ns True ?t ?a = Some a'" "arst_holds a' ([] @ L)"
    using arst_fill_safe [of ?a "[]" ?t True ?ns] by (auto simp: as_usedptr_def)
  then show ?thesis unfolding decode_arst_direct_cases [OF assms(1)] by auto
qed

text \<open>
  A text that starts with a separator makes \<open>parse_comma_string\<close> walk back from the first character of its
  buffer: there is no text after the separator for which it does not.
\<close>

theorem decode_arst_leading_separator:
  assumes "is_sep c" and "\<forall>k. heap k"
  shows "decode_arst_direct heap patr (c # cs) = None"
proof (cases "cs = []")
  case True
  then show ?thesis using assms by (simp add: decode_arst_direct_def)
next
  case False
  let ?t = "if strip_trailing (c # cs) then butlast (c # cs) else c # cs"
  have nc: "c \<noteq> CHR 0x5C" "\<not> (c \<noteq> CHR 0x0A \<and> isspace c)" using assms(1) by (auto simp: is_sep_def isspace_def)
  have t: "?t = c # (if strip_trailing (c # cs) then butlast cs else cs)" using False by simp
  have "parse_comma_string True (c # x) = None" for x
    using assms(1) nc by (auto simp: parse_comma_string_def rstrip_def)
  moreover have "arst_fill (max 1 n) True s a = arst_fill (Suc (max 1 n - 1)) True s a" for n s a by simp
  ultimately have "arst_fill (max 1 n) True ?t a = None" for n a unfolding t by (simp only: arst_fill.simps option.case)
  then show ?thesis using assms(2) False by (simp add: decode_arst_direct_def Let_def)
qed

section \<open>The text of an array of strings\<close>

definition esc :: "char list \<Rightarrow> char list" where
  "esc s = concat (map (\<lambda>c. if escaped c then [CHR 0x5C, c] else [c]) s)"

lemma esc_simps [simp]: "esc [] = []" "esc (c # s) = (if escaped c then CHR 0x5C # c # esc s else c # esc s)" "esc (s @ t) = esc s @ esc t"
  by (simp_all add: esc_def)

lemma escaped_sep: "is_sep c \<Longrightarrow> escaped c" "escaped (CHR 0x5C)"
  by (auto simp: is_sep_def escaped_def)

lemma scan_esc: "r = [] \<or> is_sep (hd r) \<Longrightarrow> scan_elem (esc s @ r) = (esc s, r)"
proof (induction s)
  case Nil
  then show ?case by (cases r) (auto simp: is_sep_def)
next
  case (Cons c s)
  then show ?case using escaped_sep by (auto split: prod.splits)
qed

lemma unescape_esc: "unescape (esc s) = s"
  using escaped_sep(2) by (induction s) auto

lemma count_esc: "count_seps (esc s @ r) = count_seps r"
  using escaped_sep by (induction s) auto

lemma length_esc: "length s \<le> length (esc s)"
  by (induction s) auto

lemma last_esc: "s \<noteq> [] \<Longrightarrow> esc s \<noteq> [] \<and> last (esc s) = last s"
  by (induction s rule: rev_induct) auto

text \<open>The strings that the text keeps: not empty, not starting with a blank and not ending with a space or newline.\<close>

definition keeps :: "char list \<Rightarrow> bool" where
  "keeps s \<longleftrightarrow> s \<noteq> [] \<and> (hd s = CHR 0x0A \<or> \<not> isspace (hd s)) \<and> \<not> isspace (last s)"

lemma hd_esc: "s \<noteq> [] \<Longrightarrow> hd (esc s) = (if escaped (hd s) then CHR 0x5C else hd s)"
  by (cases s) auto

lemma keeps_starts: "keeps s \<Longrightarrow> starts_ok (esc s @ r)"
proof -
  assume k: "keeps s"
  have "\<not> isspace (CHR 0x5C)" by code_simp
  moreover have "escaped (CHR 0x0A)" "escaped (CHR '','')" by (simp_all add: escaped_def)
  ultimately show ?thesis using k hd_esc [of s] last_esc [of s] by (auto simp: keeps_def starts_ok_def hd_append split: if_splits)
qed

lemma parse_esc:
  assumes "keeps s" and "r = [] \<or> is_sep (hd r)"
  shows "parse_comma_string first (esc s @ r) = Some (Some (esc s, tl r))"
proof -
  have st: "starts_ok (esc s @ r)" by (rule keeps_starts [OF assms(1)])
  then have "dropWhile (\<lambda>c. c \<noteq> CHR 0x0A \<and> isspace c) (esc s @ r) = esc s @ r"
    by (intro dropWhile_hd) (auto simp: starts_ok_def)
  moreover have "rstrip (esc s) = esc s" "esc s \<noteq> []" using assms(1) last_esc [of s] by (auto simp: keeps_def rstrip_last)
  ultimately show ?thesis by (simp add: parse_comma_string_def scan_esc [OF assms(2)])
qed

fun joined :: "char \<Rightarrow> char list list \<Rightarrow> char list" where
  "joined sep [] = []"
| "joined sep [s] = esc s"
| "joined sep (s # t # L) = esc s @ sep # joined sep (t # L)"

lemma joined_append: "L \<noteq> [] \<Longrightarrow> joined sep L @ [sep] = concat (map (\<lambda>s. esc s @ [sep]) L)"
  by (induction sep L rule: joined.induct) auto

lemma joined_facts:
  assumes "L \<noteq> []" and "is_sep sep" and "tr = [] \<or> tr = [sep]"
  shows "count_seps (joined sep L @ tr) + 1 = length L + length tr" "length (flat L) \<le> length (joined sep L) + 1"
  using assms
proof (induction sep L rule: joined.induct)
  case (2 sep s)
  {
    case 1
    have "sep \<noteq> CHR 0x5C" using 1(2) by (auto simp: is_sep_def)
    then show ?case using 1 count_esc [of s tr] by auto
  next
    case 2
    then show ?case using length_esc [of s] by simp
  }
next
  case (3 sep s t L)
  {
    case 1
    have "sep \<noteq> CHR 0x5C" using 1(2) by (auto simp: is_sep_def)
    then show ?case using 1 3(1) count_esc [of s "sep # joined sep (t # L) @ tr"] by simp
  next
    case 2
    then show ?case using length_esc [of s] 3(2) by simp
  }
qed simp_all

lemma arst_fill_text:
  assumes "L \<noteq> []" and "list_all keeps L" and "nul_free_list L" and "is_sep sep" and "tr = [] \<or> tr = [sep]" and "length L \<le> k"
    and "arst_holds a M" and "has_room a (length (flat L)) (length L)"
  shows "\<exists>a'. arst_fill k first (joined sep L @ tr) a = Some a' \<and> arst_holds a' (M @ L)"
  using assms
proof (induction sep L arbitrary: k first a M rule: joined.induct)
  case (2 sep s)
  then obtain k' where k: "k = Suc k'" by (cases k) auto
  obtain a' where a': "push_string a s = Some a'" "arst_holds a' (M @ [s])"
    using push_string_holds [OF 2(7), of s 0 0] 2 by auto
  have "arst_fill k first (joined sep [s] @ tr) a = arst_fill k' False (tl tr) a'"
    using 2 parse_esc [of s tr first] a' by (auto simp: k unescape_esc)
  moreover have "tl tr = []" using 2(5) by auto
  then have "arst_fill k' False (tl tr) a' = Some a'" by (cases k') (simp_all add: parse_comma_string_def)
  ultimately show ?case using a' by simp
next
  case (3 sep s t L)
  then obtain k' where k: "k = Suc k'" by (cases k) auto
  obtain a' where a': "push_string a s = Some a'" "arst_holds a' (M @ [s])" "has_room a' (length (flat (t # L))) (length (t # L))"
    using push_string_holds [OF 3(8), of s "length (flat (t # L))" "length (t # L)"] 3 by auto
  have "arst_fill k first (joined sep (s # t # L) @ tr) a = arst_fill k' False (joined sep (t # L) @ tr) a'"
    using 3(3,5) parse_esc [of s "sep # joined sep (t # L) @ tr" first] a'(1) by (simp add: k unescape_esc)
  then show ?case using 3(1) [of k' a' "M @ [s]" False] 3 a' k by simp
qed simp

lemma joined_last: "L \<noteq> [] \<Longrightarrow> \<exists>u. joined sep L = u @ esc (last L)"
proof (induction sep L rule: joined.induct)
  case (3 sep s t L)
  then obtain u where "joined sep (t # L) = u @ esc (last (t # L))" by blast
  then show ?case by (intro exI [of _ "esc s @ sep # u"]) simp
qed simp_all

lemma no_strip:
  assumes "L \<noteq> []" and "list_all keeps L"
  shows "\<not> strip_trailing (joined sep L)"
proof
  assume st: "strip_trailing (joined sep L)"
  have k: "keeps (last L)" using assms by (simp add: list_all_iff)
  obtain u where u: "joined sep L = u @ esc (last L)" using joined_last [OF assms(1)] by blast
  obtain s' c where sc: "last L = s' @ [c]" using k by (cases "last L" rule: rev_cases) (auto simp: keeps_def)
  have "\<not> isspace c" using k by (simp add: keeps_def sc)
  show False
  proof (cases "escaped c")
    case True
    then have "joined sep L = (u @ esc s') @ [CHR 0x5C, c]" using u sc by simp
    then show False using st by (simp add: strip_trailing_def nth_append)
  next
    case False
    then have "last (joined sep L) = c" using u sc by simp
    then show False using st False escaped_sep(1) by (auto simp: strip_trailing_def)
  qed
qed

lemma decode_joined:
  assumes "L \<noteq> []" and "list_all keeps L" and "nul_free_list L" and "is_sep sep" and "tr = [] \<or> tr = [sep]" and "\<forall>k. heap k"
  shows "\<exists>stp. decode_arst_direct heap patr (joined sep L @ tr) = Some (PBSE_NONE, (mark_set patr)\<lparr>at_val := Some stp\<rparr>) \<and> arst_holds stp L"
proof -
  let ?val = "joined sep L @ tr"
  let ?strip = "strip_trailing ?val"
  let ?t = "if ?strip then butlast ?val else ?val"
  let ?ns = "max 1 (1 + count_seps ?val - (if ?strip then 1 else 0))"
  let ?a = "\<lparr>as_npointers = ?ns, as_bufsize = length ?t + 1, as_buf = Some (replicate (length ?t + 1) NUL), as_next = 0, as_string = []\<rparr>"
  obtain s L' where L: "L = s # L'" using assms(1) by (cases L) auto
  have "starts_ok ?val" using keeps_starts [of s] assms(2) by (cases L') (simp_all add: L)
  note d = decode_arst_direct_cases [OF this, of heap patr]
  have "?strip \<longrightarrow> tr = [sep]" using no_strip [OF assms(1,2)] assms(5) by auto
  then obtain tr' where tr': "?t = joined sep L @ tr'" "tr' = [] \<or> tr' = [sep]" "length tr' = length tr - (if ?strip then 1 else 0)"
    using assms(5) by (cases ?strip) auto
  have ns: "length L \<le> ?ns" using joined_facts(1) [OF assms(1,4,5)] \<open>?strip \<longrightarrow> tr = [sep]\<close> by auto
  have "arst_holds ?a []" by (simp add: arst_holds_def)
  moreover have "has_room ?a (length (flat L)) (length L)"
    using joined_facts(2) [OF assms(1,4,5)] ns tr'(1) by (simp add: has_room_def as_usedptr_def)
  ultimately obtain stp where "arst_fill ?ns True (joined sep L @ tr') ?a = Some stp" "arst_holds stp ([] @ L)"
    using arst_fill_text [OF assms(1-4) tr'(2) ns] by blast
  then show ?thesis unfolding d tr'(1) using assms(6) by auto
qed

lemma escape_flat: "nul_free_list L \<Longrightarrow> concat (map (escape_char sep) (flat L)) = concat (map (\<lambda>s. esc s @ [sep]) L)"
proof (induction L)
  case (Cons s L)
  have "concat (map (escape_char sep) s) = esc s" if "NUL \<notin> set s" for s
    using that by (induction s) (auto simp: escape_char_def)
  moreover have "escape_char sep NUL = [sep]" by (simp add: escape_char_def)
  ultimately show ?case using Cons by simp
qed simp

definition arst_sep :: "bool \<Rightarrow> char" where
  "arst_sep save = (if save then CHR 0x0A else CHR '','')"

definition strings_text :: "bool \<Rightarrow> char list list \<Rightarrow> char list" where
  "strings_text save L = joined (arst_sep save) L @ (if save then [CHR 0x0A] else [])"

lemma arst_text_holds:
  assumes "arst_holds a L" and "L \<noteq> []"
  shows "arst_text save a = Some (strings_text save L)"
proof -
  obtain b where b: "as_buf a = Some b" "as_next a \<le> length b" "take (as_next a) b = flat L" "nul_free_list L"
    using assms by (cases "as_buf a") (auto simp: arst_holds_def)
  have "concat (map (escape_char (arst_sep save)) (flat L)) = joined (arst_sep save) L @ [arst_sep save]"
    unfolding escape_flat [OF b(4)] by (rule joined_append [OF assms(2), symmetric])
  then show ?thesis using b by (simp add: arst_text_def strings_text_def arst_sep_def)
qed

section \<open>The interface\<close>

text \<open>The strings of a value that are read back.\<close>

definition value_strings :: "array_strings option \<Rightarrow> char list list" where
  "value_strings v = (case v of None \<Rightarrow> [] | Some a \<Rightarrow> (case arst_strings a of None \<Rightarrow> [] | Some L \<Rightarrow> L))"

definition arst_valid :: "array_strings option \<Rightarrow> bool" where
  "arst_valid v \<longleftrightarrow> v \<noteq> None \<and> arst_holds (the v) (value_strings v) \<and> value_strings v \<noteq> [] \<and> list_all keeps (value_strings v)"

lemma value_strings_holds: "arst_holds a L \<Longrightarrow> value_strings (Some a) = L"
  by (simp add: value_strings_def holds_strings)

lemma is_sep_arst: "is_sep (arst_sep save)"
  by (simp add: arst_sep_def is_sep_def)

lemma strings_text_nul_free:
  assumes "nul_free_list L"
  shows "NUL \<notin> set (strings_text save L)"
proof -
  have e: "NUL \<notin> set (esc s)" if "NUL \<notin> set s" for s using that by (induction s) auto
  have "NUL \<notin> set (joined sep L)" if "sep \<noteq> NUL" for sep
    using that assms e by (induction sep L rule: joined.induct) auto
  then show ?thesis by (simp add: strings_text_def arst_sep_def)
qed

lemma encode_arst_text:
  assumes "at_set a" and "at_val a = Some pas" and "arst_holds pas L" and "L \<noteq> []" and "\<forall>k. heap k"
  shows "\<exists>k. encode_arst heap save a n r = Some (1, Some (entry_of a n r k (strings_text save L)))"
proof -
  obtain b where b: "as_buf pas = Some b" using assms(3,4) by (cases "as_buf pas") (auto simp: arst_holds_def)
  have "as_usedptr pas \<noteq> 0" using assms(4) holds_used [OF assms(3)] by simp
  then show ?thesis using assms(1,2,5) b arst_text_holds [OF assms(3,4)] by (auto simp: encode_arst_def encode_entry_eq)
qed

lemma decode_strings_text:
  assumes "arst_holds pas L" and "L \<noteq> []" and "list_all keeps L" and "\<forall>k. heap k"
  shows "\<exists>stp. decode_arst heap (clear_attr None) (Some (strings_text save L)) = Some (PBSE_NONE, (mark_set (clear_attr None))\<lparr>at_val := Some stp\<rparr>) \<and> arst_holds stp L"
proof -
  have nf: "nul_free_list L" using assms(1) by (simp add: arst_holds_def)
  have tr: "(if save then [CHR 0x0A] else []) = [] \<or> (if save then [CHR 0x0A] else []) = [arst_sep save]" by (simp add: arst_sep_def)
  obtain stp where d: "decode_arst_direct heap (clear_attr None) (strings_text save L) = Some (PBSE_NONE, (mark_set (clear_attr None))\<lparr>at_val := Some stp\<rparr>)" "arst_holds stp L"
    using decode_joined [OF assms(2,3) nf is_sep_arst tr assms(4), of "clear_attr None"] unfolding strings_text_def by blast
  moreover obtain c cs where "strings_text save L = c # cs"
  proof (cases "strings_text save L")
    case Nil
    then show ?thesis using d(1) assms(4) by (simp add: decode_arst_direct_def)
  qed blast
  ultimately have "decode_arst heap (clear_attr None) (Some (strings_text save L)) = Some (PBSE_NONE, (mark_set (clear_attr None))\<lparr>at_val := Some stp\<rparr>)"
    by (simp add: decode_arst_def)
  then show ?thesis using d(2) by blast
qed

interpretation arst_client: attribute_type "decode_arst (\<lambda>n. True)" "encode_arst (\<lambda>n. True) False" None
  "\<lambda>v. strings_text False (value_strings v)" arst_valid "\<lambda>v w. value_strings v = value_strings w"
proof
  fix a :: arst_attribute and n r
  show "\<not> at_set a \<Longrightarrow> encode_arst (\<lambda>n. True) False a n r = Some (0, None)" by (simp add: encode_arst_def split: option.split)
  show "\<exists>k. encode_arst (\<lambda>n. True) False a n r = Some (1, Some (entry_of a n r k (strings_text False (value_strings (at_val a)))))"
    if "at_set a" "arst_valid (at_val a)"
    using that encode_arst_text [of a _ _ "\<lambda>n. True" False n r] by (auto simp: arst_valid_def)
next
  fix v
  assume v: "arst_valid v"
  then obtain pas where p: "v = Some pas" "arst_holds pas (value_strings v)" "value_strings v \<noteq> []" "list_all keeps (value_strings v)"
    by (auto simp: arst_valid_def)
  show "\<exists>a. decode_arst (\<lambda>n. True) (clear_attr None) (Some (strings_text False (value_strings v))) = Some (PBSE_NONE, a) \<and> at_set a \<and> value_strings v = value_strings (at_val a)"
    using decode_strings_text [OF p(2-4), of "\<lambda>n. True" False] value_strings_holds by fastforce
  show "NUL \<notin> set (strings_text False (value_strings v))"
    using p(2) by (intro strings_text_nul_free) (simp add: arst_holds_def)
qed

interpretation arst_save: attribute_type "decode_arst (\<lambda>n. True)" "encode_arst (\<lambda>n. True) True" None
  "\<lambda>v. strings_text True (value_strings v)" arst_valid "\<lambda>v w. value_strings v = value_strings w"
proof
  fix a :: arst_attribute and n r
  show "\<not> at_set a \<Longrightarrow> encode_arst (\<lambda>n. True) True a n r = Some (0, None)" by (simp add: encode_arst_def split: option.split)
  show "\<exists>k. encode_arst (\<lambda>n. True) True a n r = Some (1, Some (entry_of a n r k (strings_text True (value_strings (at_val a)))))"
    if "at_set a" "arst_valid (at_val a)"
    using that encode_arst_text [of a _ _ "\<lambda>n. True" True n r] by (auto simp: arst_valid_def)
next
  fix v
  assume v: "arst_valid v"
  then obtain pas where p: "v = Some pas" "arst_holds pas (value_strings v)" "value_strings v \<noteq> []" "list_all keeps (value_strings v)"
    by (auto simp: arst_valid_def)
  show "\<exists>a. decode_arst (\<lambda>n. True) (clear_attr None) (Some (strings_text True (value_strings v))) = Some (PBSE_NONE, a) \<and> at_set a \<and> value_strings v = value_strings (at_val a)"
    using decode_strings_text [OF p(2-4), of "\<lambda>n. True" True] value_strings_holds by fastforce
  show "NUL \<notin> set (strings_text True (value_strings v))"
    using p(2) by (intro strings_text_nul_free) (simp add: arst_holds_def)
qed

section \<open>Setting\<close>


lemma set_arst_list:
  assumes "attr_holds a L" and "attr_holds n M" and "at_set n" and "M \<noteq> []" and "sets_strings op" and "\<forall>k. heap k"
  shows "\<exists>a'. set_arst heap a n op = Some (PBSE_NONE, a') \<and> at_set a' \<and> attr_holds a' (set_spec op L M)"
proof -
  obtain newpas where n: "at_val n = Some newpas" "arst_holds newpas M" using assms(2,4) by (auto simp: attr_holds_def split: option.splits)
  have np: "\<not> as_npointers newpas < 1" using n(2) assms(4) by (cases M) (auto simp: arst_holds_def)
  define p where "p = (case at_val a of Some pas \<Rightarrow> pas
    | None \<Rightarrow> \<lparr>as_npointers = as_npointers newpas, as_bufsize = 0, as_buf = None, as_next = 0, as_string = []\<rparr>)"
  have p: "arst_holds p L" using assms(1) by (cases "at_val a") (simp_all add: p_def attr_holds_def arst_holds_def)
  have e: "set_arst heap a n op = set_arst_on heap a p newpas op"
    using n(1) np assms(3,6) by (cases "at_val a") (simp_all add: set_arst_def p_def)
  obtain rc a' where "set_arst_on heap a p newpas op = Some (rc, a')" "rc = PBSE_NONE \<longrightarrow> at_set a' \<and> attr_holds a' (set_spec op L M)"
    "(\<forall>k. heap k) \<and> sets_strings op \<and> (M \<noteq> [] \<or> as_buf p \<noteq> None) \<longrightarrow> rc = PBSE_NONE"
    using set_arst_on_holds [OF p n(2), of heap a op] by (elim exE conjE) (rule that)
  then show ?thesis using e assms(4-6) by simp
qed

text \<open>
  C4: with memory, \<open>set_arst\<close> is an operation on lists of strings.  From an attribute with the strings \<open>L\<close> and a new one with \<open>M\<close>,
  setting leaves \<open>M\<close>; \<open>INCR\<close> leaves \<open>M\<close> followed by the strings of \<open>L\<close> whose name, the part before the first \<open>=\<close>, \<open>M\<close> does not
  give; \<open>INCR_OLD\<close> leaves \<open>L\<close> followed by \<open>M\<close>; \<open>MERGE\<close> appends the strings of \<open>M\<close> whose name is not there yet; and \<open>DECR\<close> removes the
  first occurrence of each string of \<open>M\<close>.
\<close>

theorem set_arst_refines:
  assumes "attr_holds a L" and "attr_holds n M" and "at_set n" and "M \<noteq> []" and "sets_strings op" and "\<forall>k. heap k"
  shows "\<exists>a'. set_arst heap a n op = Some (PBSE_NONE, a') \<and> at_set a' \<and> attr_holds a' (set_spec op L M)"
  by (rule set_arst_list [OF assms])

text \<open>Setting an empty value to an empty list of strings reports that memory ran out.\<close>

theorem set_arst_empty_fails:
  assumes "at_set n" and "at_val n = Some newpas" and "arst_holds newpas []" and "0 < as_npointers newpas" and "at_val a = None" and "\<forall>k. heap k"
  shows "\<exists>a'. set_arst heap a n SET = Some (PBSE_SYSTEM, a') \<and> at_set a' = at_set a"
proof -
  have "as_next newpas = 0" using assms(3) by (simp add: arst_holds_def)
  then show ?thesis using assms by (simp add: set_arst_def set_arst_on_def clear_arst_def Let_def finish_set_def)
qed

section \<open>Comparing\<close>

text \<open>
  \<open>comp_arst\<close> returns 0 when every string of the second attribute is in the first, which may have more.
\<close>

theorem comp_arst_is_subset:
  assumes "at_val a = Some p" "arst_holds p L" "at_val b = Some q" "arst_holds q M"
  shows "comp_arst ATR_TYPE_ARST a ATR_TYPE_ARST b = Some (if set M \<subseteq> set L then 0 else 1)"
  using assms holds_strings [OF assms(2)] holds_strings [OF assms(4)]
  by (auto simp: comp_arst_def list_all_iff list_ex_iff)

lemma arst_string_first:
  assumes "at_set a" "at_val a = Some p" "arst_holds p L"
  shows "arst_string (Some s) ATR_TYPE_ARST a = Some (find (is_prefix s) L)"
  using assms holds_strings [OF assms(3)] by (simp add: arst_string_def)

lemma copy_arst_same:
  assumes "arst_holds a L" and "0 < as_npointers a" and "\<forall>k. heap k"
  shows "\<exists>a'. copy_arst heap (Some a) = Some (Some a') \<and> arst_holds a' L"
  using assms by (cases "as_buf a") (auto simp: copy_arst_def arst_holds_def)

section \<open>Decoding over a value\<close>


lemma merge_strings_prefix: "\<exists>K. merge_strings L M = L @ K \<and> set K \<subseteq> set M"
proof (induction M arbitrary: L)
  case (Cons s M)
  show ?case
  proof (cases "overridden L s")
    case True
    then show ?thesis using Cons.IH [of L] by auto
  next
    case False
    obtain K where "merge_strings (L @ [s]) M = (L @ [s]) @ K" "set K \<subseteq> set M" using Cons.IH [of "L @ [s]"] by blast
    then have "merge_strings L (s # M) = L @ (s # K) \<and> set (s # K) \<subseteq> set (s # M)" using False by auto
    then show ?thesis by blast
  qed
qed simp

theorem decode_arst_merge_adds:
  assumes "at_set a" and "at_val a = Some pas" and "arst_holds pas L" and "L \<noteq> []" and "M \<noteq> []" and "list_all keeps M" and "nul_free_list M" and "\<forall>k. heap k"
  shows "\<exists>a'. decode_arst_merge heap a (Some (strings_text save M)) = Some (PBSE_NONE, a') \<and> at_set a' \<and> attr_holds a' (merge_strings M L)"
proof -
  have tr: "(if save then [CHR 0x0A] else []) = [] \<or> (if save then [CHR 0x0A] else []) = [arst_sep save]" by (simp add: arst_sep_def)
  obtain stp where d: "decode_arst_direct heap (clear_attr None) (strings_text save M) = Some (PBSE_NONE, (mark_set (clear_attr None))\<lparr>at_val := Some stp\<rparr>)" "arst_holds stp M"
    using decode_joined [OF assms(5-7) is_sep_arst tr assms(8), of "clear_attr None"] unfolding strings_text_def by blast
  obtain c cs where c: "strings_text save M = c # cs"
    using d(1) assms(8) by (cases "strings_text save M") (simp_all add: decode_arst_direct_def)
  let ?n = "\<lparr>at_flags = ATR_VFLAG_SET, at_val = Some pas\<rparr> :: arst_attribute"
  have "attr_holds (a\<lparr>at_val := Some stp\<rparr>) M" "attr_holds ?n L" "at_set ?n"
    using assms(3) d(2) by (simp_all add: attr_holds_def at_set_def ATR_VFLAG_SET_def)
  from set_arst_list [OF this assms(4) _ assms(8), of MERGE]
  show ?thesis using assms(1,2) d(1) c by (simp add: decode_arst_merge_def sets_strings_def set_spec_def)
qed

section \<open>Concrete values\<close>

definition arst_of :: "char list list \<Rightarrow> array_strings" where
  "arst_of L = \<lparr>as_npointers = length L, as_bufsize = length (flat L), as_buf = Some (flat L), as_next = length (flat L), as_string = offsets_from 0 L\<rparr>"

definition attr_of :: "char list list \<Rightarrow> arst_attribute" where
  "attr_of L = \<lparr>at_flags = ATR_VFLAG_SET, at_val = Some (arst_of L)\<rparr>"

lemma arst_of_holds: "nul_free_list L \<Longrightarrow> arst_holds (arst_of L) L"
  by (simp add: arst_holds_def arst_of_def)

lemma attr_of_facts: "nul_free_list L \<Longrightarrow> attr_holds (attr_of L) L" "at_set (attr_of L)" "at_val (attr_of L) = Some (arst_of L)"
  by (simp_all add: attr_of_def attr_holds_def arst_of_holds at_set_def ATR_VFLAG_SET_def)

theorem set_arst_refines_witness:
  "\<exists>a'. set_arst (\<lambda>n. True) (attr_of [''A=1'', ''B=2'']) (attr_of [''A=9'']) INCR = Some (PBSE_NONE, a') \<and> attr_holds a' [''A=9'', ''B=2'']"
proof -
  have s: "set_spec INCR [''A=1'', ''B=2''] [''A=9''] = [''A=9'', ''B=2'']"
    by (simp add: set_spec_def overridden_def same_name_def name_len_def)
  show ?thesis
    using set_arst_refines [of "attr_of [''A=1'', ''B=2'']" "[''A=1'', ''B=2'']" "attr_of [''A=9'']" "[''A=9'']" INCR "\<lambda>n. True"] s
    by (simp add: attr_of_facts sets_strings_def) blast
qed


theorem decode_arst_direct_safe_witness:
  "\<exists>a L stp. decode_arst_direct (\<lambda>n. True) (clear_attr None) ''a,, b '' = Some (PBSE_NONE, a) \<and> at_set a \<and> at_val a = Some stp \<and> arst_holds stp L"
proof -
  have s: "starts_ok ''a,, b ''" by (simp add: starts_ok_def isspace_def)
  have "decode_arst_direct (\<lambda>n. True) (clear_attr None) ''a,, b '' \<noteq> Some (PBSE_SYSTEM, clear_attr None)"
    unfolding decode_arst_direct_cases [OF s] by auto
  then show ?thesis using decode_arst_direct_safe [OF s, of "\<lambda>n. True" "clear_attr None"] by auto
qed


theorem decode_arst_leading_separator_witness:
  "decode_arst_direct (\<lambda>n. True) (clear_attr None) '',a'' = None"
  using decode_arst_leading_separator [of "CHR '',''" "\<lambda>n. True" "clear_attr None" "''a''"] by (simp add: is_sep_def)

end
