(* ===== verification/Attr_Acl.thy ===== *)
theory Attr_Acl
  imports Attr_Arst
begin

text \<open>
  Access control lists (\<^verbatim>\<open>lib/Libattr/attr_fn_acl.c\<close>): arrays of strings that are kept in a special order, and the
  functions that match a host, a user or a group against their entries.  Matching returns 0 for a match, as
  \<open>strcmp\<close> does.  A pointer into a string is the rest of the string; \<open>None\<close> is a read past its NUL or before its start.
\<close>

section \<open>Matching hosts\<close>

definition tolower :: "char \<Rightarrow> char" where
  "tolower c = (if 65 \<le> (of_char c :: nat) \<and> (of_char c :: nat) \<le> 90 then char_of ((of_char c :: nat) + 32) else c)"

definition strcasecmp_eq :: "char list \<Rightarrow> char list \<Rightarrow> bool" where
  "strcasecmp_eq s t \<longleftrightarrow> map tolower s = map tolower t"

definition atoi :: "char list \<Rightarrow> int" where
  "atoi s = fst (strtol_int s)"

text \<open>
  \<open>acl_check_range\<close> with the pointers into the entry and into the name: \<open>Some None\<close> is the return value 1, and otherwise
  the pointers after the range.
\<close>

definition acl_check_range :: "char list \<Rightarrow> char list \<Rightarrow> (char list \<times> char list) option option" where
  "acl_check_range pm pc =
     (let pm = (if pm \<noteq> [] \<and> hd pm = CHR ''['' then tl pm else pm);
          low = atoi pm;
          dash = dropWhile (\<lambda>c. c \<noteq> CHR ''-'') pm
      in if dash = [] then None
         else
           (let pm = tl dash;
                high = atoi pm;
                bracket = dropWhile (\<lambda>c. c \<noteq> CHR '']'') pm
            in if bracket = [] then None
               else if atoi pc < low \<or> atoi pc > high then Some None
               else Some (Some (tl bracket, dropWhile is_digit pc))))"

text \<open>The search for a place where the rest of the name is the rest of the entry.\<close>

fun find_tail :: "char list \<Rightarrow> char list \<Rightarrow> bool" where
  "find_tail pm [] = False"
| "find_tail pm (c # pc) = (strcasecmp_eq pm (c # pc) \<or> find_tail pm pc)"

definition acl_wildcard_check :: "char list \<Rightarrow> char list \<Rightarrow> bool" where
  "acl_wildcard_check pm pc \<longleftrightarrow> pm \<noteq> [] \<and> hd pm = CHR ''*'' \<and> (tl pm = [] \<or> find_tail (tl pm) pc)"

text \<open>
  The loop that \<open>hacl_match\<close> and \<open>match_strings\<close> share.  The result of \<open>match_loop can master\<close> is 0 or 1; after a wild
  card both pointers are at the end.
\<close>

lemma range_shorter:
  assumes "acl_check_range pm pc = Some (Some (pm', pc'))"
  shows "length pm' < length pm"
proof -
  define p where "p = (if pm \<noteq> [] \<and> hd pm = CHR ''['' then tl pm else pm)"
  define d where "d = dropWhile (\<lambda>c. c \<noteq> CHR ''-'') p"
  define b where "b = dropWhile (\<lambda>c. c \<noteq> CHR '']'') (tl d)"
  have n: "d \<noteq> []" "b \<noteq> []" "pm' = tl b"
    using assms by (auto simp: acl_check_range_def Let_def p_def d_def b_def split: if_splits)
  have "length d \<le> length p" "length b \<le> length (tl d)" unfolding b_def d_def by (rule length_dropWhile_le)+
  moreover have "length p \<le> length pm" by (simp add: p_def)
  ultimately show ?thesis using n by (cases d; cases b) simp_all
qed

function match_loop :: "char list \<Rightarrow> char list \<Rightarrow> int option" where
  "match_loop [] master = Some (if master = [] \<or> master = ''*'' then 0 else 1)"
| "match_loop (c # can) [] = Some 1"
| "match_loop (c # can) (m # master) =
     (if m = CHR ''['' then
        (case acl_check_range (m # master) (c # can) of
           None \<Rightarrow> None
         | Some None \<Rightarrow> Some 1
         | Some (Some (pm, pc)) \<Rightarrow> match_loop pc pm)
      else if m = CHR ''*'' then Some (if acl_wildcard_check (m # master) (c # can) then 0 else 1)
      else if tolower c \<noteq> tolower m then Some 1
      else match_loop can master)"
  by pat_completeness auto
termination
  by (relation "measure (\<lambda>(can, master). length master)") (auto dest: range_shorter)

definition hacl_match :: "char list option \<Rightarrow> char list \<Rightarrow> int option" where
  "hacl_match can master =
     (case can of
        None \<Rightarrow> Some 0
      | Some c \<Rightarrow> if c = ''LOCAL'' then Some 0 else match_loop c master)"

definition match_strings :: "char list \<Rightarrow> char list \<Rightarrow> int option" where
  "match_strings can master = match_loop can master"

section \<open>Matching users and groups\<close>

text \<open>The text after the first \<open>@\<close>.\<close>

definition after_at :: "char list \<Rightarrow> char list option" where
  "after_at s = (case dropWhile (\<lambda>c. c \<noteq> CHR ''@'') s of [] \<Rightarrow> None | _ # h \<Rightarrow> Some h)"

text \<open>The whole strings are compared, and then the parts after the \<open>@\<close>.\<close>

definition uhacl_match :: "char list option \<Rightarrow> char list \<Rightarrow> int option" where
  "uhacl_match can master =
     (case can of
        None \<Rightarrow> Some 0
      | Some c \<Rightarrow>
          if c = ''LOCAL'' then Some 0
          else
            (case (after_at c, after_at master) of
               (Some pchost, Some pmhost) \<Rightarrow>
                 if pchost = [] \<or> pmhost = [] then Some 1
                 else
                   (case match_strings c master of
                      None \<Rightarrow> None
                    | Some x \<Rightarrow> if x \<noteq> 0 then Some 1 else map_option (\<lambda>y. if y \<noteq> 0 then 1 else 0) (match_strings pchost pmhost))
             | _ \<Rightarrow> Some 1))"

text \<open>The \<open>do\<close> loop compares before it looks for the end of the entry: two empty strings are read past their NUL.\<close>

fun user_match :: "char list \<Rightarrow> char list \<Rightarrow> int option" where
  "user_match [] [] = None"
| "user_match [] (m # master) = Some 1"
| "user_match (c # can) [] = Some 1"
| "user_match (c # can) (m # master) =
     (if m \<noteq> c then Some 1
      else if master = [] then Some (if can = [] \<or> hd can = CHR ''@'' then 0 else 1)
      else if hd master = CHR ''@'' then
        (if can = [] \<or> hd can \<noteq> CHR ''@'' then Some 1 else hacl_match (Some (tl can)) (tl master))
      else user_match can master)"

text \<open>\<open>getgr\<close> is the group database: the number of a group.\<close>

definition gid_match :: "(char list \<Rightarrow> int option) \<Rightarrow> char list \<Rightarrow> char list \<Rightarrow> int" where
  "gid_match getgr group1 group2 =
     (if group1 = group2 then 0
      else
        (case getgr group1 of
           None \<Rightarrow> 1
         | Some gid1 \<Rightarrow> (case getgr group2 of None \<Rightarrow> 1 | Some gid2 \<Rightarrow> if gid1 = gid2 then 0 else 1)))"

datatype acl_type = ACL_Host | ACL_User | ACL_Group | ACL_Gid | ACL_User_Host

definition get_my_match_func :: "(char list \<Rightarrow> int option) \<Rightarrow> acl_type \<Rightarrow> char list \<Rightarrow> char list \<Rightarrow> int option" where
  "get_my_match_func getgr type name pstr =
     (case type of
        ACL_Host \<Rightarrow> hacl_match (Some name) pstr
      | ACL_User \<Rightarrow> user_match name pstr
      | ACL_Gid \<Rightarrow> Some (gid_match getgr name pstr)
      | ACL_User_Host \<Rightarrow> uhacl_match (Some name) pstr
      | ACL_Group \<Rightarrow> Some (if name = pstr then 0 else 1))"

section \<open>Checking a name\<close>

definition acl_sign :: "char list \<Rightarrow> bool" where
  "acl_sign s \<longleftrightarrow> s \<noteq> [] \<and> (hd s = CHR ''+'' \<or> hd s = CHR ''-'')"

definition acl_name :: "char list \<Rightarrow> char list" where
  "acl_name s = (if acl_sign s then tl s else s)"

text \<open>The loop over the entries, with the answer if none matches.\<close>

fun acl_loop :: "(char list \<Rightarrow> char list \<Rightarrow> int option) \<Rightarrow> char list option \<Rightarrow> bool \<Rightarrow> char list list \<Rightarrow> bool option" where
  "acl_loop match_func name default_rtn [] = Some default_rtn"
| "acl_loop match_func name default_rtn (e # es) =
     (let default_rtn = (if e = ''+'' then True else if e = ''-'' then False else default_rtn) in
      case name of
        None \<Rightarrow> acl_loop match_func name default_rtn es
      | Some n \<Rightarrow>
          (case match_func n (acl_name e) of
             None \<Rightarrow> None
           | Some r \<Rightarrow> if r = 0 then Some (\<not> (e \<noteq> [] \<and> hd e = CHR ''-'')) else acl_loop match_func name default_rtn es))"

text \<open>\<open>default_all\<close> is the build option \<open>HOST_ACL_DEFAULT_ALL\<close>.\<close>

definition acl_check_my_array_string :: "bool \<Rightarrow> (char list \<Rightarrow> int option) \<Rightarrow> array_strings option \<Rightarrow> char list option \<Rightarrow> acl_type \<Rightarrow> bool option" where
  "acl_check_my_array_string default_all getgr pas name type =
     (case pas of
        None \<Rightarrow> Some default_all
      | Some p \<Rightarrow>
          (case arst_strings p of
             None \<Rightarrow> None
           | Some es \<Rightarrow> acl_loop (get_my_match_func getgr type) name default_all es))"

definition acl_check :: "bool \<Rightarrow> (char list \<Rightarrow> int option) \<Rightarrow> char list \<Rightarrow> arst_attribute \<Rightarrow> char list option \<Rightarrow> acl_type \<Rightarrow> bool option" where
  "acl_check default_all getgr server_host pattr name type =
     (if \<not> at_set pattr \<or> (case at_val pattr of None \<Rightarrow> True | Some pas \<Rightarrow> as_usedptr pas = 0) then
        (if default_all then Some True
         else if type \<noteq> ACL_Host then Some False
         else map_option (\<lambda>r. r = 0) (hacl_match name server_host))
      else acl_check_my_array_string default_all getgr (at_val pattr) name type)"

section \<open>The order of the entries\<close>

text \<open>The value of a \<open>char\<close>, which is signed.\<close>

definition char_int :: "char \<Rightarrow> int" where
  "char_int c = (if (of_char c :: nat) < 128 then int (of_char c) else int (of_char c) - 256)"

text \<open>From the last characters to the first; the lists are reversed.\<close>

fun host_order_loop :: "char list \<Rightarrow> char list \<Rightarrow> int" where
  "host_order_loop (x # y # xs) (u # v # us) = (if u \<noteq> x then char_int u - char_int x else host_order_loop (y # xs) (v # us))"
| "host_order_loop [x] [u] = (if x = CHR ''*'' then 1 else if u = CHR ''*'' then - 1 else char_int u - char_int x)"
| "host_order_loop [x] us = 1"
| "host_order_loop xs us = - 1"

text \<open>
  Of an empty name the character before it is read, and not used: the pointer is then before the start of the name, and the
  comparison takes the last branch, or the one before it when the other name has one character.
\<close>

definition host_order :: "char list \<Rightarrow> char list \<Rightarrow> int option" where
  "host_order s1 s2 = Some (host_order_loop (rev (acl_name s1)) (rev (acl_name s2)))"

text \<open>Users first; after equal users without a host both pointers move past the NUL.\<close>

fun user_order_loop :: "char list \<Rightarrow> char list \<Rightarrow> int option" where
  "user_order_loop [] [] = None"
| "user_order_loop [] (u # us) = Some (- char_int u)"
| "user_order_loop (x # xs) [] = Some (char_int x)"
| "user_order_loop (x # xs) (u # us) =
     (if x \<noteq> u then Some (char_int x - char_int u)
      else if x = CHR ''@'' then host_order xs us
      else user_order_loop xs us)"

definition user_order :: "char list \<Rightarrow> char list \<Rightarrow> int option" where
  "user_order s1 s2 = user_order_loop (acl_name s1) (acl_name s2)"

section \<open>Setting\<close>

definition chk_dup_acl :: "char list list \<Rightarrow> char list list \<Rightarrow> bool" where
  "chk_dup_acl old new_string \<longleftrightarrow> \<not> distinct new_string \<or> list_ex (\<lambda>s. s \<in> set old) new_string"

text \<open>The place of a new entry: before the first that sorts after it.\<close>

fun acl_place :: "(char list \<Rightarrow> char list \<Rightarrow> int option) \<Rightarrow> char list list \<Rightarrow> char list \<Rightarrow> nat option" where
  "acl_place order_func [] s = Some 0"
| "acl_place order_func (e # es) s =
     (case order_func e s of
        None \<Rightarrow> None
      | Some d \<Rightarrow> if d > 0 then Some 0 else map_option Suc (acl_place order_func es s))"

text \<open>The strings from \<open>j\<close> on move up in the buffer, and the new one is copied to their place.\<close>

definition acl_insert :: "array_strings \<Rightarrow> nat \<Rightarrow> char list \<Rightarrow> array_strings option" where
  "acl_insert pas j s =
     (case as_buf pas of
        None \<Rightarrow> None
      | Some b \<Rightarrow>
          (let offset = length s + 1;
               whr = (if j < as_usedptr pas then as_string pas ! j else as_next pas)
           in if as_next pas + offset \<le> length b \<and> as_usedptr pas < as_npointers pas
              then Some (pas\<lparr>as_buf := Some (take whr b @ s @ NUL # take (as_next pas - whr) (drop whr b) @ drop (as_next pas + offset) b),
                             as_string := take j (as_string pas) @ whr # map (\<lambda>p. p + offset) (drop j (as_string pas)),
                             as_next := as_next pas + offset\<rparr>)
              else None))"

fun acl_insert_all :: "(char list \<Rightarrow> char list \<Rightarrow> int option) \<Rightarrow> char list list \<Rightarrow> array_strings \<Rightarrow> array_strings option" where
  "acl_insert_all order_func [] pas = Some pas"
| "acl_insert_all order_func (s # ss) pas =
     (case arst_strings pas of
        None \<Rightarrow> None
      | Some es \<Rightarrow>
          (case acl_place order_func es s of
             None \<Rightarrow> None
           | Some j \<Rightarrow> (case acl_insert pas j s of None \<Rightarrow> None | Some pas' \<Rightarrow> acl_insert_all order_func ss pas')))"

text \<open>A larger buffer is a new one, with the bytes in use copied.\<close>

definition acl_grow :: "(nat \<Rightarrow> bool) \<Rightarrow> nat \<Rightarrow> array_strings \<Rightarrow> bool \<times> array_strings" where
  "acl_grow heap nsize pas =
     (if as_next pas + nsize > as_bufsize pas then
        (let need = as_bufsize pas + 2 * nsize in
         if heap need
         then (True, pas\<lparr>as_buf := Some ((case as_buf pas of None \<Rightarrow> [] | Some b \<Rightarrow> take (as_next pas) b) @ replicate (need - as_next pas) NUL),
                         as_bufsize := need\<rparr>)
         else (False, pas))
      else (True, pas))"

definition acl_incr :: "(nat \<Rightarrow> bool) \<Rightarrow> (char list \<Rightarrow> char list \<Rightarrow> int option) \<Rightarrow> arst_attribute \<Rightarrow> array_strings \<Rightarrow> array_strings \<Rightarrow> (pbse \<times> arst_attribute) option" where
  "acl_incr heap order_func attr pas newpas =
     (case (arst_strings pas, arst_strings newpas) of
        (Some old, Some new) \<Rightarrow>
          if chk_dup_acl old new then Some (PBSE_DUPLIST, attr\<lparr>at_val := Some pas\<rparr>)
          else
            finish_set attr
              (case acl_grow heap (as_next newpas) pas of
                 (False, pas) \<Rightarrow> Some (Inl pas)
               | (True, pas) \<Rightarrow>
                   (case grow_pointers heap (as_usedptr newpas) pas of
                      (False, pas) \<Rightarrow> Some (Inl pas)
                    | (True, pas) \<Rightarrow> map_option Inr (acl_insert_all order_func new pas)))
      | _ \<Rightarrow> None)"

definition acl_clear :: "(nat \<Rightarrow> bool) \<Rightarrow> nat \<Rightarrow> array_strings \<Rightarrow> bool \<times> array_strings" where
  "acl_clear heap nsize pas =
     (if nsize > as_bufsize pas then
        (let n = nsize + nsize div 2 in
         if heap n then (True, pas\<lparr>as_buf := Some (replicate n NUL), as_bufsize := n\<rparr>)
         else (False, pas\<lparr>as_buf := None, as_bufsize := 0\<rparr>))
      else (True, pas\<lparr>as_buf := map_option (\<lambda>b. replicate (as_bufsize pas) NUL) (as_buf pas)\<rparr>))"

definition set_allacl_on :: "(nat \<Rightarrow> bool) \<Rightarrow> (char list \<Rightarrow> char list \<Rightarrow> int option) \<Rightarrow> arst_attribute \<Rightarrow> array_strings \<Rightarrow> array_strings \<Rightarrow> batch_op \<Rightarrow> (pbse \<times> arst_attribute) option" where
  "set_allacl_on heap order_func attr pas newpas op =
     (case op of
        SET \<Rightarrow>
          (let pas = pas\<lparr>as_string := [], as_next := 0\<rparr> in
           if as_usedptr newpas = 0 then finish_set attr (Some (Inr pas))
           else
             (case acl_clear heap (as_next newpas) pas of
                (False, pas) \<Rightarrow> finish_set attr (Some (Inl pas))
              | (True, pas) \<Rightarrow> acl_incr heap order_func attr pas newpas))
      | INCR \<Rightarrow> acl_incr heap order_func attr pas newpas
      | INCR_OLD \<Rightarrow> acl_incr heap order_func attr pas newpas
      | DECR \<Rightarrow>
          finish_set attr
            (case arst_strings newpas of
               None \<Rightarrow> None
             | Some ss \<Rightarrow> map_option Inr (remove_strings ss pas))
      | _ \<Rightarrow> Some (PBSE_INTERNAL, attr\<lparr>at_val := Some pas\<rparr>))"

definition set_allacl :: "(nat \<Rightarrow> bool) \<Rightarrow> (char list \<Rightarrow> char list \<Rightarrow> int option) \<Rightarrow> arst_attribute \<Rightarrow> arst_attribute \<Rightarrow> batch_op \<Rightarrow> (pbse \<times> arst_attribute) option" where
  "set_allacl heap order_func attr new_attr op =
     (if \<not> at_set new_attr then None
      else
        (case at_val new_attr of
           None \<Rightarrow> Some (PBSE_INTERNAL, attr)
         | Some newpas \<Rightarrow>
             (case at_val attr of
                Some pas \<Rightarrow> set_allacl_on heap order_func attr pas newpas op
              | None \<Rightarrow>
                  if \<not> heap (arst_block (as_npointers newpas)) then Some (PBSE_SYSTEM, attr)
                  else
                    set_allacl_on heap order_func attr
                      \<lparr>as_npointers = as_npointers newpas, as_bufsize = 0, as_buf = None, as_next = 0, as_string = []\<rparr> newpas op)))"

definition set_uacl :: "(nat \<Rightarrow> bool) \<Rightarrow> arst_attribute \<Rightarrow> arst_attribute \<Rightarrow> batch_op \<Rightarrow> (pbse \<times> arst_attribute) option" where
  "set_uacl heap attr uacl_new op = set_allacl heap user_order attr uacl_new op"

definition set_hostacl :: "(nat \<Rightarrow> bool) \<Rightarrow> arst_attribute \<Rightarrow> arst_attribute \<Rightarrow> batch_op \<Rightarrow> (pbse \<times> arst_attribute) option" where
  "set_hostacl heap attr new_host op = set_allacl heap host_order attr new_host op"

end
