(* ===== verification/Attr_Acl_Props.thy ===== *)
theory Attr_Acl_Props
  imports Attr_Acl Attr_Arst_Props "HOL-Library.List_Lexorder" "HOL-Library.Multiset"
begin

text \<open>
  What access control lists promise: a host list stays sorted, so that a host is decided by the entry with its name before
  any wild card of its domain; what an entry matches; and the inputs on which the code does something else.
\<close>

section \<open>Inserting in order\<close>

lemma offsets_add: "map (\<lambda>p. p + n) (offsets_from k L) = offsets_from (k + n) L"
proof (induction L arbitrary: k)
  case (Cons s L)
  show ?case using Cons.IH [of "k + length s + 1"] by (simp add: ac_simps)
qed simp

lemma acl_insert_holds:
  assumes "arst_holds a (A @ B)" and "NUL \<notin> set s" and "has_room a (length s + 1 + n) (Suc k)"
  shows "\<exists>a'. acl_insert a (length A) s = Some a' \<and> arst_holds a' (A @ s # B) \<and> has_room a' n k"
proof -
  obtain b where b: "as_buf a = Some b" using assms(3) by (auto simp: has_room_def)
  have h: "length b = as_bufsize a" "as_next a = length (flat A) + length (flat B)" "length (flat A) + length (flat B) \<le> length b"
    "take (length (flat A) + length (flat B)) b = flat A @ flat B" "as_string a = offsets_from 0 A @ offsets_from (length (flat A)) B"
    "nul_free_list A" "nul_free_list B" "length A + length B \<le> as_npointers a"
    using assms(1) b by (simp_all add: arst_holds_def offsets_append)
  then obtain r where r: "b = flat A @ flat B @ r" by (metis append_take_drop_id append.assoc)
  have room: "as_next a + (length s + 1) + n \<le> as_bufsize a" "length A + length B + Suc k \<le> as_npointers a"
    using assms(3) h(5) by (simp_all add: has_room_def as_usedptr_def)
  have u: "as_usedptr a = length A + length B" by (simp add: as_usedptr_def h(5))
  have w: "(if length A < as_usedptr a then as_string a ! length A else as_next a) = length (flat A)"
    by (cases B) (simp_all add: u h(2,5) nth_append)
  have t: "take (length (flat A)) b = flat A" "take (as_next a - length (flat A)) (drop (length (flat A)) b) = flat B"
    by (simp_all add: r h(2))
  have st: "take (length A) (as_string a) = offsets_from 0 A" "drop (length A) (as_string a) = offsets_from (length (flat A)) B"
    by (simp_all add: h(5))
  have e: "acl_insert a (length A) s = Some (a\<lparr>as_buf := Some (flat A @ s @ NUL # flat B @ drop (as_next a + (length s + 1)) b),
      as_string := offsets_from 0 A @ length (flat A) # offsets_from (length (flat A) + (length s + 1)) B,
      as_next := as_next a + (length s + 1)\<rparr>)"
    unfolding acl_insert_def b option.case Let_def w t st offsets_add using room u h(1) by simp
  have "arst_holds (a\<lparr>as_buf := Some (flat A @ s @ NUL # flat B @ drop (as_next a + (length s + 1)) b),
      as_string := offsets_from 0 A @ length (flat A) # offsets_from (length (flat A) + (length s + 1)) B,
      as_next := as_next a + (length s + 1)\<rparr>) (A @ s # B)"
    using room h(1,2,6-8) assms(2) by (simp add: arst_holds_def offsets_append)
  moreover have "has_room (a\<lparr>as_buf := Some (flat A @ s @ NUL # flat B @ drop (as_next a + (length s + 1)) b),
      as_string := offsets_from 0 A @ length (flat A) # offsets_from (length (flat A) + (length s + 1)) B,
      as_next := as_next a + (length s + 1)\<rparr>) n k"
    using room by (simp add: has_room_def as_usedptr_def)
  ultimately show ?thesis using e by blast
qed

text \<open>The list that inserting the entries of \<open>M\<close> one by one gives.\<close>

definition acl_put :: "(char list \<Rightarrow> char list \<Rightarrow> int option) \<Rightarrow> char list list \<Rightarrow> char list \<Rightarrow> char list list" where
  "acl_put f L s = (case acl_place f L s of None \<Rightarrow> L | Some j \<Rightarrow> take j L @ s # drop j L)"

definition total_order :: "(char list \<Rightarrow> char list \<Rightarrow> int option) \<Rightarrow> bool" where
  "total_order f \<longleftrightarrow> (\<forall>x y. f x y \<noteq> None)"

lemma acl_place_split:
  assumes "total_order f"
  shows "\<exists>A B. acl_place f L s = Some (length A) \<and> L = A @ B \<and> (\<forall>x \<in> set A. \<not> the (f x s) > 0) \<and> (B \<noteq> [] \<longrightarrow> the (f (hd B) s) > 0)"
proof (induction L)
  case (Cons e es)
  obtain d where d: "f e s = Some d" using assms by (auto simp: total_order_def)
  show ?case
  proof (cases "d > 0")
    case True
    then show ?thesis using d by (intro exI [of _ "[]"] exI [of _ "e # es"]) simp
  next
    case False
    obtain A B where "acl_place f es s = Some (length A)" "es = A @ B" "\<forall>x \<in> set A. \<not> the (f x s) > 0" "B \<noteq> [] \<longrightarrow> the (f (hd B) s) > 0"
      using Cons.IH by blast
    then show ?thesis using d False by (intro exI [of _ "e # A"] exI [of _ B]) simp
  qed
qed simp

lemma acl_insert_all_holds:
  assumes "total_order f" and "arst_holds a L" and "nul_free_list M" and "has_room a (length (flat M)) (length M)"
  shows "\<exists>a'. acl_insert_all f M a = Some a' \<and> arst_holds a' (foldl (acl_put f) L M)"
  using assms(2-4)
proof (induction M arbitrary: a L)
  case (Cons s M)
  obtain A B where p: "acl_place f L s = Some (length A)" "L = A @ B" using acl_place_split [OF assms(1), of L s] by blast
  have "arst_holds a (A @ B)" "NUL \<notin> set s" "has_room a (length s + 1 + length (flat M)) (Suc (length M))"
    using Cons.prems p(2) by simp_all
  from acl_insert_holds [OF this] obtain a' where a': "acl_insert a (length A) s = Some a'" "arst_holds a' (A @ s # B)" "has_room a' (length (flat M)) (length M)"
    by blast
  have q: "acl_put f L s = A @ s # B" using p by (simp add: acl_put_def)
  have "acl_insert_all f (s # M) a = acl_insert_all f M a'" using holds_strings [OF Cons.prems(1)] p(1) a'(1) by simp
  moreover have "nul_free_list M" using Cons.prems(2) by simp
  ultimately show ?case using Cons.IH [OF a'(2) _ a'(3)] q by simp
qed simp

section \<open>Sorted host lists\<close>

text \<open>
  The key of a reversed name: later characters first, a name before the names that it starts, a wild card last.
\<close>

fun hkey :: "char list \<Rightarrow> int list" where
  "hkey [] = []"
| "hkey [x] = [if x = CHR ''*'' then 1000 else 500 - char_int x]"
| "hkey (x # y # xs) = (127 - char_int x) # hkey (y # xs)"

definition host_key :: "char list \<Rightarrow> int list" where
  "host_key e = hkey (rev (acl_name e))"

text \<open>The entries \<open>+\<close> and \<open>-\<close>, which only set the default, may stand anywhere.\<close>

definition acl_sorted :: "char list list \<Rightarrow> bool" where
  "acl_sorted L \<longleftrightarrow> sorted (map host_key (filter (\<lambda>e. acl_name e \<noteq> []) L))"

lemma char_int_bounds: "- 128 \<le> char_int c" "char_int c \<le> 127"
proof -
  define n where "n = (of_char c :: nat)"
  have "n < 256" unfolding n_def by (rule nat_of_char_less_256)
  then show "- 128 \<le> char_int c" "char_int c \<le> 127" by (simp_all add: char_int_def flip: n_def)
qed

lemma char_int_inj: "char_int c = char_int d \<longleftrightarrow> c = d"
proof
  assume e: "char_int c = char_int d"
  define n m where "n = (of_char c :: nat)" and "m = (of_char d :: nat)"
  have "n < 256" "m < 256" unfolding n_def m_def by (rule nat_of_char_less_256)+
  then have "n = m" using e by (auto simp: char_int_def simp flip: n_def m_def split: if_splits)
  then show "c = d" by (simp add: n_def m_def)
qed simp

lemma char_gap: "127 - char_int x < 500 - char_int u" "127 - char_int x < 1000" "char_int u < char_int x + 373"
  using char_int_bounds [of x] char_int_bounds [of u] by linarith+

lemma hkey_final: "r \<noteq> [] \<Longrightarrow> \<exists>t ts. hkey r = t # ts \<and> (length r = 1 \<longrightarrow> t \<ge> 373) \<and> (length r > 1 \<longrightarrow> t \<le> 255) \<and> t \<le> 1000 \<and> (t = 1000 \<longrightarrow> r = ''*'')"
  using char_int_bounds(1) [of "hd r"] char_int_bounds(2) [of "hd r"] by (cases r rule: hkey.cases) auto

lemma host_order_key:
  assumes "r1 \<noteq> []" and "r2 \<noteq> []"
  shows "if host_order_loop r1 r2 > 0 then hkey r2 \<le> hkey r1 else hkey r1 \<le> hkey r2"
  using assms
proof (induction r1 r2 rule: host_order_loop.induct)
  case (1 x y xs u v us)
  then show ?case using char_int_inj [of x u] by auto
next
  case (2 x u)
  then show ?case using char_int_inj [of x u] char_int_bounds(1) [of x] char_int_bounds(1) [of u] by auto
qed (auto simp: char_gap)

lemma acl_put_sorted:
  assumes "acl_sorted L"
  shows "acl_sorted (acl_put host_order L s)"
proof -
  let ?f = "filter (\<lambda>e. acl_name e \<noteq> [])"
  have t: "total_order host_order" by (simp add: total_order_def host_order_def)
  obtain A B where p: "acl_place host_order L s = Some (length A)" "L = A @ B" "\<forall>x \<in> set A. \<not> the (host_order x s) > 0"
    "B \<noteq> [] \<longrightarrow> the (host_order (hd B) s) > 0"
    using acl_place_split [OF t, of L s] by blast
  have q: "acl_put host_order L s = A @ s # B" using p by (simp add: acl_put_def)
  show ?thesis
  proof (cases "acl_name s = []")
    case True
    then show ?thesis using assms unfolding q by (simp add: acl_sorted_def p(2))
  next
    case False
    have lo: "host_key x \<le> host_key s" if "x \<in> set (?f A)" for x
      using that p(3) False host_order_key [of "rev (acl_name x)" "rev (acl_name s)"] by (auto simp: host_order_def host_key_def)
    have hi: "host_key s \<le> host_key x" if "x \<in> set (?f B)" for x
    proof -
      note x = that
      obtain b B' where B: "B = b # B'" using x by (cases B) auto
      have pos: "host_order_loop (rev (acl_name b)) (rev (acl_name s)) > 0" using p(4) B by (simp add: host_order_def)
      then have ne: "acl_name b \<noteq> []" by (cases "acl_name b") auto
      then have "host_key s \<le> host_key b" using host_order_key [of "rev (acl_name b)" "rev (acl_name s)"] pos False by (simp add: host_key_def)
      moreover have "host_key b \<le> host_key x" if "x \<noteq> b"
        using assms ne that x by (auto simp: acl_sorted_def p(2) B sorted_append)
      ultimately show ?thesis by (cases "x = b") auto
    qed
    have "sorted (map host_key (?f A))" "sorted (map host_key (?f B))" using assms by (simp_all add: acl_sorted_def p(2) sorted_append)
    then show ?thesis using lo hi False unfolding q by (auto simp: acl_sorted_def sorted_append intro: order.trans)
  qed
qed

lemma acl_put_mset: "mset (acl_put host_order L s) = add_mset s (mset L)"
proof -
  have t: "total_order host_order" by (simp add: total_order_def host_order_def)
  obtain A B where "acl_place host_order L s = Some (length A)" "L = A @ B" using acl_place_split [OF t, of L s] by blast
  then show ?thesis by (simp add: acl_put_def)
qed

lemma acl_puts: "acl_sorted L \<Longrightarrow> acl_sorted (foldl (acl_put host_order) L M) \<and> mset (foldl (acl_put host_order) L M) = mset L + mset M"
  by (induction M arbitrary: L) (simp_all add: acl_put_sorted acl_put_mset)

lemma acl_sorted_remove: "acl_sorted L \<Longrightarrow> acl_sorted (foldl (\<lambda>L t. remove1 t L) L M)"
proof (induction M arbitrary: L)
  case (Cons t M)
  have "acl_sorted (remove1 t L)" using Cons.prems by (simp add: acl_sorted_def filter_remove1 sorted_map_remove1)
  then show ?case using Cons.IH by simp
qed simp

section \<open>Setting host lists\<close>

lemma acl_grow_holds:
  assumes "arst_holds a L"
  shows "\<exists>ok a'. acl_grow heap n a = (ok, a') \<and> arst_holds a' L \<and> ((\<forall>k. heap k) \<longrightarrow> ok) \<and>
    (ok \<longrightarrow> as_next a' + n \<le> as_bufsize a' \<and> (0 < n \<longrightarrow> as_buf a' \<noteq> None))"
proof -
  let ?b = "case as_buf a of None \<Rightarrow> [] | Some b \<Rightarrow> take (as_next a) b"
  let ?a = "a\<lparr>as_buf := Some (?b @ replicate (as_bufsize a + 2 * n - as_next a) NUL), as_bufsize := as_bufsize a + 2 * n\<rparr>"
  have len: "?b = flat L" "length (flat L) \<le> as_bufsize a" "as_next a = length (flat L)"
    using assms by (auto simp: arst_holds_def split: option.splits)
  have g: "arst_holds ?a L" using assms len by (simp add: arst_holds_def)
  consider "as_next a + n \<le> as_bufsize a" | "as_next a + n > as_bufsize a" "heap (as_bufsize a + 2 * n)"
    | "as_next a + n > as_bufsize a" "\<not> heap (as_bufsize a + 2 * n)" by linarith
  then show ?thesis
  proof cases
    case 1
    then have "acl_grow heap n a = (True, a)" by (simp add: acl_grow_def)
    moreover have "0 < n \<longrightarrow> as_buf a \<noteq> None" using 1 assms by (cases "as_buf a") (auto simp: arst_holds_def)
    ultimately show ?thesis using 1 assms by simp
  next
    case 2
    then have "acl_grow heap n a = (True, ?a)" by (simp add: acl_grow_def Let_def)
    then show ?thesis using g len by simp
  next
    case 3
    then have "acl_grow heap n a = (False, a)" by (simp add: acl_grow_def Let_def)
    then show ?thesis using 3(2) assms by auto
  qed
qed

text \<open>What a call that adds the entries \<open>M\<close> to the list \<open>L\<close> leaves.\<close>

definition acl_result :: "(pbse \<times> arst_attribute) option \<Rightarrow> char list multiset \<Rightarrow> bool \<Rightarrow> bool" where
  "acl_result r N sure \<longleftrightarrow> (\<exists>rc a' L'. r = Some (rc, a') \<and> attr_holds a' L' \<and> acl_sorted L' \<and>
     (rc = PBSE_NONE \<longrightarrow> at_set a' \<and> mset L' = N) \<and> (sure \<longrightarrow> rc = PBSE_NONE))"

lemma finish_result:
  "arst_holds p L \<Longrightarrow> acl_sorted L \<Longrightarrow> mset L = N \<Longrightarrow> acl_result (finish_set a (Some (Inr p))) N sure"
  "arst_holds p L \<Longrightarrow> acl_sorted L \<Longrightarrow> \<not> sure \<Longrightarrow> acl_result (finish_set a (Some (Inl p))) N sure"
  by (auto simp: acl_result_def finish_set_def attr_holds_def)

lemma acl_incr_holds:
  assumes "arst_holds pas L" and "arst_holds newpas M" and "acl_sorted L"
  shows "acl_result (acl_incr heap host_order a pas newpas) (mset L + mset M) ((\<forall>k. heap k) \<and> \<not> chk_dup_acl L M)"
proof (cases "chk_dup_acl L M")
  case True
  then have "acl_incr heap host_order a pas newpas = Some (PBSE_DUPLIST, a\<lparr>at_val := Some pas\<rparr>)"
    using holds_strings [OF assms(1)] holds_strings [OF assms(2)] by (simp add: acl_incr_def)
  then show ?thesis using True assms(1,3) by (auto simp: acl_result_def attr_holds_def)
next
  case False
  let ?n = "length (flat M)"
  have n: "as_next newpas = ?n" "as_usedptr newpas = length M" "nul_free_list M" "arst_strings newpas = Some M"
    using assms(2) holds_strings [OF assms(2)] by (auto simp: arst_holds_def as_usedptr_def)
  obtain ok1 a1 where a1: "acl_grow heap ?n pas = (ok1, a1)" "arst_holds a1 L" "(\<forall>k. heap k) \<longrightarrow> ok1"
    "ok1 \<longrightarrow> as_next a1 + ?n \<le> as_bufsize a1 \<and> (0 < ?n \<longrightarrow> as_buf a1 \<noteq> None)"
    using acl_grow_holds [OF assms(1), where n = ?n and heap = heap] by (elim exE conjE) (rule that)
  obtain ok2 a2 where a2: "grow_pointers heap (length M) a1 = (ok2, a2)" "arst_holds a2 L" "(\<forall>k. heap k) \<longrightarrow> ok2"
    "ok2 \<longrightarrow> as_usedptr a2 + length M \<le> as_npointers a2 \<and> as_next a2 = as_next a1 \<and> as_bufsize a2 = as_bufsize a1 \<and> as_buf a2 = as_buf a1"
    using grow_pointers_holds [OF a1(2), where k = "length M" and heap = heap] by (elim exE conjE) (rule that)
  have e: "acl_incr heap host_order a pas newpas =
    finish_set a (if \<not> ok1 then Some (Inl a1) else if \<not> ok2 then Some (Inl a2) else map_option Inr (acl_insert_all host_order M a2))"
    using False holds_strings [OF assms(1)] by (simp add: acl_incr_def n a1(1) a2(1) split: bool.split)
  show ?thesis
  proof (cases "ok1 \<and> ok2")
    case True
    have "\<exists>a'. acl_insert_all host_order M a2 = Some a' \<and> arst_holds a' (foldl (acl_put host_order) L M)"
    proof (cases "M = []")
      case True
      then show ?thesis using a2(2) by simp
    next
      case False
      have "has_room a2 ?n (length M)" using True a1(4) a2(4) flat_empty [of M] False by (auto simp: has_room_def)
      then show ?thesis by (intro acl_insert_all_holds a2(2) n(3)) (simp_all add: total_order_def host_order_def)
    qed
    then obtain a' where a': "acl_insert_all host_order M a2 = Some a'" "arst_holds a' (foldl (acl_put host_order) L M)" by blast
    have "acl_incr heap host_order a pas newpas = finish_set a (Some (Inr a'))" using True a'(1) by (simp add: e)
    then show ?thesis using finish_result(1) [OF a'(2)] acl_puts [OF assms(3), of M] by simp
  next
    case False
    have ns: "\<not> (\<forall>k. heap k)" using False a1(3) a2(3) by blast
    have "acl_incr heap host_order a pas newpas = finish_set a (Some (Inl (if ok1 then a2 else a1)))" using False by (simp add: e)
    moreover have "arst_holds (if ok1 then a2 else a1) L" using a1(2) a2(2) by simp
    moreover have "\<not> ((\<forall>k. heap k) \<and> \<not> chk_dup_acl L M)" using ns by blast
    ultimately show ?thesis using finish_result(2) [OF _ assms(3)] by metis
  qed
qed

definition acl_spec :: "batch_op \<Rightarrow> char list list \<Rightarrow> char list list \<Rightarrow> char list multiset" where
  "acl_spec op L M = (case op of SET \<Rightarrow> mset M | DECR \<Rightarrow> mset L - mset M | _ \<Rightarrow> mset L + mset M)"

lemma mset_removes: "mset (foldl (\<lambda>L t. remove1 t L) L M) = mset L - mset M"
  by (induction M arbitrary: L) simp_all

lemma set_hostacl_on_holds:
  assumes "arst_holds pas L" and "arst_holds newpas M" and "acl_sorted L"
  shows "acl_result (set_allacl_on heap host_order a pas newpas op) (acl_spec op L M)
    ((\<forall>k. heap k) \<and> (op = SET \<and> distinct M \<or> (op = INCR \<or> op = INCR_OLD) \<and> \<not> chk_dup_acl L M \<or> op = DECR))"
proof -
  have u: "as_usedptr newpas = length M" by (rule holds_used [OF assms(2)])
  let ?p = "pas\<lparr>as_string := [], as_next := 0\<rparr>"
  consider "op = SET" | "op = INCR \<or> op = INCR_OLD" | "op = DECR" | "op \<notin> {SET, INCR, INCR_OLD, DECR}" by blast
  then show ?thesis
  proof cases
    case 1
    have p: "arst_holds ?p []" using assms(1) by (cases "as_buf pas") (simp_all add: arst_holds_def)
    show ?thesis
    proof (cases "M = []")
      case True
      then have "set_allacl_on heap host_order a pas newpas op = finish_set a (Some (Inr ?p))" using 1 u by (simp add: set_allacl_on_def Let_def)
      then show ?thesis using finish_result(1) [OF p, of "{#}" a] True 1 by (simp add: acl_sorted_def acl_spec_def)
    next
      case False
      obtain ok q where q: "acl_clear heap (as_next newpas) ?p = (ok, q)" "arst_holds q []" "(\<forall>k. heap k) \<longrightarrow> ok"
      proof (cases "as_next newpas > as_bufsize ?p")
        case True
        then show ?thesis using that p by (cases "heap (as_next newpas + as_next newpas div 2)") (auto simp: acl_clear_def Let_def arst_holds_def)
      next
        case False
        then show ?thesis using that p by (cases "as_buf pas") (auto simp: acl_clear_def arst_holds_def)
      qed
      have e: "set_allacl_on heap host_order a pas newpas op = (if ok then acl_incr heap host_order a q newpas else finish_set a (Some (Inl q)))"
        using 1 u False q(1) by (simp add: set_allacl_on_def Let_def split: bool.split)
      have d: "chk_dup_acl [] M \<longleftrightarrow> \<not> distinct M" by (simp add: chk_dup_acl_def list_ex_iff)
      have s: "acl_sorted []" by (simp add: acl_sorted_def)
      show ?thesis
      proof (cases ok)
        case True
        then show ?thesis using e acl_incr_holds [OF q(2) assms(2) s, of heap a] 1 d by (simp add: acl_spec_def)
      next
        case False
        then have "\<not> ((\<forall>k. heap k) \<and> distinct M)" using q(3) by blast
        from finish_result(2) [OF q(2) s this, of a] show ?thesis using e False 1 by (simp add: acl_spec_def)
      qed
    qed
  next
    case 2
    then have "set_allacl_on heap host_order a pas newpas op = acl_incr heap host_order a pas newpas" by (auto simp: set_allacl_on_def)
    then show ?thesis using acl_incr_holds [OF assms, of heap a] 2 by (auto simp: acl_spec_def)
  next
    case 3
    obtain p where "remove_strings M pas = Some p" "arst_holds p (foldl (\<lambda>L t. remove1 t L) L M)"
      using remove_strings_holds [OF assms(1), of M] by blast
    then show ?thesis using finish_result(1) [of p _ _ a] acl_sorted_remove [OF assms(3), of M] 3 holds_strings [OF assms(2)] mset_removes [of L M]
      by (simp add: set_allacl_on_def acl_spec_def)
  next
    case 4
    then have "set_allacl_on heap host_order a pas newpas op = Some (PBSE_INTERNAL, a\<lparr>at_val := Some pas\<rparr>)"
      by (cases op) (simp_all add: set_allacl_on_def)
    then show ?thesis using 4 assms(1,3) by (auto simp: acl_result_def attr_holds_def)
  qed
qed


text \<open>Setting a list with a duplicate is refused, after the old list has been deleted.\<close>

theorem set_hostacl_duplicate_clears:
  assumes "attr_holds a L" and "attr_holds n M" and "at_set n" and "\<not> distinct M" and "\<forall>k. heap k"
  shows "\<exists>a'. set_hostacl heap a n SET = Some (PBSE_DUPLIST, a') \<and> attr_holds a' [] \<and> at_set a' = at_set a"
proof -
  obtain newpas where n: "at_val n = Some newpas" "arst_holds newpas M" using assms(2,4) by (auto simp: attr_holds_def split: option.splits)
  define p where "p = (case at_val a of Some pas \<Rightarrow> pas
    | None \<Rightarrow> \<lparr>as_npointers = as_npointers newpas, as_bufsize = 0, as_buf = None, as_next = 0, as_string = []\<rparr>)"
  have p: "arst_holds p L" using assms(1) by (cases "at_val a") (simp_all add: p_def attr_holds_def arst_holds_def)
  have e: "set_hostacl heap a n SET = set_allacl_on heap host_order a p newpas SET"
    using n(1) assms(3,5) by (cases "at_val a") (simp_all add: set_hostacl_def set_allacl_def p_def)
  let ?p = "p\<lparr>as_string := [], as_next := 0\<rparr>"
  have h: "arst_holds ?p []" using p by (cases "as_buf p") (simp_all add: arst_holds_def)
  obtain q where q: "acl_clear heap (as_next newpas) ?p = (True, q)" "arst_holds q []"
  proof (cases "as_next newpas > as_bufsize ?p")
    case True
    then show ?thesis using that h assms(5) by (auto simp: acl_clear_def Let_def arst_holds_def)
  next
    case False
    then show ?thesis using that h by (cases "as_buf p") (auto simp: acl_clear_def arst_holds_def)
  qed
  have "as_usedptr newpas \<noteq> 0" using holds_used [OF n(2)] assms(4) by auto
  then have "set_hostacl heap a n SET = Some (PBSE_DUPLIST, a\<lparr>at_val := Some q\<rparr>)"
    using holds_strings [OF q(2)] holds_strings [OF n(2)] assms(4)
    by (simp add: e set_allacl_on_def Let_def q(1) acl_incr_def chk_dup_acl_def)
  then show ?thesis using q(2) by (simp add: attr_holds_def)
qed

section \<open>What an entry matches\<close>

definition plain :: "char list \<Rightarrow> bool" where
  "plain s \<longleftrightarrow> CHR ''['' \<notin> set s \<and> CHR ''*'' \<notin> set s"

definition lower :: "char list \<Rightarrow> char list" where
  "lower s = map tolower s"

lemma match_plain: "plain m \<Longrightarrow> match_loop c m = Some (if lower c = lower m then 0 else 1)"
  by (induction c m rule: match_loop.induct) (auto simp: plain_def lower_def)

lemma lower_simps [simp]: "lower [] = []" "lower (c # s) = tolower c # lower s" "lower (s @ t) = lower s @ lower t" "lower s = [] \<longleftrightarrow> s = []"
  by (simp_all add: lower_def)

lemma find_tail_suffix: "q \<noteq> [] \<Longrightarrow> find_tail q c \<longleftrightarrow> (\<exists>m. lower c = m @ lower q)"
proof (induction c)
  case (Cons x c)
  have "(\<exists>m. lower (x # c) = m @ lower q) \<longleftrightarrow> lower (x # c) = lower q \<or> (\<exists>m. lower c = m @ lower q)"
    unfolding lower_simps by (metis append_Cons append_Nil append_eq_Cons_conv)
  moreover have "find_tail q (x # c) \<longleftrightarrow> lower (x # c) = lower q \<or> find_tail q c" unfolding find_tail.simps strcasecmp_eq_def lower_def by metis
  ultimately show ?case using Cons by metis
qed simp

lemma match_star:
  assumes "plain p"
  shows "match_loop c (p @ CHR ''*'' # q) = Some (if \<exists>m. lower c = lower p @ m @ lower q then 0 else 1)"
  using assms
proof (induction p arbitrary: c)
  case Nil
  show ?case
  proof (cases c)
    case Nil
    then show ?thesis by simp
  next
    case (Cons x xs)
    then show ?thesis using find_tail_suffix [of q c] by (cases "q = []") (simp_all add: acl_wildcard_check_def)
  qed
next
  case (Cons y p)
  then have y: "y \<noteq> CHR ''[''" "y \<noteq> CHR ''*''" "plain p" by (auto simp: plain_def)
  show ?case
  proof (cases c)
    case Nil
    then show ?thesis by simp
  next
    case (Cons x xs)
    then show ?thesis using y Cons.IH [of xs] by simp
  qed
qed


section \<open>The entry that decides\<close>

text \<open>
  A host list as administrators write it: each entry is a host name, or \<open>*.\<close> and a domain, in lower case, with or
  without a sign.
\<close>

definition host_entry :: "char list \<Rightarrow> bool" where
  "host_entry e \<longleftrightarrow> lower (acl_name e) = acl_name e \<and>
     (plain (acl_name e) \<and> acl_name e \<noteq> [] \<and> hd (acl_name e) \<noteq> CHR ''.'' \<or>
      take 2 (acl_name e) = ''*.'' \<and> plain (drop 2 (acl_name e)))"

lemma hkey_common: "xs \<noteq> [] \<Longrightarrow> ys \<noteq> [] \<Longrightarrow> hkey (p @ xs) < hkey (p @ ys) \<longleftrightarrow> hkey xs < hkey ys"
proof (induction p)
  case (Cons c p)
  have "hkey (c # r) = (127 - char_int c) # hkey r" if "r \<noteq> []" for r using that by (cases r) auto
  then show ?case using Cons by simp
qed simp

lemma exact_before_wildcard:
  assumes "plain m" and "m \<noteq> []"
  shows "hkey (rev (m @ t)) < hkey (rev (CHR ''*'' # t))"
proof -
  obtain k ks where k: "hkey (rev m) = k # ks" "k \<le> 1000" "k = 1000 \<longrightarrow> rev m = ''*''"
    using hkey_final [of "rev m"] assms(2) by auto
  have "rev m \<noteq> ''*''" using assms(1) by (auto simp: plain_def)
  then have "hkey (rev m) < hkey ''*''" using k by simp
  then show ?thesis using hkey_common [of "rev m" "''*''" "rev t"] assms(2) by simp
qed

lemma acl_loop_skip:
  assumes "\<And>x. x \<in> set A \<Longrightarrow> f n (acl_name x) = Some 1"
  shows "\<exists>d'. acl_loop f (Some n) d (A @ B) = acl_loop f (Some n) d' B"
  using assms
proof (induction A arbitrary: d)
  case (Cons x A)
  have "f n (acl_name x) = Some 1" using Cons.prems by simp
  then show ?case using Cons by simp
qed auto


section \<open>Inputs on which the code does something else\<close>

lemma user_order_same: "CHR ''@'' \<notin> set u \<Longrightarrow> user_order_loop u u = None"
  by (induction u) auto

text \<open>C37: a user entry without a host cannot be added to one that allows or denies the same user: the comparison reads past both strings.\<close>

theorem user_order_overruns:
  assumes "CHR ''@'' \<notin> set u" and "at_set n" and "at_val n = Some newpas" and "arst_holds newpas [CHR ''-'' # u]"
    and "at_val a = Some pas" and "arst_holds pas [CHR ''+'' # u]" and "\<forall>k. heap k"
  shows "set_uacl heap a n INCR = None"
proof -
  have o: "user_order (CHR ''+'' # u) (CHR ''-'' # u) = None"
    using user_order_same [OF assms(1)] by (simp add: user_order_def acl_name_def acl_sign_def)
  have n: "as_usedptr newpas = 1" using holds_used [OF assms(4)] by simp
  obtain ok1 a1 where a1: "acl_grow heap (as_next newpas) pas = (ok1, a1)" "arst_holds a1 [CHR ''+'' # u]" "(\<forall>k. heap k) \<longrightarrow> ok1"
    using acl_grow_holds [OF assms(6), where n = "as_next newpas" and heap = heap] by blast
  obtain ok2 a2 where a2: "grow_pointers heap 1 a1 = (ok2, a2)" "arst_holds a2 [CHR ''+'' # u]" "(\<forall>k. heap k) \<longrightarrow> ok2"
    using grow_pointers_holds [OF a1(2), where k = 1 and heap = heap] by blast
  have "acl_insert_all user_order [CHR ''-'' # u] a2 = None" using holds_strings [OF a2(2)] o by simp
  moreover have ok1 ok2 using a1(3) a2(3) assms(7) by blast+
  ultimately show ?thesis
    using assms(2,3,5) holds_strings [OF assms(4)] holds_strings [OF assms(6)] a1(1) a2(1) n
    by (simp add: set_uacl_def set_allacl_def set_allacl_on_def acl_incr_def chk_dup_acl_def finish_set_def)
qed

text \<open>A range from 0 also matches no digits at all.\<close>

lemma match_common: "plain p \<Longrightarrow> match_loop (p @ c) (p @ m) = match_loop c m"
  by (induction p) (auto simp: plain_def)

theorem range_matches_nothing:
  assumes "plain p" and "plain (d # q)" and "\<not> is_digit d" and "\<not> isspace d" and "d \<noteq> CHR ''-''" and "d \<noteq> CHR ''+''" and "hi < 2 ^ 31"
    and "p @ d # q \<noteq> ''LOCAL''"
  shows "hacl_match (Some (p @ d # q)) (p @ ''[0-'' @ dec hi @ '']'' @ d # q) = Some 0"
proof -
  let ?m = "''[0-'' @ dec hi @ '']'' @ d # q"
  have z: "strtol_int (d # q) = (0, d # q)"
    using assms(3-6) by (simp add: strtol_int_def strtol_def to_int_def)
  have nb: "dropWhile (\<lambda>c. c \<noteq> CHR '']'') (dec hi @ CHR '']'' # d # q) = CHR '']'' # d # q"
  proof -
    have "c \<noteq> CHR '']''" if "c \<in> set (dec hi)" for c using dec_digits [OF that] by (auto simp: is_digit_def)
    then show ?thesis by (subst dropWhile_append2) auto
  qed
  have ne: "num_end (CHR '']'' # d # q)" by (simp add: num_end_def is_digit_def)
  have hi: "atoi (dec hi @ CHR '']'' # d # q) = int hi" using strtol_int_dec [OF ne assms(7)] by (simp add: atoi_def)
  have lo: "atoi (''0-'' @ dec hi @ '']'' @ d # q) = 0"
    by (simp add: atoi_def strtol_int_def strtol_def isspace_def is_digit_def digit_val_def to_int_def)
  have "acl_check_range ?m (d # q) = Some (Some (d # q, d # q))"
    using z nb hi lo assms(3) by (simp add: acl_check_range_def Let_def) (simp add: atoi_def)
  then have "match_loop (d # q) ?m = match_loop (d # q) (d # q)" by simp
  also have "\<dots> = Some 0" using match_plain [OF assms(2), of "d # q"] by simp
  finally show ?thesis using match_common [OF assms(1), of "d # q" ?m] assms(8) by (simp add: hacl_match_def)
qed

lemma tolower_star: "tolower c = CHR ''*'' \<longrightarrow> c = CHR ''*''"
proof
  assume t: "tolower c = CHR ''*''"
  have "of_char (tolower c) = (42 :: nat)" by (simp add: t)
  then have "\<not> (65 \<le> (of_char c :: nat) \<and> (of_char c :: nat) \<le> 90)"
    by (auto simp: tolower_def of_char_of split: if_splits)
  then show "c = CHR ''*''" using t unfolding tolower_def by (simp only: if_False)
qed

text \<open>
  C36: the entry \<open>*@*\<close>, any user of any host, matches nobody: the user part is compared with the rest of both strings
  still attached.
\<close>

theorem any_user_any_host_matches_nobody:
  assumes "CHR ''@'' \<notin> set u" and "CHR ''*'' \<notin> set h"
  shows "uhacl_match (Some (u @ CHR ''@'' # h)) ''*@*'' = Some 1"
proof -
  have "dropWhile (\<lambda>c. c \<noteq> CHR ''@'') (u @ CHR ''@'' # h) = CHR ''@'' # h"
    using assms(1) by (subst dropWhile_append2) auto
  then have at: "after_at (u @ CHR ''@'' # h) = Some h" by (simp add: after_at_def)
  have "\<not> (\<exists>m. lower (u @ CHR ''@'' # h) = lower [] @ m @ lower ''@*'')"
  proof
    assume "\<exists>m. lower (u @ CHR ''@'' # h) = lower [] @ m @ lower ''@*''"
    then obtain m where "lower (u @ CHR ''@'' # h) = m @ lower ''@*''" by auto
    then have "last (lower (u @ CHR ''@'' # h)) = tolower (CHR ''*'')" by simp
    moreover have "tolower (CHR ''*'') = CHR ''*''" "tolower (CHR ''@'') = CHR ''@''" by code_simp+
    moreover have "tolower c = CHR ''*'' \<longrightarrow> c = CHR ''*''" for c by (rule tolower_star)
    ultimately show False using assms(2) by (cases h rule: rev_cases) (auto simp: lower_def)
  qed
  then have "match_strings (u @ CHR ''@'' # h) ''*@*'' = Some 1"
    using match_star [of "[]" "u @ CHR ''@'' # h" "''@*''"] by (simp add: match_strings_def plain_def)
  moreover have "u @ CHR ''@'' # h \<noteq> ''LOCAL''"
  proof
    assume "u @ CHR ''@'' # h = ''LOCAL''"
    then have "CHR ''@'' \<in> set ''LOCAL''" by (metis in_set_conv_decomp)
    then show False by simp
  qed
  moreover have "after_at ''*@*'' = Some ''*''" by (simp add: after_at_def)
  ultimately show ?thesis by (simp add: uhacl_match_def at)
qed

section \<open>Concrete lists\<close>



theorem set_hostacl_duplicate_clears_witness:
  "\<exists>a'. set_hostacl (\<lambda>n. True) (attr_of [''+*.b'']) (attr_of [''h'', ''h'']) SET = Some (PBSE_DUPLIST, a') \<and> attr_holds a' []"
proof -
  have h: "attr_holds (attr_of [''+*.b'']) [''+*.b'']" "attr_holds (attr_of [''h'', ''h'']) [''h'', ''h'']" by (rule attr_of_facts, simp)+
  show ?thesis using set_hostacl_duplicate_clears [OF h attr_of_facts(2), of "\<lambda>n. True"] by auto
qed


theorem user_order_overruns_witness:
  "set_uacl (\<lambda>n. True) (attr_of [''+al'']) (attr_of [''-al'']) INCR = None"
  using user_order_overruns [of "''al''" "attr_of [''-al'']" "arst_of [''-al'']" "attr_of [''+al'']" "arst_of [''+al'']" "\<lambda>n. True"]
  by (simp add: attr_of_facts arst_of_holds)

theorem range_matches_nothing_witness:
  "hacl_match (Some ''n.d'') (''n'' @ ''[0-'' @ dec 9 @ '']'' @ ''.d'') = Some 0"
  using range_matches_nothing [of "''n''" "CHR ''.''" "''d''" 9] by (simp add: plain_def is_digit_def isspace_def)

theorem any_user_any_host_matches_nobody_witness:
  "uhacl_match (Some (''al'' @ CHR ''@'' # ''h.d'')) ''*@*'' = Some 1"
  using any_user_any_host_matches_nobody [of "''al''" "''h.d''"] by simp

end
