(* ===== verification/Range_String.thy ===== *)
theory Range_String
  imports C_Text
begin

text \<open>
  The range strings of \<^verbatim>\<open>lib/Libutils/u_misc.c\<close>: a list of indices as comma-separated numbers and
  ranges.  \<open>translate_vector_to_range_string\<close> prints one, \<open>translate_range_string_to_vector\<close> reads one.
  The reader's outer loop is a total function: every turn either stops or moves the pointer.  Its inner
  loop counts an \<open>int\<close> up to the end of the range and overflows when that end is \<open>INT_MAX\<close>; this is the
  value \<open>None\<close> of the model.
\<close>

section \<open>Operations\<close>

definition is_whitespace :: "char \<Rightarrow> bool" where
  "is_whitespace c \<longleftrightarrow> c = CHR '' '' \<or> c = CHR 0x0A \<or> c = CHR 0x09 \<or> c = CHR 0x0D \<or> c = CHR 0x0C"

definition move_past_whitespace :: "char list \<Rightarrow> char list" where
  "move_past_whitespace str = dropWhile is_whitespace str"

definition add_range_to_string :: "char list \<Rightarrow> int \<Rightarrow> int \<Rightarrow> char list" where
  "add_range_to_string range_string begin_0 end_0 =
     range_string @
     (if begin_0 = end_0 then
        (if range_string = [] then int_text begin_0 else '','' @ int_text begin_0)
      else
        (if range_string = [] then int_text begin_0 @ ''-'' @ int_text end_0
         else '','' @ int_text begin_0 @ ''-'' @ int_text end_0))"

fun vector_to_range_loop :: "char list \<Rightarrow> int \<Rightarrow> int \<Rightarrow> int list \<Rightarrow> char list" where
  "vector_to_range_loop range_string first prev [] = add_range_to_string range_string first prev"
| "vector_to_range_loop range_string first prev (i # is) =
     (if i = prev + 1 then vector_to_range_loop range_string first i is
      else vector_to_range_loop (add_range_to_string range_string first prev) i i is)"

definition translate_vector_to_range_string :: "int list \<Rightarrow> char list" where
  "translate_vector_to_range_string indices =
     (case indices of [] \<Rightarrow> [] | i # is \<Rightarrow> vector_to_range_loop [] i i is)"

definition push_range :: "int \<Rightarrow> int \<Rightarrow> int list \<Rightarrow> int list option" where
  "push_range prev cur indices =
     (if prev \<le> cur \<and> cur = INT_MAX then None else Some (indices @ [prev..cur]))"

definition skip_sep :: "char list \<Rightarrow> char list" where
  "skip_sep ptr = dropWhile (\<lambda>c. c = CHR '','' \<or> is_whitespace c) ptr"

function range_to_vector_loop :: "char list \<Rightarrow> int list \<Rightarrow> (int \<times> int list) option" where
  "range_to_vector_loop ptr indices =
     (if ptr = [] then Some (0, indices)
      else
        (case strtol_int ptr of
           (prev, ptr1) \<Rightarrow>
             if ptr1 = ptr then Some (- 1, indices)
             else if ptr1 \<noteq> [] \<and> hd ptr1 = CHR ''-'' then
               (let ptr2 = tl ptr1 in
                if \<not> (ptr2 \<noteq> [] \<and> is_digit (hd ptr2)) then Some (- 1, indices)
                else
                  (case strtol_int ptr2 of
                     (cur, ptr3) \<Rightarrow>
                       (case push_range prev cur indices of
                          None \<Rightarrow> None
                        | Some indices' \<Rightarrow> range_to_vector_loop (skip_sep ptr3) indices')))
             else range_to_vector_loop (skip_sep ptr1) (indices @ [prev])))"
  by pat_completeness auto

lemma length_skip_sep: "length (skip_sep s) \<le> length s"
  by (simp add: skip_sep_def length_dropWhile_le)

lemma strtol_int_shorter: "strtol_int s = (v, t) \<Longrightarrow> length t \<le> length s" "strtol_int s = (v, t) \<Longrightarrow> t \<noteq> s \<Longrightarrow> length t < length s"
  using strtol_int_rest [of s] by auto

lemma range_step_shorter:
  assumes "(v, t) = strtol_int s" and "t \<noteq> s"
  shows "length (skip_sep t) < length s"
    and "(w, r) = strtol_int (tl t) \<Longrightarrow> length (skip_sep r) < length s"
proof -
  have t: "length t < length s" by (rule strtol_int_shorter(2) [OF assms(1) [symmetric] assms(2)])
  then show "length (skip_sep t) < length s" using length_skip_sep [of t] by linarith
  assume "(w, r) = strtol_int (tl t)"
  then have "length r \<le> length (tl t)" by (intro strtol_int_shorter(1)) (rule sym)
  then show "length (skip_sep r) < length s" using t length_skip_sep [of r] by simp
qed

termination range_to_vector_loop
  by (relation "measure (\<lambda>(ptr, indices). length ptr)") (auto intro: range_step_shorter)

declare range_to_vector_loop.simps [simp del]

definition translate_range_string_to_vector :: "char list \<Rightarrow> int list \<Rightarrow> (int \<times> int list) option" where
  "translate_range_string_to_vector range_string indices =
     range_to_vector_loop (dropWhile is_whitespace range_string) indices"

section \<open>The text of a list of indices\<close>

definition range_piece :: "int \<Rightarrow> int \<Rightarrow> char list" where
  "range_piece b e = (if b = e then int_text b else int_text b @ ''-'' @ int_text e)"

text \<open>What the printer still has to write when the current run is \<open>first..prev\<close>.\<close>

fun range_tail :: "int \<Rightarrow> int \<Rightarrow> int list \<Rightarrow> char list" where
  "range_tail first prev [] = range_piece first prev"
| "range_tail first prev (i # is) =
     (if i = prev + 1 then range_tail first i is
      else range_piece first prev @ '','' @ range_tail i i is)"

lemma range_piece_nonempty [simp]: "range_piece b e \<noteq> []"
  by (simp add: range_piece_def int_text_def)

lemma add_range_piece:
  "add_range_to_string s b e = s @ (if s = [] then [] else '','') @ range_piece b e"
  by (simp add: add_range_to_string_def range_piece_def)

lemma vector_to_range_tail:
  "vector_to_range_loop s f p is = s @ (if s = [] then [] else '','') @ range_tail f p is"
  by (induction "is" arbitrary: s f p) (auto simp: add_range_piece)

lemma hd_range_tail: "0 \<le> f \<Longrightarrow> f \<le> p \<Longrightarrow> range_tail f p is \<noteq> [] \<and> hd (range_tail f p is) = hd (dec (nat f))"
  by (induction "is" arbitrary: p) (auto simp: range_piece_def)

definition index_ok :: "int \<Rightarrow> bool" where
  "index_ok i \<longleftrightarrow> 0 \<le> i \<and> i < INT_MAX"

lemma digit_not_sep [simp]: "is_digit c \<Longrightarrow> c \<noteq> CHR '',''" "is_digit c \<Longrightarrow> \<not> is_whitespace c"
  by (auto simp: is_whitespace_def is_digit_def)

lemma skip_sep_num: "s \<noteq> [] \<Longrightarrow> is_digit (hd s) \<Longrightarrow> skip_sep s = s" "s \<noteq> [] \<Longrightarrow> is_digit (hd s) \<Longrightarrow> skip_sep ('','' @ s) = s"
  by (cases s; simp add: skip_sep_def)+

lemma strtol_int_index:
  assumes "index_ok b" and "num_end r"
  shows "strtol_int (dec (nat b) @ r) = (b, r)"
proof -
  have "nat b < 2 ^ 31" using assms(1) by (simp add: index_ok_def INT_MAX_def nat_less_iff)
  then show ?thesis using assms by (simp add: index_ok_def)
qed

lemma range_piece_parse:
  assumes b: "index_ok b" and e: "index_ok e" and le: "b \<le> e" and r: "r = [] \<or> hd r = CHR '',''"
  shows "range_to_vector_loop (range_piece b e @ r) acc = range_to_vector_loop (skip_sep r) (acc @ [b..e])"
proof -
  have nr: "num_end r" using r by (auto simp: num_end_def)
  have nd: "\<not> (r \<noteq> [] \<and> hd r = CHR ''-'')" using r by auto
  have pos: "0 \<le> b" "0 \<le> e" using b e by (auto simp: index_ok_def)
  show ?thesis
  proof (cases "b = e")
    case True
    have ne: "dec (nat e) @ r \<noteq> r" by simp
    show ?thesis using True pos nd strtol_int_index [OF e nr] ne
      by (subst range_to_vector_loop.simps) (auto simp: range_piece_def)
  next
    case False
    let ?t = "''-'' @ dec (nat e) @ r"
    have t: "num_end ?t" by simp
    have n: "dec (nat b) @ ?t \<noteq> ?t" by simp
    have d: "dec (nat e) @ r \<noteq> []" "is_digit (hd (dec (nat e) @ r))" by (simp_all add: hd_append)
    have m: "e \<noteq> INT_MAX" using e by (simp add: index_ok_def)
    show ?thesis
      using False pos strtol_int_index [OF b t] strtol_int_index [OF e nr] n d m
      by (subst range_to_vector_loop.simps) (simp add: range_piece_def push_range_def)
  qed
qed

lemma range_tail_parse:
  assumes "index_ok f" "f \<le> p" "index_ok p" "\<forall>i\<in>set is. index_ok i"
  shows "range_to_vector_loop (range_tail f p is) acc = Some (0, acc @ [f..p] @ is)"
  using assms
proof (induction "is" arbitrary: f p acc)
  case Nil
  have "range_to_vector_loop (range_piece f p @ []) acc = range_to_vector_loop (skip_sep []) (acc @ [f..p])"
    by (rule range_piece_parse) (use Nil.prems in auto)
  then show ?case by (simp add: skip_sep_def range_to_vector_loop.simps)
next
  case (Cons i "is")
  then have i: "index_ok i" by simp
  show ?case
  proof (cases "i = p + 1")
    case True
    then have u: "[f..i] = [f..p] @ [i]" using Cons.prems(2) upto_split2 [of f p i] upto_rec1 [of i i] by simp
    have "range_to_vector_loop (range_tail f i is) acc = Some (0, acc @ [f..i] @ is)"
      by (rule Cons.IH) (use Cons.prems i True in auto)
    then show ?thesis using True u by simp
  next
    case False
    have h: "range_tail i i is \<noteq> []" "is_digit (hd (range_tail i i is))"
      using hd_range_tail [of i i "is"] i by (auto simp: index_ok_def)
    have "range_to_vector_loop (range_tail f p (i # is)) acc =
        range_to_vector_loop (range_piece f p @ '','' @ range_tail i i is) acc" using False by simp
    also have "\<dots> = range_to_vector_loop (skip_sep ('','' @ range_tail i i is)) (acc @ [f..p])"
      by (rule range_piece_parse) (use Cons.prems in auto)
    also have "\<dots> = range_to_vector_loop (range_tail i i is) (acc @ [f..p])"
      using skip_sep_num(2) [OF h] by simp
    also have "\<dots> = Some (0, (acc @ [f..p]) @ [i..i] @ is)"
      by (rule Cons.IH) (use Cons.prems i in auto)
    finally show ?thesis by simp
  qed
qed

lemma range_string_back:
  assumes "\<forall>i\<in>set is. index_ok i"
  shows "translate_range_string_to_vector (translate_vector_to_range_string is) acc = Some (0, acc @ is)"
proof (cases "is")
  case Nil
  then show ?thesis
    by (simp add: translate_range_string_to_vector_def translate_vector_to_range_string_def range_to_vector_loop.simps)
next
  case (Cons i js)
  have t: "translate_vector_to_range_string is = range_tail i i js"
    using Cons by (simp add: translate_vector_to_range_string_def vector_to_range_tail)
  have ok: "index_ok i" "\<forall>j\<in>set js. index_ok j" using assms Cons by auto
  have h: "range_tail i i js \<noteq> []" "is_digit (hd (range_tail i i js))"
    using hd_range_tail [of i i js] ok by (auto simp: index_ok_def)
  then have "dropWhile is_whitespace (range_tail i i js) = range_tail i i js" by (cases "range_tail i i js") auto
  then show ?thesis unfolding translate_range_string_to_vector_def t
    using range_tail_parse [of i i js acc] ok Cons by simp
qed

text \<open>
  C27: reading back the range string of a list of indices gives the list, in its order and with its
  repetitions, behind what the vector already held.
\<close>

theorem range_string_roundtrip:
  assumes "\<forall>i\<in>set is. 0 \<le> i \<and> i < INT_MAX"
  shows "translate_range_string_to_vector (translate_vector_to_range_string is) acc = Some (0, acc @ is)"
  using range_string_back [of "is" acc] assms by (simp add: index_ok_def)

theorem range_string_roundtrip_witness:
  "translate_vector_to_range_string [0, 2, 3, 4, 9] = ''0,2-4,9'' \<and>
   translate_range_string_to_vector (translate_vector_to_range_string [0, 2, 3, 4, 9]) [7] = Some (0, [7, 0, 2, 3, 4, 9])"
proof -
  have "translate_vector_to_range_string [0, 2, 3, 4, 9] = ''0,2-4,9''"
    by (simp add: translate_vector_to_range_string_def add_range_to_string_def int_text_def dec.simps dec_simps)
  then show ?thesis using range_string_roundtrip [of "[0, 2, 3, 4, 9]" "[7]"] by (simp add: INT_MAX_def)
qed

end
