(* ===== verification/Slot_Tracker.thy ===== *)
theory Slot_Tracker
  imports Torque_Base
begin

text \<open>
  The execution slot tracker of \<^verbatim>\<open>server/execution_slot_tracker.cpp\<close>: a vector of booleans (occupied or
  free) and the number of free slots.  Every member function is a function from the tracker (and, for the
  reservations, the tracker of the subset, a different object) to its return code and the new tracker.
  Counters are integers: the number of slots of a node is below \<open>2 ^ 31\<close>, and all counts stay between
  zero and it.  Reading the last element of an empty vector is undefined in C++; that call is \<open>None\<close>.

  The interface \<open>slot_pool\<close> says what a client may rely on, in terms of the set of occupied slots; the
  tracker is an instance.
\<close>

section \<open>Data and operations\<close>

definition OUT_OF_RANGE :: pbse where "OUT_OF_RANGE = PBSE_OTHER (- 1)"
definition INSUFFICIENT_FREE_EXECUTION_SLOTS :: pbse where "INSUFFICIENT_FREE_EXECUTION_SLOTS = PBSE_OTHER (- 2)"
definition SUBSET_TOO_LARGE :: pbse where "SUBSET_TOO_LARGE = PBSE_OTHER (- 3)"

abbreviation (input) OCCUPIED :: bool where "OCCUPIED \<equiv> True"
abbreviation (input) FREE :: bool where "FREE \<equiv> False"

record execution_slot_tracker =
  slots :: "bool list"
  open_count :: int

definition est_empty :: execution_slot_tracker where
  "est_empty = \<lparr>slots = [], open_count = 0\<rparr>"

definition get_number_free :: "execution_slot_tracker \<Rightarrow> int" where
  "get_number_free this = open_count this"

definition get_total_execution_slots :: "execution_slot_tracker \<Rightarrow> int" where
  "get_total_execution_slots this = int (length (slots this))"

definition add_execution_slot :: "execution_slot_tracker \<Rightarrow> execution_slot_tracker" where
  "add_execution_slot this = this\<lparr>slots := slots this @ [FREE], open_count := open_count this + 1\<rparr>"

fun est_add_slots :: "nat \<Rightarrow> execution_slot_tracker \<Rightarrow> execution_slot_tracker" where
  "est_add_slots 0 this = this"
| "est_add_slots (Suc n) this = est_add_slots n (add_execution_slot this)"

definition est_of_size :: "int \<Rightarrow> execution_slot_tracker" where
  "est_of_size sz = est_add_slots (nat sz) est_empty"

definition remove_execution_slot :: "execution_slot_tracker \<Rightarrow> (pbse \<times> execution_slot_tracker) option" where
  "remove_execution_slot this =
     (if slots this = [] then None
      else
        (let this1 = (if last (slots this) = FREE then this\<lparr>open_count := open_count this - 1\<rparr> else this)
         in Some (PBSE_NONE, this1\<lparr>slots := butlast (slots this1)\<rparr>)))"

definition mark_as_used :: "int \<Rightarrow> execution_slot_tracker \<Rightarrow> pbse \<times> execution_slot_tracker" where
  "mark_as_used index this =
     (if index < 0 \<or> index \<ge> int (length (slots this)) then (OUT_OF_RANGE, this)
      else if slots this ! nat index = FREE
        then (PBSE_NONE, this\<lparr>slots := (slots this)[nat index := OCCUPIED], open_count := open_count this - 1\<rparr>)
      else (PBSE_NONE, this))"

definition mark_as_free :: "int \<Rightarrow> execution_slot_tracker \<Rightarrow> pbse \<times> execution_slot_tracker" where
  "mark_as_free index this =
     (if index < 0 \<or> index \<ge> int (length (slots this)) then (OUT_OF_RANGE, this)
      else if slots this ! nat index = OCCUPIED
        then (PBSE_NONE, this\<lparr>slots := (slots this)[nat index := FREE], open_count := open_count this + 1\<rparr>)
      else (PBSE_NONE, this))"

definition is_occupied :: "int \<Rightarrow> execution_slot_tracker \<Rightarrow> bool" where
  "is_occupied index this =
     (if index < 0 \<or> index \<ge> int (length (slots this)) then False else slots this ! nat index = OCCUPIED)"

text \<open>The loop that frees in \<open>this\<close> what is occupied in the rest of the subset, from index \<open>i\<close> on.\<close>

fun unset_loop :: "nat \<Rightarrow> bool list \<Rightarrow> execution_slot_tracker \<Rightarrow> execution_slot_tracker" where
  "unset_loop i [] this = this"
| "unset_loop i (b # bs) this =
     unset_loop (Suc i) bs (if b = OCCUPIED then snd (mark_as_free (int i) this) else this)"

definition unset_subset :: "execution_slot_tracker \<Rightarrow> execution_slot_tracker \<Rightarrow> pbse \<times> execution_slot_tracker" where
  "unset_subset subs this =
     (if get_total_execution_slots subs > get_total_execution_slots this then (SUBSET_TOO_LARGE, this)
      else (PBSE_NONE, unset_loop 0 (slots subs) this))"

definition unreserve_execution_slots :: "execution_slot_tracker \<Rightarrow> execution_slot_tracker \<Rightarrow> pbse \<times> execution_slot_tracker" where
  "unreserve_execution_slots subs this =
     (if length (slots this) < length (slots subs) then (SUBSET_TOO_LARGE, this)
      else (PBSE_NONE, unset_loop 0 (slots subs) this))"

text \<open>The loop that adds free slots to the subset until it is as large as \<open>this\<close>.\<close>

function grow_to :: "int \<Rightarrow> execution_slot_tracker \<Rightarrow> execution_slot_tracker" where
  "grow_to n est = (if get_total_execution_slots est < n then grow_to n (add_execution_slot est) else est)"
  by pat_completeness auto
termination grow_to
  by (relation "measure (\<lambda>(n, est). nat (n - get_total_execution_slots est))")
     (auto simp: get_total_execution_slots_def add_execution_slot_def)

declare grow_to.simps [simp del]

definition reserve_execution_slot ::
  "int \<Rightarrow> execution_slot_tracker \<Rightarrow> execution_slot_tracker \<Rightarrow> pbse \<times> execution_slot_tracker \<times> execution_slot_tracker" where
  "reserve_execution_slot index this subs =
     (let subs1 = grow_to (get_total_execution_slots this) subs in
      case mark_as_used index this of
        (rc, this1) \<Rightarrow>
          if rc = PBSE_NONE then
            (case mark_as_used index subs1 of
               (rc', subs2) \<Rightarrow>
                 if rc' \<noteq> PBSE_NONE then (rc', snd (mark_as_free index this1), subs2)
                 else (rc', this1, subs2))
          else (rc, this1, subs1))"

function reserve_loop ::
  "nat \<Rightarrow> int \<Rightarrow> int \<Rightarrow> execution_slot_tracker \<Rightarrow> execution_slot_tracker \<Rightarrow> execution_slot_tracker \<times> execution_slot_tracker" where
  "reserve_loop i reserved_so_far num_slots_to_reserve this est =
     (if i < length (slots this) \<and> reserved_so_far < num_slots_to_reserve then
        (if slots this ! i = FREE
         then reserve_loop (Suc i) (reserved_so_far + 1) num_slots_to_reserve
                (snd (mark_as_used (int i) this)) (snd (mark_as_used (int i) est))
         else reserve_loop (Suc i) reserved_so_far num_slots_to_reserve this est)
      else (this, est))"
  by pat_completeness auto
termination reserve_loop
  by (relation "measure (\<lambda>(i, r, n, this, est). length (slots this) - i)") (auto simp: mark_as_used_def)

declare reserve_loop.simps [simp del]

definition reserve_execution_slots ::
  "int \<Rightarrow> execution_slot_tracker \<Rightarrow> execution_slot_tracker \<Rightarrow> pbse \<times> execution_slot_tracker \<times> execution_slot_tracker" where
  "reserve_execution_slots num_slots_to_reserve this est =
     (if open_count this < num_slots_to_reserve then (INSUFFICIENT_FREE_EXECUTION_SLOTS, this, est)
      else
        (let est1 = grow_to (get_total_execution_slots this) est;
             (this', est') = reserve_loop 0 0 num_slots_to_reserve this est1
         in (PBSE_NONE, this', est')))"

text \<open>The iteration over the occupied slots: the index found (or -1) and the new iterator.\<close>

function next_occupied_loop :: "int \<Rightarrow> execution_slot_tracker \<Rightarrow> int \<times> int" where
  "next_occupied_loop iterator this =
     (if 0 \<le> iterator \<and> iterator < int (length (slots this)) then
        (if slots this ! nat iterator = OCCUPIED then (iterator, iterator + 1)
         else next_occupied_loop (iterator + 1) this)
      else (- 1, iterator))"
  by pat_completeness auto
termination next_occupied_loop
  by (relation "measure (\<lambda>(it, this). nat (int (length (slots this)) - it))") auto

declare next_occupied_loop.simps [simp del]

definition get_next_occupied_index :: "int \<Rightarrow> execution_slot_tracker \<Rightarrow> int \<times> int" where
  "get_next_occupied_index iterator this = next_occupied_loop (if iterator = - 1 then 0 else iterator) this"

section \<open>The set of occupied slots and the invariant\<close>

definition nslots :: "execution_slot_tracker \<Rightarrow> nat" where
  "nslots this = length (slots this)"

definition occ :: "execution_slot_tracker \<Rightarrow> nat set" where
  "occ this = {i. i < length (slots this) \<and> slots this ! i = OCCUPIED}"

definition est_ok :: "execution_slot_tracker \<Rightarrow> bool" where
  "est_ok this \<longleftrightarrow> open_count this = int (length (slots this)) - int (card (occ this))"

lemma occ_open_count [simp]: "occ (t\<lparr>open_count := n\<rparr>) = occ t" "nslots (t\<lparr>open_count := n\<rparr>) = nslots t"
  by (simp_all add: occ_def nslots_def)

lemma occ_less: "i \<in> occ t \<Longrightarrow> i < nslots t"
  by (simp add: occ_def nslots_def)

lemma finite_occ [simp]: "finite (occ t)"
  by (simp add: occ_def)

lemma card_occ_le: "card (occ t) \<le> nslots t"
  using card_mono [of "{..<nslots t}" "occ t"] by (simp add: subset_iff occ_less)

lemma est_ok_free: "est_ok t \<longleftrightarrow> open_count t = int (nslots t - card (occ t))"
  using card_occ_le [of t] by (auto simp: est_ok_def nslots_def)

lemma open_count_nonneg: "est_ok t \<Longrightarrow> 0 \<le> open_count t"
  by (simp add: est_ok_free)

lemma total_simps [slot_simps]:
  "get_total_execution_slots t = int (nslots t)"
  "nslots est_empty = 0" "occ est_empty = {}"
  "nslots (add_execution_slot t) = Suc (nslots t)"
  "occ (add_execution_slot t) = occ t"
  "est_ok est_empty" "est_ok (add_execution_slot t) = est_ok t"
proof -
  show 1: "get_total_execution_slots t = int (nslots t)" "nslots est_empty = 0" "occ est_empty = {}"
    "nslots (add_execution_slot t) = Suc (nslots t)" "est_ok est_empty"
    by (simp_all add: get_total_execution_slots_def nslots_def est_empty_def occ_def add_execution_slot_def est_ok_def)
  show 2: "occ (add_execution_slot t) = occ t" by (auto simp: occ_def add_execution_slot_def nth_append less_Suc_eq)
  show "est_ok (add_execution_slot t) = est_ok t"
    by (auto simp: est_ok_def 2) (auto simp: add_execution_slot_def)
qed

lemma mark_used_total [slot_simps]: "nslots (snd (mark_as_used i t)) = nslots t"
  by (simp add: mark_as_used_def nslots_def)

lemma mark_free_total [slot_simps]: "nslots (snd (mark_as_free i t)) = nslots t"
  by (simp add: mark_as_free_def nslots_def)

lemma mark_used_occ [slot_simps]:
  "occ (snd (mark_as_used (int i) t)) = (if i < nslots t then insert i (occ t) else occ t)"
  by (auto simp: mark_as_used_def occ_def nslots_def nth_list_update)

lemma mark_free_occ [slot_simps]: "occ (snd (mark_as_free (int i) t)) = occ t - {i}"
  by (auto simp: mark_as_free_def occ_def nth_list_update)

lemma mark_used_ok [slot_simps]: "est_ok t \<Longrightarrow> est_ok (snd (mark_as_used i t))"
proof (cases "0 \<le> i \<and> i < int (nslots t) \<and> \<not> slots t ! nat i")
  case True
  assume ok: "est_ok t"
  have n: "nat i \<notin> occ t" using True by (simp add: occ_def)
  have "occ (snd (mark_as_used (int (nat i)) t)) = insert (nat i) (occ t)" using True mark_used_occ [of "nat i" t] by (simp add: nat_less_iff)
  then have "card (occ (snd (mark_as_used i t))) = Suc (card (occ t))" using True n by simp
  then show ?thesis using ok True by (simp add: est_ok_def mark_as_used_def nslots_def)
qed (auto simp: mark_as_used_def nslots_def)

lemma mark_free_ok [slot_simps]: "est_ok t \<Longrightarrow> est_ok (snd (mark_as_free i t))"
proof (cases "0 \<le> i \<and> i < int (nslots t) \<and> slots t ! nat i")
  case True
  assume ok: "est_ok t"
  have n: "nat i \<in> occ t" using True by (simp add: occ_def nslots_def nat_less_iff)
  have "occ (snd (mark_as_free (int (nat i)) t)) = occ t - {nat i}" by (rule mark_free_occ)
  then have "card (occ (snd (mark_as_free i t))) = card (occ t) - 1" "card (occ t) > 0"
    using True n by (auto simp: card_gt_0_iff)
  then show ?thesis using ok True by (simp add: est_ok_def mark_as_free_def nslots_def)
qed (auto simp: mark_as_free_def nslots_def)

lemma mark_used_rc: "fst (mark_as_used (int i) t) = (if i < nslots t then PBSE_NONE else OUT_OF_RANGE)"
  by (simp add: mark_as_used_def nslots_def)

lemma remove_slot:
  assumes "0 < nslots t"
  obtains t' where "remove_execution_slot t = Some (PBSE_NONE, t')"
    and "nslots t' = nslots t - 1" and "occ t' = occ t - {nslots t - 1}" and "est_ok t \<Longrightarrow> est_ok t'"
proof -
  obtain bs b where bs: "slots t = bs @ [b]" using assms by (metis length_greater_0_conv rev_exhaust nslots_def)
  let ?t = "t\<lparr>slots := bs, open_count := open_count t - (if b then 0 else 1)\<rparr>"
  have 1: "remove_execution_slot t = Some (PBSE_NONE, ?t)" using bs by (cases t) (auto simp: remove_execution_slot_def)
  have 2: "occ ?t = occ t - {nslots t - 1}" by (auto simp: occ_def nslots_def bs nth_append)
  have "est_ok ?t" if ok: "est_ok t"
  proof (cases b)
    case True
    then have m: "nslots t - 1 \<in> occ t" by (simp add: occ_def nslots_def bs nth_append)
    then have "card (occ ?t) = card (occ t) - 1" "0 < card (occ t)" unfolding 2 by (auto simp: card_gt_0_iff)
    then show ?thesis using ok True by (simp add: est_ok_def bs)
  next
    case False
    then have "nslots t - 1 \<notin> occ t" by (simp add: occ_def nslots_def bs nth_append)
    then have "occ ?t = occ t" unfolding 2 by simp
    then show ?thesis using ok False by (simp add: est_ok_def bs)
  qed
  with 1 2 show thesis by (intro that [of ?t]) (auto simp: nslots_def bs)
qed

section \<open>Reservations\<close>

text \<open>The free slots in ascending order; a reservation takes the first of them.\<close>

definition free_list :: "execution_slot_tracker \<Rightarrow> nat list" where
  "free_list this = filter (\<lambda>i. i \<notin> occ this) [0..<nslots this]"

definition first_free :: "nat \<Rightarrow> execution_slot_tracker \<Rightarrow> nat set" where
  "first_free n this = set (take n (free_list this))"

lemma distinct_free_list: "distinct (free_list t)"
  by (simp add: free_list_def)

lemma length_free_list: "length (free_list t) = nslots t - card (occ t)"
proof -
  have "set (free_list t) = {..<nslots t} - occ t" by (auto simp: free_list_def)
  moreover have "card ({..<nslots t} - occ t) = nslots t - card (occ t)"
    by (subst card_Diff_subset) (auto simp: occ_less)
  ultimately show ?thesis using distinct_card [OF distinct_free_list, of t] by simp
qed

lemma first_free_subset: "first_free n t \<subseteq> {..<nslots t} - occ t"
  using set_take_subset [of n "free_list t"] by (auto simp: first_free_def free_list_def)

lemma card_first_free: "n \<le> nslots t - card (occ t) \<Longrightarrow> card (first_free n t) = n"
  by (simp add: first_free_def distinct_card distinct_free_list length_free_list min_def)

lemma free_list_cong: "occ t = occ u \<Longrightarrow> nslots t = nslots u \<Longrightarrow> free_list t = free_list u"
  by (simp add: free_list_def)

lemma grow_to_simps [slot_simps]:
  "nslots (grow_to n t) = max (nat n) (nslots t)"
  "occ (grow_to n t) = occ t"
  "est_ok (grow_to n t) = est_ok t"
proof (induction n t rule: grow_to.induct)
  case (1 n t)
  { case 1 show ?case using "1.IH"(1) by (subst grow_to.simps) (auto simp: slot_simps) }
  { case 2 show ?case using "1.IH"(2) by (subst grow_to.simps) (auto simp: slot_simps) }
  { case 3 show ?case using "1.IH"(3) by (subst grow_to.simps) (auto simp: slot_simps) }
qed

lemma est_add_slots_simps [slot_simps]:
  "nslots (est_add_slots n t) = nslots t + n" "occ (est_add_slots n t) = occ t" "est_ok (est_add_slots n t) = est_ok t"
  by (induction n arbitrary: t) (auto simp: slot_simps)

lemma reserve_loop_spec:
  assumes "nslots this \<le> nslots est" and "reserve_loop i r n this est = (this', est')"
  shows "occ this' = occ this \<union> set (take (nat (n - r)) (filter (\<lambda>j. j \<notin> occ this) [i..<nslots this])) \<and>
    occ est' = occ est \<union> set (take (nat (n - r)) (filter (\<lambda>j. j \<notin> occ this) [i..<nslots this])) \<and>
    nslots this' = nslots this \<and> nslots est' = nslots est \<and>
    (est_ok this \<longrightarrow> est_ok this') \<and> (est_ok est \<longrightarrow> est_ok est')"
  using assms
proof (induction i r n this est arbitrary: this' est' rule: reserve_loop.induct)
  case (1 i r n this est)
  let ?F = "\<lambda>i t. filter (\<lambda>j. j \<notin> occ t) [i..<nslots t]"
  consider (stop) "\<not> (i < nslots this \<and> r < n)" | (free) "i < nslots this" "r < n" "i \<notin> occ this"
    | (used) "i < nslots this" "r < n" "i \<in> occ this" by blast
  then show ?case
  proof cases
    case stop
    then have "this' = this" "est' = est" using "1.prems"(2) by (simp_all add: reserve_loop.simps nslots_def split: if_splits)
    then show ?thesis using stop by auto
  next
    case free
    let ?t = "snd (mark_as_used (int i) this)" and ?e = "snd (mark_as_used (int i) est)"
    have f: "slots this ! i = FREE" using free by (simp add: occ_def nslots_def)
    have t: "occ ?t = insert i (occ this)" "occ ?e = insert i (occ est)" "nslots ?t = nslots this" "nslots ?e = nslots est"
      using free "1.prems"(1) by (simp_all add: slot_simps)
    have F: "?F i this = i # ?F (Suc i) ?t" unfolding t upt_rec [of i] using free by (auto intro: filter_cong)
    have "reserve_loop (Suc i) (r + 1) n ?t ?e = (this', est')"
      using "1.prems"(2) free f by (subst (asm) reserve_loop.simps) (simp add: nslots_def)
    from "1.IH"(1) [OF _ f _ this] free "1.prems"(1) t
    have IH: "occ this' = occ ?t \<union> set (take (nat (n - (r + 1))) (?F (Suc i) ?t)) \<and>
      occ est' = occ ?e \<union> set (take (nat (n - (r + 1))) (?F (Suc i) ?t)) \<and>
      nslots this' = nslots ?t \<and> nslots est' = nslots ?e \<and>
      (est_ok ?t \<longrightarrow> est_ok this') \<and> (est_ok ?e \<longrightarrow> est_ok est')" by (simp add: nslots_def)
    have k: "nat (n - r) = Suc (nat (n - (r + 1)))" using free by simp
    show ?thesis unfolding F k using IH t mark_used_ok by auto
  next
    case used
    have f: "slots this ! i \<noteq> FREE" using used by (simp add: occ_def nslots_def)
    have F: "?F i this = ?F (Suc i) this" unfolding upt_rec [of i] using used by auto
    have "reserve_loop (Suc i) r n this est = (this', est')"
      using "1.prems"(2) used f by (subst (asm) reserve_loop.simps) (simp add: nslots_def)
    from "1.IH"(2) [OF _ f _ this] used "1.prems"(1) show ?thesis unfolding F by (simp add: nslots_def)
  qed
qed

lemma reserve_short:
  "open_count this < n \<Longrightarrow> reserve_execution_slots n this est = (INSUFFICIENT_FREE_EXECUTION_SLOTS, this, est)"
  by (simp add: reserve_execution_slots_def)

lemma reserve_enough:
  assumes "n \<le> open_count this"
  obtains this' est' where "reserve_execution_slots n this est = (PBSE_NONE, this', est')"
    and "occ this' = occ this \<union> first_free (nat n) this" and "occ est' = occ est \<union> first_free (nat n) this"
    and "nslots this' = nslots this" and "nslots est' = max (nslots this) (nslots est)"
    and "est_ok this \<longrightarrow> est_ok this'" and "est_ok est \<longrightarrow> est_ok est'"
proof -
  let ?e = "grow_to (get_total_execution_slots this) est"
  obtain this' est' where r: "reserve_loop 0 0 n this ?e = (this', est')" by (metis prod.exhaust)
  have "nslots this \<le> nslots ?e" by (simp add: slot_simps)
  from reserve_loop_spec [OF this r] show thesis
    by (intro that [of this' est']) (use assms r in \<open>auto simp: reserve_execution_slots_def slot_simps first_free_def free_list_def\<close>)
qed

lemma unset_loop_mem:
  "k \<in> occ (unset_loop i bs t) \<longleftrightarrow> k \<in> occ t \<and> \<not> (i \<le> k \<and> k - i < length bs \<and> bs ! (k - i))"
proof (induction bs arbitrary: i t)
  case (Cons b bs)
  let ?t = "if b then snd (mark_as_free (int i) t) else t"
  have t: "k \<in> occ ?t \<longleftrightarrow> k \<in> occ t \<and> \<not> (b \<and> k = i)" by (simp add: mark_free_occ)
  have u: "unset_loop i (b # bs) t = unset_loop (Suc i) bs ?t" by simp
  show ?case unfolding u Cons.IH t
  proof (cases "k = i")
    case False
    then have "i \<le> k \<longleftrightarrow> Suc i \<le> k" "i \<le> k \<Longrightarrow> k - i = Suc (k - Suc i)" by auto
    then show "(k \<in> occ t \<and> \<not> (b \<and> k = i)) \<and> \<not> (Suc i \<le> k \<and> k - Suc i < length bs \<and> bs ! (k - Suc i)) \<longleftrightarrow>
      k \<in> occ t \<and> \<not> (i \<le> k \<and> k - i < length (b # bs) \<and> (b # bs) ! (k - i))" using False by auto
  qed simp
qed simp

lemma unset_loop_simps [slot_simps]:
  "nslots (unset_loop i bs t) = nslots t" "est_ok t \<Longrightarrow> est_ok (unset_loop i bs t)"
  by (induction bs arbitrary: i t) (simp_all add: mark_free_total mark_free_ok)

lemma unset_loop_occ [slot_simps]: "occ (unset_loop 0 (slots s) t) = occ t - occ s"
  by (rule set_eqI) (simp add: unset_loop_mem, simp add: occ_def)

lemma unreserve_simps [slot_simps]:
  "nslots s \<le> nslots t \<Longrightarrow> unreserve_execution_slots s t = (PBSE_NONE, unset_loop 0 (slots s) t)"
  "nslots t < nslots s \<Longrightarrow> unreserve_execution_slots s t = (SUBSET_TOO_LARGE, t)"
  by (simp_all add: unreserve_execution_slots_def nslots_def)

lemma unset_subset_eq: "unset_subset s t = unreserve_execution_slots s t"
  by (simp add: unset_subset_def unreserve_execution_slots_def get_total_execution_slots_def not_less)

section \<open>The interface of a pool of slots\<close>

text \<open>Every number in \<open>S\<close> is in exactly one of the sets, and no other number is in any.\<close>

definition covers :: "nat set list \<Rightarrow> nat set \<Rightarrow> bool" where
  "covers As S \<longleftrightarrow> (\<forall>i. length (filter (\<lambda>A. i \<in> A) As) = (if i \<in> S then 1 else 0))"

lemma covers_empty [simp]: "covers [] {}" "covers [] S \<longleftrightarrow> S = {}"
  by (auto simp: covers_def)

lemma covers_add: "covers As S \<Longrightarrow> A \<inter> S = {} \<Longrightarrow> covers (As @ [A]) (S \<union> A)"
  by (auto simp: covers_def)

lemma covers_remove: "covers (As @ A # Bs) S \<Longrightarrow> covers (As @ Bs) (S - A) \<and> A \<subseteq> S"
proof
  assume c: "covers (As @ A # Bs) S"
  have i: "length (filter (\<lambda>A. i \<in> A) As) + (if i \<in> A then 1 else 0) + length (filter (\<lambda>A. i \<in> A) Bs) =
      (if i \<in> S then 1 else 0)" for i
    using c [unfolded covers_def, rule_format, of i] by (cases "i \<in> A") simp_all
  show "A \<subseteq> S"
  proof
    fix x assume "x \<in> A"
    then show "x \<in> S" using i [of x] by (cases "x \<in> S") simp_all
  qed
  show "covers (As @ Bs) (S - A)" unfolding covers_def
  proof
    fix x show "length (filter (\<lambda>A. x \<in> A) (As @ Bs)) = (if x \<in> S - A then 1 else 0)"
      using i [of x] by (cases "x \<in> A"; cases "x \<in> S") simp_all
  qed
qed

lemma covers_member: "covers As S \<Longrightarrow> i \<in> S \<longleftrightarrow> (\<exists>A\<in>set As. i \<in> A)"
proof -
  assume "covers As S"
  then have "length (filter (\<lambda>A. i \<in> A) As) = (if i \<in> S then 1 else 0)" by (simp add: covers_def)
  then have "i \<in> S \<longleftrightarrow> filter (\<lambda>A. i \<in> A) As \<noteq> []" by (auto split: if_splits)
  then show ?thesis by (auto simp: filter_empty_conv)
qed

lemma covers_disjoint: "covers (As @ A # Bs) S \<Longrightarrow> B \<in> set (As @ Bs) \<Longrightarrow> A \<inter> B = {}"
  using covers_remove [of As A Bs S] covers_member [of "As @ Bs" "S - A"] by blast

locale slot_pool =
  fixes occ_of :: "'t \<Rightarrow> nat set" and size_of :: "'t \<Rightarrow> nat" and free_of :: "'t \<Rightarrow> int" and ok :: "'t \<Rightarrow> bool"
    and reserve :: "int \<Rightarrow> 't \<Rightarrow> 't \<Rightarrow> pbse \<times> 't \<times> 't" and unreserve :: "'t \<Rightarrow> 't \<Rightarrow> pbse \<times> 't"
  assumes occ_bound: "occ_of t \<subseteq> {..<size_of t}"
    and free_count: "ok t \<Longrightarrow> free_of t = int (size_of t) - int (card (occ_of t))"
    and reserve_refused: "free_of t < n \<Longrightarrow> fst (reserve n t s) \<noteq> PBSE_NONE \<and> snd (reserve n t s) = (t, s)"
    and reserve_done: "ok t \<Longrightarrow> ok s \<Longrightarrow> 0 \<le> n \<Longrightarrow> n \<le> free_of t \<Longrightarrow>
      \<exists>t' s' S. reserve n t s = (PBSE_NONE, t', s') \<and> S \<inter> occ_of t = {} \<and> card S = nat n \<and>
        occ_of t' = occ_of t \<union> S \<and> occ_of s' = occ_of s \<union> S \<and>
        size_of t' = size_of t \<and> size_of s' = max (size_of t) (size_of s) \<and> ok t' \<and> ok s'"
    and unreserve_refused: "size_of t < size_of s \<Longrightarrow> fst (unreserve s t) \<noteq> PBSE_NONE \<and> snd (unreserve s t) = t"
    and unreserve_done: "size_of s \<le> size_of t \<Longrightarrow>
      \<exists>t'. unreserve s t = (PBSE_NONE, t') \<and> occ_of t' = occ_of t - occ_of s \<and> size_of t' = size_of t \<and> (ok t \<longrightarrow> ok t')"
begin

lemma free_nonneg: "ok t \<Longrightarrow> 0 \<le> free_of t"
  using free_count [of t] card_mono [OF _ occ_bound [of t]] by simp

lemma reserve_decides: "ok t \<Longrightarrow> ok s \<Longrightarrow> 0 \<le> n \<Longrightarrow> fst (reserve n t s) = PBSE_NONE \<longleftrightarrow> n \<le> free_of t"
  using reserve_done [of t s n] reserve_refused [of t n s] by (metis fst_conv not_less)

lemma reserve_covers:
  assumes c: "covers (map occ_of us) (occ_of t)" "\<forall>u\<in>set us. ok u \<and> size_of u \<le> size_of t" and t: "ok t" and e: "ok e" "occ_of e = {}" "size_of e \<le> size_of t"
    and n: "0 \<le> n" and r: "reserve n t e = (PBSE_NONE, t', e')"
  shows "covers (map occ_of (us @ [e'])) (occ_of t')" "\<forall>u\<in>set (us @ [e']). ok u \<and> size_of u \<le> size_of t'"
    and "ok t'" and "size_of t' = size_of t" and "free_of t' = free_of t - n" and "card (occ_of e') = nat n"
proof -
  have "n \<le> free_of t" using reserve_decides [OF t e(1) n] r by simp
  then obtain S where S: "S \<inter> occ_of t = {}" "card S = nat n" "occ_of t' = occ_of t \<union> S" "occ_of e' = S"
    "size_of t' = size_of t" "size_of e' = size_of t" "ok t'" "ok e'"
    using reserve_done [OF t e(1) n] r e by (auto simp: max_def split: if_splits)
  show "covers (map occ_of (us @ [e'])) (occ_of t')" using covers_add [OF c(1), of S] S by simp
  show "\<forall>u\<in>set (us @ [e']). ok u \<and> size_of u \<le> size_of t'" using c(2) S by simp
  show "ok t'" "size_of t' = size_of t" "card (occ_of e') = nat n" using S by simp_all
  have "finite (occ_of x)" for x by (rule finite_subset [OF occ_bound]) simp
  then have f: "finite S" "finite (occ_of t)" using S(4) by metis+
  have "card (occ_of t') = card (occ_of t) + nat n" unfolding S(3) using S f by (subst card_Un_disjoint) auto
  then show "free_of t' = free_of t - n" using free_count [OF t] free_count [OF S(7)] S(5) n by simp
qed

lemma unreserve_covers:
  assumes c: "covers (map occ_of (us @ e # vs)) (occ_of t)" "\<forall>u\<in>set (us @ e # vs). ok u \<and> size_of u \<le> size_of t" and t: "ok t"
  obtains t' where "unreserve e t = (PBSE_NONE, t')" and "covers (map occ_of (us @ vs)) (occ_of t')"
    and "\<forall>u\<in>set (us @ vs). ok u \<and> size_of u \<le> size_of t'" and "ok t'" and "size_of t' = size_of t"
    and "occ_of t' = occ_of t - occ_of e"
proof -
  obtain t' where t': "unreserve e t = (PBSE_NONE, t')" "occ_of t' = occ_of t - occ_of e" "size_of t' = size_of t" "ok t'"
    using unreserve_done [of e t] c(2) t by auto
  have "covers (map occ_of (us @ vs)) (occ_of t')" using covers_remove [of "map occ_of us" "occ_of e" "map occ_of vs"] c(1) t'(2) by simp
  then show thesis using t' c(2) by (intro that [of t']) auto
qed

end

interpretation est: slot_pool occ nslots get_number_free est_ok reserve_execution_slots unreserve_execution_slots
proof (unfold_locales, goal_cases)
  case (1 t) show ?case by (auto simp: occ_less)
next
  case (2 t) then show ?case by (simp add: get_number_free_def est_ok_def nslots_def)
next
  case (3 t n s) then show ?case by (simp add: get_number_free_def reserve_short INSUFFICIENT_FREE_EXECUTION_SLOTS_def)
next
  case (4 t s n)
  then have n: "n \<le> open_count t" by (simp add: get_number_free_def)
  obtain t' s' where r: "reserve_execution_slots n t s = (PBSE_NONE, t', s')"
    "occ t' = occ t \<union> first_free (nat n) t" "occ s' = occ s \<union> first_free (nat n) t"
    "nslots t' = nslots t" "nslots s' = max (nslots t) (nslots s)" "est_ok t \<longrightarrow> est_ok t'" "est_ok s \<longrightarrow> est_ok s'"
    by (rule reserve_enough [OF n, of s])
  have "nat n \<le> nslots t - card (occ t)" using 4 by (simp add: get_number_free_def est_ok_free)
  then show ?case using 4(1,2) r first_free_subset [of "nat n" t] card_first_free [of "nat n" t] by blast
next
  case (5 t s) then show ?case by (simp add: slot_simps SUBSET_TOO_LARGE_def)
next
  case (6 s t) then show ?case by (auto simp: slot_simps)
qed

lemma est_eqI:
  assumes "nslots t = nslots u" and "occ t = occ u" and "est_ok t" and "est_ok u"
  shows "t = u"
proof -
  have "slots t = slots u"
  proof (rule nth_equalityI)
    show "length (slots t) = length (slots u)" using assms(1) by (simp add: nslots_def)
    fix i assume "i < length (slots t)"
    then show "slots t ! i = slots u ! i" using assms(1,2) by (auto simp: occ_def nslots_def set_eq_iff)
  qed
  then show ?thesis using assms(2-4) by (simp add: est_ok_def)
qed

text \<open>
  C22: a reservation of slots takes the lowest free ones, refuses when there are too few without changing
  anything, and is undone exactly, counter included, by releasing the subset it filled in.
\<close>

theorem slot_reservation:
  assumes "est_ok this" and "0 \<le> n" and "reserve_execution_slots n this est_empty = (rc, this', subs)"
  shows "(rc = PBSE_NONE) = (n \<le> get_number_free this) \<and>
    (rc \<noteq> PBSE_NONE \<longrightarrow> this' = this \<and> subs = est_empty) \<and>
    (rc = PBSE_NONE \<longrightarrow> occ subs = set (take (nat n) (filter (\<lambda>i. \<not> is_occupied (int i) this) [0..<nslots this])) \<and>
      card (occ subs) = nat n \<and> occ this' = occ this \<union> occ subs \<and> get_number_free this' = get_number_free this - n \<and>
      unreserve_execution_slots subs this' = (PBSE_NONE, this))"
proof (rule conjI [OF _ conjI [OF impI impI]])
  show d: "(rc = PBSE_NONE) = (n \<le> get_number_free this)"
    using est.reserve_decides [OF assms(1), of est_empty n] assms(2,3) by (simp add: slot_simps)
  show "this' = this \<and> subs = est_empty" if "rc \<noteq> PBSE_NONE"
    using that est.reserve_refused [of this n est_empty] assms(3) d by (simp add: not_le)
  assume rc: "rc = PBSE_NONE"
  then have n: "n \<le> open_count this" using d by (simp add: get_number_free_def)
  obtain t e where r: "reserve_execution_slots n this est_empty = (PBSE_NONE, t, e)"
    "occ t = occ this \<union> first_free (nat n) this" "occ e = occ est_empty \<union> first_free (nat n) this"
    "nslots t = nslots this" "nslots e = max (nslots this) (nslots est_empty)" "est_ok this \<longrightarrow> est_ok t"
    by (rule reserve_enough [OF n, of est_empty])
  then have v: "this' = t" "subs = e" "occ e = first_free (nat n) this" "nslots e = nslots this" "est_ok t"
    using assms(1,3) by (simp_all add: slot_simps)
  have dis: "first_free (nat n) this \<inter> occ this = {}" using first_free_subset by blast
  have c: "card (first_free (nat n) this) = nat n"
    using n assms(1) by (intro card_first_free) (simp add: est_ok_free)
  have f: "free_list this = filter (\<lambda>i. \<not> is_occupied (int i) this) [0..<nslots this]"
    unfolding free_list_def by (rule filter_cong [OF refl]) (auto simp: is_occupied_def occ_def nslots_def)
  have "finite (first_free (nat n) this)" by (simp add: first_free_def)
  then have "card (occ t) = card (occ this) + nat n" unfolding r(2) using dis c by (subst card_Un_disjoint) auto
  then have g: "get_number_free t = get_number_free this - n"
    using assms(1,2) v(5) r(4) by (simp add: get_number_free_def est_ok_def nslots_def)
  have o: "occ subs = set (take (nat n) (filter (\<lambda>i. \<not> is_occupied (int i) this) [0..<nslots this])) \<and>
      card (occ subs) = nat n \<and> occ this' = occ this \<union> occ subs \<and> get_number_free this' = get_number_free this - n"
    using v r(2) c g f by (simp add: first_free_def)
  have "unset_loop 0 (slots e) t = this"
    by (rule est_eqI) (use v r dis assms(1) in \<open>auto simp: slot_simps\<close>)
  then have "unreserve_execution_slots subs this' = (PBSE_NONE, this)"
    using v r(4) by (simp add: unreserve_simps)
  then show "occ subs = set (take (nat n) (filter (\<lambda>i. \<not> is_occupied (int i) this) [0..<nslots this])) \<and>
      card (occ subs) = nat n \<and> occ this' = occ this \<union> occ subs \<and> get_number_free this' = get_number_free this - n \<and>
      unreserve_execution_slots subs this' = (PBSE_NONE, this)"
    using o by blast
qed

theorem slot_reservation_witness:
  "\<exists>this' subs. reserve_execution_slots 2 \<lparr>slots = [True, False, False, False], open_count = 3\<rparr> est_empty = (PBSE_NONE, this', subs) \<and>
     occ subs = {1, 2} \<and>
     unreserve_execution_slots subs this' = (PBSE_NONE, \<lparr>slots = [True, False, False, False], open_count = 3\<rparr>)"
proof -
  let ?t = "\<lparr>slots = [True, False, False, False], open_count = 3\<rparr>"
  have o: "occ ?t = {0}" by (auto simp: occ_def less_Suc_eq nth_Cons')
  have ok: "est_ok ?t" unfolding est_ok_def o by simp
  obtain rc t s where r: "reserve_execution_slots 2 ?t est_empty = (rc, t, s)" by (metis prod.exhaust)
  note p = slot_reservation [OF ok _ r]
  have rc: "rc = PBSE_NONE" using p by (simp add: get_number_free_def)
  have "occ s = {1, 2}" using p rc by (simp add: is_occupied_def nslots_def upt_rec eval_nat_numeral)
  then show ?thesis using p r rc by auto
qed

end
