(* ===== verification/Id_Map.thy ===== *)
theory Id_Map
  imports Torque_Base
begin

text \<open>
  The maps between names and small numbers of \<^verbatim>\<open>server/id_map.cpp\<close>; the server has one for nodes and one
  for jobs.  The state is the map from names to numbers, the vector of names and the counter.  The mutex
  is not part of the model: each member function holds it from start to end.
\<close>

section \<open>Operations\<close>

record id_map =
  str_map :: "char list \<rightharpoonup> int"
  names :: "char list list"
  counter :: int

definition id_map_empty :: id_map where
  "id_map_empty = \<lparr>str_map = Map.empty, names = [], counter = 0\<rparr>"

definition get_new_id :: "char list \<Rightarrow> id_map \<Rightarrow> int \<times> id_map" where
  "get_new_id name this =
     (case str_map this name of
        Some i \<Rightarrow> (i, this)
      | None \<Rightarrow>
          (counter this,
           this\<lparr>counter := counter this + 1,
                str_map := (str_map this)(name \<mapsto> counter this),
                names := names this @ [name]\<rparr>))"

definition get_id :: "char list \<Rightarrow> id_map \<Rightarrow> int" where
  "get_id name this = (case str_map this name of Some i \<Rightarrow> i | None \<Rightarrow> - 1)"

definition get_name :: "int \<Rightarrow> id_map \<Rightarrow> char list option" where
  "get_name i this =
     (if i \<ge> 0 then (if nat i < length (names this) then Some (names this ! nat i) else None) else None)"

section \<open>Invariant\<close>

definition id_map_ok :: "id_map \<Rightarrow> bool" where
  "id_map_ok this \<longleftrightarrow> counter this = int (length (names this)) \<and>
     (\<forall>name i. str_map this name = Some i \<longleftrightarrow> get_name i this = Some name)"

lemma id_map_empty_ok: "id_map_ok id_map_empty"
  by (simp add: id_map_ok_def id_map_empty_def get_name_def)

lemma get_name_extend:
  assumes "counter m = int (length (names m))"
  shows "get_name i (m\<lparr>counter := c, str_map := s, names := names m @ [name]\<rparr>) =
    (if i = counter m then Some name else get_name i m)"
  using assms by (auto simp: get_name_def nth_append nat_less_iff)

lemma get_name_counter: "id_map_ok m \<Longrightarrow> get_name i m = Some name \<Longrightarrow> i < counter m"
  by (auto simp: id_map_ok_def get_name_def nat_less_iff split: if_splits)

lemma get_new_id_ok:
  assumes "id_map_ok m"
  shows "id_map_ok (snd (get_new_id name m))"
proof (cases "str_map m name")
  case None
  have c: "counter m = int (length (names m))" using assms by (simp add: id_map_ok_def)
  have n: "get_name i m \<noteq> Some name" for i using assms None unfolding id_map_ok_def by (metis option.distinct(1))
  have s: "str_map m x = Some i \<longleftrightarrow> get_name i m = Some x" for x i using assms by (simp add: id_map_ok_def)
  have g: "get_name i m = Some x \<Longrightarrow> i < counter m" for i x using get_name_counter [OF assms] .
  show ?thesis unfolding id_map_ok_def get_new_id_def None option.case snd_conv get_name_extend [OF c]
    using n g by (auto simp: c s)
qed (use assms in \<open>simp add: get_new_id_def\<close>)

inductive id_map_reach :: "id_map \<Rightarrow> bool" where
  init: "id_map_reach id_map_empty"
| new_id: "id_map_reach m \<Longrightarrow> id_map_reach (snd (get_new_id name m))"

lemma reach_ok: "id_map_reach m \<Longrightarrow> id_map_ok m"
  by (induction rule: id_map_reach.induct) (simp_all add: id_map_empty_ok get_new_id_ok)

text \<open>
  C29: names and numbers stay in bijection.  After any number of registrations, registering a name
  returns a number under which \<open>get_name\<close> finds that name and which \<open>get_id\<close> returns for it; it is the
  old number when the name was known and the next unused one otherwise; every other name and number is
  looked up as before.
\<close>

theorem id_map_bijection:
  assumes "id_map_reach m" and "get_new_id name m = (i, m')"
  shows "get_name i m' = Some name \<and> get_id name m' = i \<and> 0 \<le> i \<and>
    get_id name m = (if i = counter m then - 1 else i) \<and>
    (\<forall>x. x \<noteq> name \<longrightarrow> get_id x m' = get_id x m) \<and>
    (\<forall>j x. get_name j m = Some x \<longrightarrow> get_name j m' = Some x \<and> get_id x m' = j)"
proof (intro conjI allI impI)
  have ok: "id_map_ok m" using assms(1) by (rule reach_ok)
  have ok': "id_map_ok m'" using get_new_id_ok [OF ok, of name] assms(2) by simp
  have c: "counter m = int (length (names m))" using ok by (simp add: id_map_ok_def)
  have 1: "str_map m' name = Some i" using assms(2) by (auto simp: get_new_id_def split: option.splits)
  then show n: "get_name i m' = Some name" using ok' by (simp add: id_map_ok_def)
  show "get_id name m' = i" using 1 by (simp add: get_id_def)
  show "0 \<le> i" using n by (simp add: get_name_def split: if_splits)
  show "get_id x m' = get_id x m" if "x \<noteq> name" for x
    using that assms(2) by (auto simp: get_new_id_def get_id_def split: option.splits)
  show "get_id name m = (if i = counter m then - 1 else i)"
  proof (cases "str_map m name")
    case None
    then show ?thesis using assms(2) by (auto simp: get_new_id_def get_id_def)
  next
    case (Some k)
    then have "k < counter m" using ok by (intro get_name_counter [OF ok, of k name]) (simp add: id_map_ok_def)
    then show ?thesis using assms(2) Some by (auto simp: get_new_id_def get_id_def)
  qed
  fix j x assume j: "get_name j m = Some x"
  then have "j < counter m" by (rule get_name_counter [OF ok])
  then have "get_name j m' = Some x"
    using assms(2) j get_name_extend [OF c] by (auto simp: get_new_id_def split: option.splits)
  moreover from this have "str_map m' x = Some j" using ok' by (simp add: id_map_ok_def)
  ultimately show "get_name j m' = Some x" "get_id x m' = j" by (simp_all add: get_id_def)
qed

theorem id_map_bijection_witness:
  "\<exists>m'. get_new_id ''n2'' (snd (get_new_id ''n1'' id_map_empty)) = (1, m') \<and>
    get_name 1 m' = Some ''n2'' \<and> get_id ''n2'' m' = 1 \<and> get_name 0 m' = Some ''n1'' \<and> get_id ''n1'' m' = 0"
proof -
  let ?m = "snd (get_new_id ''n1'' id_map_empty)"
  have r: "id_map_reach ?m" by (rule id_map_reach.intros)+
  obtain m' where m': "get_new_id ''n2'' ?m = (1, m')" by (simp add: get_new_id_def id_map_empty_def)
  have 0: "get_name 0 ?m = Some ''n1''" by (simp add: get_new_id_def id_map_empty_def get_name_def)
  show ?thesis using id_map_bijection [OF r m'] 0 m' by blast
qed

end
