(* ===== verification/Node_Slots.thy ===== *)
theory Node_Slots
  imports Slot_Tracker C_Text
begin

unbundle bit_operations_syntax

text \<open>
  What a job holds on a node (\<^verbatim>\<open>server/node_manager.c\<close>, \<^verbatim>\<open>server/node_func.c\<close>): execution slots, GPUs
  and MICs.  A node is accepted for a request (\<open>node_is_spec_acceptable\<close>), marked
  (\<open>save_node_for_adding\<close>), and the job is placed on it (\<open>place_subnodes_in_hostlist\<close>,
  \<open>place_gpus_in_hostlist\<close>, \<open>place_mics_in_hostlist\<close>); \<open>remove_job_from_node\<close> and its companions give
  everything back.  The build is the one without Linux cgroups.  Logging and locks are left out.

  \<open>nd_ngpus\<close> and \<open>nd_nmics\<close> are the sizes of the vectors of GPUs and MICs; the loops run over that many
  elements.  The marks and free counters, \<open>short\<close> in the code, are integers here.
\<close>

section \<open>Data\<close>

record job_usage_info =
  internal_job_id :: int
  ju_est :: execution_slot_tracker

record job_reservation_info =
  jr_node_id :: int
  jr_port :: int
  jr_est :: execution_slot_tracker

definition job_reservation_info_new :: job_reservation_info where
  "job_reservation_info_new = \<lparr>jr_node_id = 0, jr_port = 0, jr_est = est_empty\<rparr>"

datatype psit = okay | thinking | conflict | ignore_psit

datatype gpmodeit = gpu_normal | gpu_exclusive_thread | gpu_prohibited | gpu_exclusive_process | gpu_unknown | gpu_mode_not_set

datatype gpstatit = gpu_unallocated | gpu_shared | gpu_exclusive | gpu_unavailable

record gpusubn =
  job_internal_id :: int
  inuse :: bool
  gpu_state :: gpstatit
  gpu_mode :: gpmodeit
  gpu_index :: int
  job_count :: int

record howl =
  hostname :: "char list"
  order :: int
  howl_index :: int
  howl_port :: int

record node_prop =
  prop_name :: "char list"
  prop_mark :: int

record single_spec_data =
  spec_ppn :: int
  spec_gpu :: int
  spec_mic :: int
  spec_plist :: "node_prop list"

record node_job_add_info =
  naji_node_id :: int
  ppn_needed :: int
  gpu_needed :: int
  mic_needed :: int
  is_external :: int
  req_order :: int
  req_index :: int

record pbsnode =
  nd_name :: "char list"
  nd_id :: int
  nd_mom_rm_port :: int
  nd_flag :: psit
  nd_properties :: "char list list"
  nd_state :: "16 word"
  nd_power_state :: "16 word"
  nd_order :: int
  nd_slots :: execution_slot_tracker
  nd_job_usages :: "job_usage_info list"
  nd_np_to_be_used :: int
  nd_ngpus :: int
  nd_gpus_real :: bool
  nd_gpusn :: "gpusubn list"
  nd_ngpus_free :: int
  nd_ngpus_to_be_used :: int
  nd_nmics :: int
  nd_micjobids :: "int list"
  nd_nmics_free :: int
  nd_nmics_to_be_used :: int

text \<open>The attributes of a job that placement reads.\<close>

record run_job =
  ji_internal_id :: int
  atr_node_exclusive :: int
  atr_exec_host :: "char list option"
  atr_exec_gpus :: "char list option"
  atr_login_node_id :: "char list option"
  svflg_has_nodes :: bool

definition INUSE_FREE :: "16 word" where "INUSE_FREE = 0x00"
definition INUSE_OFFLINE :: "16 word" where "INUSE_OFFLINE = 0x01"
definition INUSE_DOWN :: "16 word" where "INUSE_DOWN = 0x02"
definition INUSE_RESERVE :: "16 word" where "INUSE_RESERVE = 0x08"
definition INUSE_JOB :: "16 word" where "INUSE_JOB = 0x10"
definition INUSE_NOHIERARCHY :: "16 word" where "INUSE_NOHIERARCHY = 0x80"
definition INUSE_NOT_READY :: "16 word" where "INUSE_NOT_READY = INUSE_DOWN OR INUSE_NOHIERARCHY"
definition INUSE_UNKNOWN :: "16 word" where "INUSE_UNKNOWN = 0x100"
definition POWER_STATE_RUNNING :: "16 word" where "POWER_STATE_RUNNING = 0"
definition BM_ERROR :: int where "BM_ERROR = - 20"

section \<open>Acceptance\<close>

definition has_property :: "pbsnode \<Rightarrow> char list \<Rightarrow> bool" where
  "has_property this name = list_ex (\<lambda>p. p = name) (nd_properties this)"

fun hasprop :: "pbsnode \<Rightarrow> node_prop list \<Rightarrow> bool" where
  "hasprop this [] = True"
| "hasprop this (need # props) =
     (if prop_mark need = 0 then hasprop this props
      else if \<not> has_property this (prop_name need) then False
      else hasprop this props)"

text \<open>\<open>hasppn\<close> as the callers use it, with \<open>SKIP_NONE\<close>: the total number of slots counts.\<close>

definition hasppn :: "pbsnode \<Rightarrow> int \<Rightarrow> bool" where
  "hasppn pnode node_req = (get_total_execution_slots (nd_slots pnode) \<ge> node_req)"

definition gpu_count :: "pbsnode \<Rightarrow> bool \<Rightarrow> int" where
  "gpu_count pnode freeonly =
     (if nd_state pnode AND INUSE_OFFLINE \<noteq> 0 \<or> nd_state pnode AND INUSE_UNKNOWN \<noteq> 0 \<or>
         nd_state pnode AND INUSE_NOT_READY \<noteq> 0 \<or> nd_power_state pnode \<noteq> POWER_STATE_RUNNING then 0
      else if \<not> freeonly then nd_ngpus pnode
      else int (length (filter (\<lambda>gn. \<not> inuse gn \<and> gpu_state gn \<noteq> gpu_unavailable)
                         (take (nat (nd_ngpus pnode)) (nd_gpusn pnode)))))"

text \<open>
  The bitmap of requested cores is read from its end; \<open>cs\<close> is what is left of it, reversed.
\<close>

fun satisfies_loop :: "int \<Rightarrow> char list \<Rightarrow> execution_slot_tracker \<Rightarrow> bool" where
  "satisfies_loop i [] st = True"
| "satisfies_loop i (c # cs) st =
     (if i < get_total_execution_slots st then
        (if c \<noteq> CHR ''1'' then satisfies_loop (i + 1) cs st
         else if is_occupied i st then False
         else satisfies_loop (i + 1) cs st)
      else False)"

definition node_satisfies_request :: "pbsnode \<Rightarrow> char list \<Rightarrow> int" where
  "node_satisfies_request pnode ProcBMStr =
     (if ProcBMStr = [] then BM_ERROR
      else if nd_state pnode \<noteq> INUSE_FREE \<or> nd_power_state pnode \<noteq> POWER_STATE_RUNNING then 0
      else if satisfies_loop 0 (rev ProcBMStr) (nd_slots pnode) then 1 else 0)"

definition node_is_spec_acceptable ::
  "pbsnode \<Rightarrow> single_spec_data \<Rightarrow> char list \<Rightarrow> int \<Rightarrow> bool \<Rightarrow> bool \<times> pbsnode \<times> int" where
  "node_is_spec_acceptable pnode spec ProcBMStr eligible_nodes job_is_exclusive =
     (if ProcBMStr \<noteq> [] \<and>
         ((nd_state pnode \<noteq> INUSE_FREE \<or> nd_power_state pnode \<noteq> POWER_STATE_RUNNING) \<or>
          node_satisfies_request pnode ProcBMStr = 0) then (False, pnode, eligible_nodes)
      else
        (let pnode = pnode\<lparr>nd_flag := okay\<rparr> in
         if \<not> hasprop pnode (spec_plist spec) then (False, pnode, eligible_nodes)
         else if \<not> hasppn pnode (spec_ppn spec) \<or> gpu_count pnode False < spec_gpu spec \<or>
                 nd_nmics pnode < spec_mic spec then (False, pnode, eligible_nodes)
         else
           (let eligible_nodes = eligible_nodes + 1 in
            if nd_state pnode AND (INUSE_OFFLINE OR INUSE_NOT_READY OR INUSE_RESERVE OR INUSE_JOB) \<noteq> 0 \<or>
               nd_power_state pnode \<noteq> POWER_STATE_RUNNING then (False, pnode, eligible_nodes)
            else
              (let gpu_free = gpu_count pnode True - nd_ngpus_to_be_used pnode;
                   np_free = get_number_free (nd_slots pnode) - nd_np_to_be_used pnode;
                   mic_free = nd_nmics_free pnode - nd_nmics_to_be_used pnode
               in if spec_ppn spec > np_free \<or> spec_gpu spec > gpu_free \<or> spec_mic spec > mic_free
                  then (False, pnode, eligible_nodes)
                  else if np_free - spec_ppn spec < gpu_free - spec_gpu spec then (False, pnode, eligible_nodes)
                  else if job_is_exclusive \<and>
                          get_number_free (nd_slots pnode) \<noteq> get_total_execution_slots (nd_slots pnode)
                    then (False, pnode, eligible_nodes)
                  else (True, pnode, eligible_nodes)))))"

section \<open>Marking\<close>

fun insert_naji :: "node_job_add_info \<Rightarrow> node_job_add_info list \<Rightarrow> node_job_add_info list" where
  "insert_naji naji [] = [naji]"
| "insert_naji naji (it # rest) = (if req_order naji < req_order it then naji # it # rest else it # insert_naji naji rest)"

definition save_node_for_adding ::
  "node_job_add_info list \<Rightarrow> pbsnode \<Rightarrow> single_spec_data \<Rightarrow> int \<Rightarrow> int \<Rightarrow> int \<Rightarrow> node_job_add_info list \<times> pbsnode" where
  "save_node_for_adding naji_list pnode req first_node_id is_external_node req_rank =
     (let first = (first_node_id = nd_id pnode \<or> first_node_id = - 1);
          pnode = pnode\<lparr>nd_order := (if first then 0 else 1)\<rparr>;
          rank = (if first \<and> req_rank > 0 then 0 else req_rank);
          naji = \<lparr>naji_node_id = nd_id pnode, ppn_needed = spec_ppn req, gpu_needed = spec_gpu req,
                  mic_needed = spec_mic req, is_external = is_external_node, req_order = 0, req_index = rank\<rparr>;
          naji_list =
            (if naji_list = [] \<or> first then naji\<lparr>req_order := (if first then 0 else rank + 1)\<rparr> # naji_list
             else insert_naji (naji\<lparr>req_order := rank + 1\<rparr>) naji_list)
      in (naji_list,
          pnode\<lparr>nd_np_to_be_used := nd_np_to_be_used pnode + spec_ppn req,
                nd_ngpus_to_be_used := nd_ngpus_to_be_used pnode + spec_gpu req,
                nd_nmics_to_be_used := nd_nmics_to_be_used pnode - spec_mic req\<rparr>))"

section \<open>Placement\<close>

fun reserve_bm_loop ::
  "int \<Rightarrow> char list \<Rightarrow> execution_slot_tracker \<Rightarrow> execution_slot_tracker \<Rightarrow> bool \<times> execution_slot_tracker \<times> execution_slot_tracker" where
  "reserve_bm_loop i [] st est = (True, st, est)"
| "reserve_bm_loop i (c # cs) st est =
     (if i < get_total_execution_slots st then
        (if c \<noteq> CHR ''1'' then reserve_bm_loop (i + 1) cs st est
         else (case reserve_execution_slot i st est of (rc, st', est') \<Rightarrow> reserve_bm_loop (i + 1) cs st' est'))
      else (False, st, est))"

definition reserve_node ::
  "pbsnode \<Rightarrow> run_job \<Rightarrow> char list \<Rightarrow> job_reservation_info \<Rightarrow> pbse \<times> pbsnode \<times> job_reservation_info" where
  "reserve_node pnode pjob ProcBMStr node_info =
     (case reserve_bm_loop 0 (rev ProcBMStr) (nd_slots pnode) (jr_est node_info) of
        (done, st, est) \<Rightarrow>
          (let pnode = pnode\<lparr>nd_slots := st\<rparr>; node_info = node_info\<lparr>jr_est := est\<rparr> in
           if \<not> done then (PBSE_OTHER (- 1), pnode, node_info)
           else
             (PBSE_NONE,
              pnode\<lparr>nd_job_usages := nd_job_usages pnode @ [\<lparr>internal_job_id = ji_internal_id pjob, ju_est = est\<rparr>],
                    nd_state := INUSE_JOB\<rparr>,
              node_info\<lparr>jr_node_id := nd_id pnode, jr_port := nd_mom_rm_port pnode\<rparr>)))"

definition place_subnodes_in_hostlist ::
  "bool \<Rightarrow> run_job \<Rightarrow> pbsnode \<Rightarrow> node_job_add_info \<Rightarrow> job_reservation_info \<Rightarrow> char list \<Rightarrow>
   pbse \<times> pbsnode \<times> node_job_add_info \<times> job_reservation_info" where
  "place_subnodes_in_hostlist job_exclusive_on_use pjob pnode naji node_info ProcBMStr =
     (if ProcBMStr \<noteq> [] then
        (case reserve_node pnode pjob ProcBMStr node_info of
           (rc, pnode, node_info) \<Rightarrow>
             if rc = PBSE_NONE then (rc, pnode\<lparr>nd_np_to_be_used := 0\<rparr>, naji\<lparr>ppn_needed := 0\<rparr>, node_info)
             else (rc, pnode, naji, node_info))
      else
        (case reserve_execution_slots (ppn_needed naji) (nd_slots pnode) (jr_est node_info) of
           (rc, st, est) \<Rightarrow>
             (let pnode = pnode\<lparr>nd_slots := st\<rparr>; node_info = node_info\<lparr>jr_est := est\<rparr> in
              if rc = PBSE_NONE then
                (let pnode = pnode\<lparr>nd_job_usages := nd_job_usages pnode @ [\<lparr>internal_job_id = ji_internal_id pjob, ju_est = est\<rparr>]\<rparr>;
                     exclusive = (get_number_free st \<le> 0 \<or> atr_node_exclusive pjob = 1 \<or> job_exclusive_on_use);
                     pnode = (if exclusive then pnode\<lparr>nd_state := nd_state pnode OR INUSE_JOB\<rparr> else pnode)
                 in (PBSE_NONE, pnode\<lparr>nd_np_to_be_used := nd_np_to_be_used pnode - ppn_needed naji\<rparr>,
                     naji\<lparr>ppn_needed := 0\<rparr>,
                     node_info\<lparr>jr_port := nd_mom_rm_port pnode, jr_node_id := nd_id pnode\<rparr>))
              else (PBSE_OTHER (- 1), pnode, naji, node_info))))"

fun insert_howl :: "howl \<Rightarrow> howl list \<Rightarrow> howl list" where
  "insert_howl h [] = [h]"
| "insert_howl h (it # rest) = (if order h \<le> order it then h # it # rest else it # insert_howl h rest)"

definition add_gpu_to_hostlist :: "howl list \<Rightarrow> gpusubn \<Rightarrow> pbsnode \<Rightarrow> howl list" where
  "add_gpu_to_hostlist gpu_list gn pnode =
     insert_howl \<lparr>hostname = nd_name pnode @ ''-gpu'', order = nd_order pnode, howl_index = gpu_index gn,
                  howl_port = nd_mom_rm_port pnode\<rparr> gpu_list"

definition add_job_to_gpu_subnode :: "pbsnode \<Rightarrow> gpusubn \<Rightarrow> run_job \<Rightarrow> pbsnode \<times> gpusubn" where
  "add_job_to_gpu_subnode pnode gn pjob =
     (pnode\<lparr>nd_ngpus_free := nd_ngpus_free pnode - 1, nd_ngpus_to_be_used := nd_ngpus_to_be_used pnode - 1\<rparr>,
      gn\<lparr>job_internal_id := ji_internal_id pjob, inuse := True, job_count := job_count gn + 1\<rparr>)"

text \<open>The state a GPU gets once a job is on it.\<close>

definition gpu_state_after :: "pbsnode \<Rightarrow> gpmodeit option \<Rightarrow> gpusubn \<Rightarrow> gpusubn" where
  "gpu_state_after pnode gpu_mode_rqstd gn =
     (let gn =
            (if nd_gpus_real pnode \<and>
                (gpu_mode gn = gpu_exclusive_thread \<or> gpu_mode gn = gpu_exclusive_process \<or>
                 gpu_mode gn = gpu_normal \<and>
                 (gpu_mode_rqstd = Some gpu_exclusive_thread \<or> gpu_mode_rqstd = Some gpu_exclusive_process))
             then gn\<lparr>gpu_state := gpu_exclusive\<rparr> else gn)
      in if nd_gpus_real pnode \<and> gpu_mode gn = gpu_normal \<and> gpu_mode_rqstd = Some gpu_normal \<and>
            gpu_state gn = gpu_unallocated
         then gn\<lparr>gpu_state := gpu_shared\<rparr> else gn)"

fun place_gpus_loop ::
  "gpmodeit option \<Rightarrow> run_job \<Rightarrow> gpusubn list \<Rightarrow> pbsnode \<Rightarrow> int \<Rightarrow> howl list \<Rightarrow> gpusubn list \<times> pbsnode \<times> int \<times> howl list" where
  "place_gpus_loop md pjob [] pnode needed gpu_list = ([], pnode, needed, gpu_list)"
| "place_gpus_loop md pjob (gn # gns) pnode needed gpu_list =
     (if needed > 0 then
        (if inuse gn \<or> gpu_state gn = gpu_unavailable then
           (case place_gpus_loop md pjob gns pnode needed gpu_list of (gns', r) \<Rightarrow> (gn # gns', r))
         else
           (case add_job_to_gpu_subnode pnode gn pjob of
              (pnode, gn) \<Rightarrow>
                (case place_gpus_loop md pjob gns pnode (needed - 1) (add_gpu_to_hostlist gpu_list gn pnode) of
                   (gns', r) \<Rightarrow> (gpu_state_after pnode md gn # gns', r))))
      else (gn # gns, pnode, needed, gpu_list))"

definition place_gpus_in_hostlist ::
  "gpmodeit option \<Rightarrow> pbsnode \<Rightarrow> run_job \<Rightarrow> node_job_add_info \<Rightarrow> howl list \<Rightarrow> pbsnode \<times> node_job_add_info \<times> howl list" where
  "place_gpus_in_hostlist gpu_mode_rqstd pnode pjob naji gpu_list =
     (let n = nat (nd_ngpus pnode) in
      case place_gpus_loop gpu_mode_rqstd pjob (take n (nd_gpusn pnode)) pnode (gpu_needed naji) gpu_list of
        (gns, pnode, needed, gpu_list) \<Rightarrow>
          (pnode\<lparr>nd_gpusn := gns @ drop n (nd_gpusn pnode)\<rparr>, naji\<lparr>gpu_needed := needed\<rparr>, gpu_list))"

definition add_job_to_mic :: "pbsnode \<Rightarrow> nat \<Rightarrow> run_job \<Rightarrow> pbse \<times> pbsnode" where
  "add_job_to_mic pnode index pjob =
     (if nd_micjobids pnode ! index = - 1 then
        (PBSE_NONE,
         pnode\<lparr>nd_micjobids := (nd_micjobids pnode)[index := ji_internal_id pjob],
               nd_nmics_free := nd_nmics_free pnode - 1,
               nd_nmics_to_be_used := nd_nmics_to_be_used pnode - 1\<rparr>)
      else (PBSE_OTHER (- 1), pnode))"

definition add_mic_to_list :: "howl list \<Rightarrow> pbsnode \<Rightarrow> nat \<Rightarrow> howl list" where
  "add_mic_to_list mic_list pnode index =
     insert_howl \<lparr>hostname = nd_name pnode @ ''-mic'', order = nd_order pnode, howl_index = int index,
                  howl_port = nd_mom_rm_port pnode\<rparr> mic_list"

text \<open>The loop over the MICs from \<open>i\<close> on, \<open>k\<close> of them left.\<close>

fun place_mics_loop :: "nat \<Rightarrow> nat \<Rightarrow> run_job \<Rightarrow> pbsnode \<Rightarrow> int \<Rightarrow> howl list \<Rightarrow> pbsnode \<times> int \<times> howl list" where
  "place_mics_loop 0 i pjob pnode needed mic_list = (pnode, needed, mic_list)"
| "place_mics_loop (Suc k) i pjob pnode needed mic_list =
     (if needed > 0 then
        (case add_job_to_mic pnode i pjob of
           (rc, pnode) \<Rightarrow>
             if rc = PBSE_NONE then place_mics_loop k (Suc i) pjob pnode (needed - 1) (add_mic_to_list mic_list pnode i)
             else place_mics_loop k (Suc i) pjob pnode needed mic_list)
      else (pnode, needed, mic_list))"

definition place_mics_in_hostlist ::
  "pbsnode \<Rightarrow> run_job \<Rightarrow> node_job_add_info \<Rightarrow> howl list \<Rightarrow> pbsnode \<times> node_job_add_info \<times> howl list" where
  "place_mics_in_hostlist pnode pjob naji mic_list =
     (case place_mics_loop (nat (nd_nmics pnode)) 0 pjob pnode (mic_needed naji) mic_list of
        (pnode, needed, mic_list) \<Rightarrow> (pnode, naji\<lparr>mic_needed := needed\<rparr>, mic_list))"

section \<open>Release and resizing\<close>

function remove_usage_loop :: "nat \<Rightarrow> int \<Rightarrow> pbsnode \<Rightarrow> pbsnode" where
  "remove_usage_loop i jid pnode =
     (if i < length (nd_job_usages pnode) then
        (let jui = nd_job_usages pnode ! i in
         if internal_job_id jui = jid then
           remove_usage_loop i jid
             (pnode\<lparr>nd_slots := snd (unreserve_execution_slots (ju_est jui) (nd_slots pnode)),
                    nd_job_usages := take i (nd_job_usages pnode) @ drop (Suc i) (nd_job_usages pnode),
                    nd_state := nd_state pnode AND NOT INUSE_JOB\<rparr>)
         else remove_usage_loop (Suc i) jid pnode)
      else pnode)"
  by pat_completeness auto
termination remove_usage_loop
  by (relation "measure (\<lambda>(i, jid, pnode). length (nd_job_usages pnode) - i)") auto

declare remove_usage_loop.simps [simp del]

definition remove_job_from_node :: "pbsnode \<Rightarrow> int \<Rightarrow> pbsnode" where
  "remove_job_from_node pnode jid = remove_usage_loop 0 jid pnode"

definition release_gpu :: "gpusubn \<Rightarrow> gpusubn" where
  "release_gpu gn =
     (let gn = gn\<lparr>job_internal_id := - 1, inuse := False, job_count := job_count gn - 1\<rparr>
      in if gpu_mode gn = gpu_exclusive_thread \<or> gpu_mode gn = gpu_exclusive_process \<or>
            gpu_mode gn = gpu_normal \<and> job_count gn = 0
         then gn\<lparr>gpu_state := gpu_unallocated\<rparr> else gn)"

definition remove_job_from_nodes_gpus :: "pbsnode \<Rightarrow> run_job \<Rightarrow> pbsnode" where
  "remove_job_from_nodes_gpus pnode pjob =
     (case atr_exec_gpus pjob of
        None \<Rightarrow> pnode
      | Some gpu_str \<Rightarrow>
          (let n = nat (nd_ngpus pnode);
               mine = (\<lambda>gn. job_internal_id gn = ji_internal_id pjob);
               gns = take n (nd_gpusn pnode)
           in pnode\<lparr>nd_gpusn := map (\<lambda>gn. if mine gn then release_gpu gn else gn) gns @ drop n (nd_gpusn pnode),
                    nd_ngpus_free := nd_ngpus_free pnode + int (length (filter mine gns))\<rparr>))"

definition remove_job_from_nodes_mics :: "pbsnode \<Rightarrow> run_job \<Rightarrow> pbsnode" where
  "remove_job_from_nodes_mics pnode pjob =
     (let n = nat (nd_nmics pnode); ids = take n (nd_micjobids pnode); j = ji_internal_id pjob
      in pnode\<lparr>nd_nmics_free := nd_nmics_free pnode + int (length (filter (\<lambda>x. x = j) ids)),
               nd_micjobids := map (\<lambda>x. if x = j then - 1 else x) ids @ drop n (nd_micjobids pnode)\<rparr>)"

definition node_add_execution_slot :: "bool \<Rightarrow> pbsnode \<Rightarrow> pbsnode" where
  "node_add_execution_slot job_exclusive_on_use pnode =
     (let pnode = pnode\<lparr>nd_slots := add_execution_slot (nd_slots pnode)\<rparr>
      in if nd_state pnode AND INUSE_JOB \<noteq> 0 \<and> \<not> job_exclusive_on_use
         then pnode\<lparr>nd_state := nd_state pnode AND NOT INUSE_JOB\<rparr> else pnode)"

definition delete_a_subnode :: "pbsnode \<Rightarrow> pbsnode option" where
  "delete_a_subnode pnode =
     map_option (\<lambda>(rc, st). pnode\<lparr>nd_slots := st\<rparr>) (remove_execution_slot (nd_slots pnode))"

text \<open>
  \<open>node_np_action\<close> in its \<open>ATR_ACTION_ALTER\<close> case: a \<open>long\<close> cut down to a \<open>short\<close>, and the loop that adds
  or deletes one slot at a time until the numbers agree.
\<close>

definition to_short :: "int \<Rightarrow> int" where
  "to_short v = sint (word_of_int v :: 16 word)"

fun np_shrink :: "nat \<Rightarrow> pbsnode \<Rightarrow> pbsnode option" where
  "np_shrink 0 pnode = Some pnode"
| "np_shrink (Suc k) pnode = (case delete_a_subnode pnode of None \<Rightarrow> None | Some pnode \<Rightarrow> np_shrink k pnode)"

fun np_grow :: "bool \<Rightarrow> nat \<Rightarrow> pbsnode \<Rightarrow> pbsnode" where
  "np_grow excl 0 pnode = pnode"
| "np_grow excl (Suc k) pnode = np_grow excl k (node_add_execution_slot excl pnode)"

definition node_np_action :: "bool \<Rightarrow> int \<Rightarrow> pbsnode \<Rightarrow> (pbse \<times> pbsnode) option" where
  "node_np_action job_exclusive_on_use at_long pnode =
     (let old_np = to_short (get_total_execution_slots (nd_slots pnode));
          new_np = to_short at_long
      in if new_np \<le> 0 then Some (PBSE_BADATVAL, pnode)
         else if new_np < old_np
           then map_option (\<lambda>p. (PBSE_NONE, p)) (np_shrink (nat (old_np - new_np)) pnode)
         else Some (PBSE_NONE, np_grow job_exclusive_on_use (nat (new_np - old_np)) pnode))"

section \<open>The invariant of a node\<close>

text \<open>
  Every occupied slot of the node is held by exactly one job usage, no usage reaches beyond the node, and
  the counts of free slots are right.
\<close>

abbreviation usages :: "pbsnode \<Rightarrow> execution_slot_tracker list" where
  "usages pnode \<equiv> map ju_est (nd_job_usages pnode)"

definition node_ok :: "pbsnode \<Rightarrow> bool" where
  "node_ok pnode \<longleftrightarrow> est_ok (nd_slots pnode) \<and> covers (map occ (usages pnode)) (occ (nd_slots pnode)) \<and>
     (\<forall>u\<in>set (usages pnode). est_ok u \<and> nslots u \<le> nslots (nd_slots pnode))"

lemma node_okD:
  assumes "node_ok nd"
  shows "est_ok (nd_slots nd)" "covers (map occ (usages nd)) (occ (nd_slots nd))"
    "\<forall>u\<in>set (usages nd). est_ok u \<and> nslots u \<le> nslots (nd_slots nd)"
  using assms by (simp_all add: node_ok_def)

lemma node_ok_cong:
  "nd_slots nd' = nd_slots nd \<Longrightarrow> nd_job_usages nd' = nd_job_usages nd \<Longrightarrow> node_ok nd' = node_ok nd"
  by (simp add: node_ok_def)

lemma first_free_cong: "0 \<le> n \<Longrightarrow> reserve_execution_slots n t est_empty = (PBSE_NONE, t', e) \<Longrightarrow>
  occ e = first_free (nat n) t \<and> occ t' = occ t \<union> first_free (nat n) t"
proof -
  assume n: "0 \<le> n" and r: "reserve_execution_slots n t est_empty = (PBSE_NONE, t', e)"
  then have le: "n \<le> open_count t" by (auto simp: reserve_execution_slots_def INSUFFICIENT_FREE_EXECUTION_SLOTS_def split: if_splits)
  obtain t1 e1 where "reserve_execution_slots n t est_empty = (PBSE_NONE, t1, e1)"
    "occ t1 = occ t \<union> first_free (nat n) t" "occ e1 = occ est_empty \<union> first_free (nat n) t"
    by (rule reserve_enough [OF le, of est_empty])
  then show ?thesis using r by (simp add: slot_simps)
qed

text \<open>What a placement without a bitmap does to the slots.\<close>

lemma place_spec:
  assumes ok: "node_ok nd" and n: "0 \<le> ppn_needed naji" and e: "jr_est info = est_empty"
    and p: "place_subnodes_in_hostlist excl pjob nd naji info [] = (rc, nd', naji', info')"
  shows "node_ok nd'" and "nslots (nd_slots nd') = nslots (nd_slots nd)"
    and "rc = PBSE_NONE \<longleftrightarrow> ppn_needed naji \<le> get_number_free (nd_slots nd)"
    and "rc = PBSE_NONE \<Longrightarrow> nd_job_usages nd' = nd_job_usages nd @ [\<lparr>internal_job_id = ji_internal_id pjob, ju_est = jr_est info'\<rparr>] \<and>
      occ (jr_est info') = first_free (nat (ppn_needed naji)) (nd_slots nd) \<and> card (occ (jr_est info')) = nat (ppn_needed naji) \<and>
      ppn_needed naji' = 0 \<and> get_number_free (nd_slots nd') = get_number_free (nd_slots nd) - ppn_needed naji"
    and "rc \<noteq> PBSE_NONE \<Longrightarrow> nd' = nd \<and> naji' = naji \<and> info' = info"
proof -
  let ?n = "ppn_needed naji"
  obtain rc1 st es where r: "reserve_execution_slots ?n (nd_slots nd) est_empty = (rc1, st, es)" by (metis prod.exhaust)
  note o = node_okD [OF ok]
  have e0: "est_ok est_empty" "occ est_empty = {}" "nslots est_empty \<le> nslots (nd_slots nd)" by (simp_all add: slot_simps)
  have d: "rc1 = PBSE_NONE \<longleftrightarrow> ?n \<le> get_number_free (nd_slots nd)"
    using est.reserve_decides [OF o(1) e0(1) n] r by simp
  have rc: "rc = PBSE_NONE \<longleftrightarrow> rc1 = PBSE_NONE" using p r e by (auto simp: place_subnodes_in_hostlist_def Let_def split: if_splits)
  then show "rc = PBSE_NONE \<longleftrightarrow> ?n \<le> get_number_free (nd_slots nd)" using d by simp
  have fail: "nd' = nd \<and> naji' = naji \<and> info' = info" if "rc1 \<noteq> PBSE_NONE"
  proof -
    have "st = nd_slots nd" "es = est_empty" using est.reserve_refused [of "nd_slots nd" ?n est_empty] that d r by (simp_all add: not_le)
    then show ?thesis using that p r e by (auto simp: place_subnodes_in_hostlist_def Let_def)
  qed
  then show "rc \<noteq> PBSE_NONE \<Longrightarrow> nd' = nd \<and> naji' = naji \<and> info' = info" using rc by simp
  have good: "node_ok nd' \<and> nslots (nd_slots nd') = nslots (nd_slots nd) \<and>
      nd_job_usages nd' = nd_job_usages nd @ [\<lparr>internal_job_id = ji_internal_id pjob, ju_est = jr_est info'\<rparr>] \<and>
      occ (jr_est info') = first_free (nat ?n) (nd_slots nd) \<and> card (occ (jr_est info')) = nat ?n \<and>
      ppn_needed naji' = 0 \<and> get_number_free (nd_slots nd') = get_number_free (nd_slots nd) - ?n" if t: "rc1 = PBSE_NONE"
  proof -
    have r1: "reserve_execution_slots ?n (nd_slots nd) est_empty = (PBSE_NONE, st, es)" using r t by simp
    note c = est.reserve_covers [OF o(2) o(3) o(1) e0 n r1]
    have v: "nd_slots nd' = st" "nd_job_usages nd' = nd_job_usages nd @ [\<lparr>internal_job_id = ji_internal_id pjob, ju_est = es\<rparr>]"
      "jr_est info' = es" "ppn_needed naji' = 0"
      using p r1 e by (auto simp: place_subnodes_in_hostlist_def Let_def split: if_splits)
    show ?thesis unfolding node_ok_def v using c first_free_cong [OF n r1] v by simp
  qed
  show "node_ok nd'" "nslots (nd_slots nd') = nslots (nd_slots nd)" using good fail ok by (cases "rc1 = PBSE_NONE"; simp)+
  show "rc = PBSE_NONE \<Longrightarrow> nd_job_usages nd' = nd_job_usages nd @ [\<lparr>internal_job_id = ji_internal_id pjob, ju_est = jr_est info'\<rparr>] \<and>
      occ (jr_est info') = first_free (nat ?n) (nd_slots nd) \<and> card (occ (jr_est info')) = nat ?n \<and>
      ppn_needed naji' = 0 \<and> get_number_free (nd_slots nd') = get_number_free (nd_slots nd) - ?n" using good rc by blast
qed

text \<open>What releasing a job does: its usages go, and nothing else changes owner.\<close>

lemma remove_loop_spec:
  assumes "node_ok nd"
  shows "node_ok (remove_usage_loop i j nd) \<and>
    nslots (nd_slots (remove_usage_loop i j nd)) = nslots (nd_slots nd) \<and>
    nd_job_usages (remove_usage_loop i j nd) =
      take i (nd_job_usages nd) @ filter (\<lambda>u. internal_job_id u \<noteq> j) (drop i (nd_job_usages nd))"
  using assms
proof (induction i j nd rule: remove_usage_loop.induct)
  case (1 i j nd)
  note ok = "1.prems"
  let ?us = "nd_job_usages nd"
  let ?nd = "nd\<lparr>nd_slots := snd (unreserve_execution_slots (ju_est (?us ! i)) (nd_slots nd)),
        nd_job_usages := take i ?us @ drop (Suc i) ?us, nd_state := nd_state nd AND NOT INUSE_JOB\<rparr>"
  consider (stop) "\<not> i < length ?us" | (hit) "i < length ?us" "internal_job_id (?us ! i) = j"
    | (miss) "i < length ?us" "internal_job_id (?us ! i) \<noteq> j" by blast
  then show ?case
  proof cases
    case stop
    then show ?thesis using ok by (simp add: remove_usage_loop.simps)
  next
    case hit
    from hit(1) have us: "?us = take i ?us @ ?us ! i # drop (Suc i) ?us" by (rule id_take_nth_drop)
    note o = node_okD [OF ok]
    have m: "usages nd = map ju_est (take i ?us) @ ju_est (?us ! i) # map ju_est (drop (Suc i) ?us)"
      using arg_cong [OF us, of "map ju_est"] by (simp only: map_append list.map)
    have c: "covers (map occ (map ju_est (take i ?us) @ ju_est (?us ! i) # map ju_est (drop (Suc i) ?us))) (occ (nd_slots nd))"
      "\<forall>u\<in>set (map ju_est (take i ?us) @ ju_est (?us ! i) # map ju_est (drop (Suc i) ?us)). est_ok u \<and> nslots u \<le> nslots (nd_slots nd)"
      by (rule o(2) [unfolded m], rule o(3) [unfolded m])
    obtain st where st: "unreserve_execution_slots (ju_est (?us ! i)) (nd_slots nd) = (PBSE_NONE, st)"
      "covers (map occ (map ju_est (take i ?us) @ map ju_est (drop (Suc i) ?us))) (occ st)"
      "\<forall>u\<in>set (map ju_est (take i ?us) @ map ju_est (drop (Suc i) ?us)). est_ok u \<and> nslots u \<le> nslots st"
      "est_ok st" "nslots st = nslots (nd_slots nd)"
      by (rule est.unreserve_covers [OF c o(1)])
    have ok': "node_ok ?nd" unfolding node_ok_def using st by simp
    have e: "remove_usage_loop i j nd = remove_usage_loop i j ?nd"
      using hit by (subst remove_usage_loop.simps) (simp add: Let_def)
    have d: "filter (\<lambda>u. internal_job_id u \<noteq> j) (drop i ?us) = filter (\<lambda>u. internal_job_id u \<noteq> j) (drop (Suc i) ?us)"
      using hit by (simp add: Cons_nth_drop_Suc [symmetric])
    show ?thesis unfolding e d using "1.IH"(1) [OF hit(1) refl hit(2) ok'] hit(1) st by (simp add: min_def)
  next
    case miss
    have e: "remove_usage_loop i j nd = remove_usage_loop (Suc i) j nd"
      using miss by (subst remove_usage_loop.simps) (simp add: Let_def)
    have d: "take (Suc i) ?us @ filter (\<lambda>u. internal_job_id u \<noteq> j) (drop (Suc i) ?us) =
        take i ?us @ filter (\<lambda>u. internal_job_id u \<noteq> j) (drop i ?us)"
      using miss by (simp add: Cons_nth_drop_Suc [symmetric] take_Suc_conv_app_nth)
    show ?thesis unfolding e using "1.IH"(2) [OF miss(1) refl miss(2) ok] d by simp
  qed
qed

lemma remove_spec:
  assumes "node_ok nd"
  shows "node_ok (remove_job_from_node nd j)"
    and "nslots (nd_slots (remove_job_from_node nd j)) = nslots (nd_slots nd)"
    and "nd_job_usages (remove_job_from_node nd j) = filter (\<lambda>u. internal_job_id u \<noteq> j) (nd_job_usages nd)"
  unfolding remove_job_from_node_def using remove_loop_spec [OF assms, of 0 j] by simp_all

end
