(* ===== verification/Node_Props.thy ===== *)
theory Node_Props
  imports Node_Slots
begin

unbundle bit_operations_syntax

text \<open>
  Properties of the slots of a node.  The abstract view of a node is the map from slots to the job that
  holds them: placing a job and removing it are the two obvious updates of that map.  The invariant holds
  in every state that the operations reach from a new node.
\<close>

section \<open>The owner of a slot\<close>

definition owner :: "pbsnode \<Rightarrow> nat \<Rightarrow> int option" where
  "owner nd i = map_option internal_job_id (find (\<lambda>u. is_occupied (int i) (ju_est u)) (nd_job_usages nd))"

definition spec_take :: "int \<Rightarrow> nat set \<Rightarrow> (nat \<Rightarrow> int option) \<Rightarrow> nat \<Rightarrow> int option" where
  "spec_take j S m = (\<lambda>i. if i \<in> S then Some j else m i)"

definition spec_release :: "int \<Rightarrow> (nat \<Rightarrow> int option) \<Rightarrow> nat \<Rightarrow> int option" where
  "spec_release j m = (\<lambda>i. if m i = Some j then None else m i)"

definition spec_first :: "nat \<Rightarrow> nat \<Rightarrow> (nat \<Rightarrow> int option) \<Rightarrow> nat set" where
  "spec_first n sz m = set (take n (filter (\<lambda>i. m i = None) [0..<sz]))"

lemma is_occupied_occ [simp]: "is_occupied (int i) t \<longleftrightarrow> i \<in> occ t"
  by (auto simp: is_occupied_def occ_def)

lemma find_filter: "find P xs = (case filter P xs of [] \<Rightarrow> None | x # _ \<Rightarrow> Some x)"
  by (induction xs) auto

lemma node_holder:
  assumes "node_ok nd"
  shows "length (filter (\<lambda>u. i \<in> occ (ju_est u)) (nd_job_usages nd)) = (if i \<in> occ (nd_slots nd) then 1 else 0)"
  using node_okD(2) [OF assms] by (simp add: covers_def filter_map comp_def)

lemma owner_None: "node_ok nd \<Longrightarrow> owner nd i = None \<longleftrightarrow> i \<notin> occ (nd_slots nd)"
  using node_holder [of nd i] by (auto simp: owner_def find_filter split: list.splits if_splits)

lemma free_list_owner: "node_ok nd \<Longrightarrow> free_list (nd_slots nd) = filter (\<lambda>i. owner nd i = None) [0..<nslots (nd_slots nd)]"
  by (simp add: free_list_def owner_None)

lemma owner_snoc:
  assumes "node_ok nd'" and "nd_job_usages nd' = nd_job_usages nd @ [u]"
  shows "owner nd' = spec_take (internal_job_id u) (occ (ju_est u)) (owner nd)"
proof
  fix i
  have "length (filter (\<lambda>u. i \<in> occ (ju_est u)) (nd_job_usages nd)) + (if i \<in> occ (ju_est u) then 1 else 0) \<le> 1"
    using node_holder [OF assms(1), of i] assms(2) by (auto split: if_splits)
  then show "owner nd' i = spec_take (internal_job_id u) (occ (ju_est u)) (owner nd) i"
    unfolding owner_def assms(2) by (auto simp: find_filter spec_take_def split: list.splits if_splits)
qed

lemma owner_filter:
  assumes "node_ok nd" and "nd_job_usages nd' = filter (\<lambda>u. internal_job_id u \<noteq> j) (nd_job_usages nd)"
  shows "owner nd' = spec_release j (owner nd)"
proof
  fix i
  let ?P = "\<lambda>u. i \<in> occ (ju_est u)"
  have f: "filter ?P (nd_job_usages nd') = filter (\<lambda>u. internal_job_id u \<noteq> j) (filter ?P (nd_job_usages nd))"
    unfolding assms(2) by (simp add: conj_commute)
  consider "filter ?P (nd_job_usages nd) = []" | u where "filter ?P (nd_job_usages nd) = [u]"
    using node_holder [OF assms(1), of i] by (cases "filter ?P (nd_job_usages nd)") (auto split: if_splits)
  then show "owner nd' i = spec_release j (owner nd) i"
    by cases (use f in \<open>simp_all add: owner_def find_filter spec_release_def\<close>)
qed

text \<open>
  C14: placing and removing a job refine updates of the map from slots to owners.  A placement gives the
  job the lowest free slots when there are enough and otherwise changes nothing; a removal takes the
  job's slots, and only these, away from it; both keep the node consistent.
\<close>

theorem node_refines_owner_map:
  assumes "node_ok nd" and "0 \<le> ppn_needed naji"
    and "place_subnodes_in_hostlist excl pjob nd naji job_reservation_info_new [] = (rc, nd', naji', info)"
  shows "owner nd' =
      (if ppn_needed naji \<le> get_number_free (nd_slots nd)
       then spec_take (ji_internal_id pjob) (spec_first (nat (ppn_needed naji)) (nslots (nd_slots nd)) (owner nd)) (owner nd)
       else owner nd) \<and>
    owner (remove_job_from_node nd j) = spec_release j (owner nd) \<and> node_ok nd' \<and> node_ok (remove_job_from_node nd j)"
proof (intro conjI)
  have e: "jr_est job_reservation_info_new = est_empty" by (simp add: job_reservation_info_new_def)
  note p = place_spec [OF assms(1,2) e assms(3)]
  show "node_ok nd'" by (rule p(1))
  show "node_ok (remove_job_from_node nd j)" by (rule remove_spec(1) [OF assms(1)])
  show "owner (remove_job_from_node nd j) = spec_release j (owner nd)"
    by (rule owner_filter [OF assms(1) remove_spec(3) [OF assms(1)]])
  show "owner nd' = (if ppn_needed naji \<le> get_number_free (nd_slots nd)
       then spec_take (ji_internal_id pjob) (spec_first (nat (ppn_needed naji)) (nslots (nd_slots nd)) (owner nd)) (owner nd)
       else owner nd)"
  proof (cases "rc = PBSE_NONE")
    case True
    have f: "first_free (nat (ppn_needed naji)) (nd_slots nd) = spec_first (nat (ppn_needed naji)) (nslots (nd_slots nd)) (owner nd)"
      by (simp add: first_free_def spec_first_def free_list_owner [OF assms(1)])
    show ?thesis using owner_snoc [OF p(1)] p(4) [OF True] p(3) True f by simp
  next
    case False
    then show ?thesis using p(3) p(5) by simp
  qed
qed

text \<open>A node with three slots and no job, and a job that wants two of them.\<close>

definition demo_node :: pbsnode where
  "demo_node = \<lparr>nd_name = ''n1'', nd_id = 7, nd_mom_rm_port = 15003, nd_flag = okay, nd_properties = [''n1''],
     nd_state = INUSE_FREE, nd_power_state = POWER_STATE_RUNNING, nd_order = 0, nd_slots = est_of_size 3,
     nd_job_usages = [], nd_np_to_be_used = 0, nd_ngpus = 0, nd_gpus_real = False, nd_gpusn = [], nd_ngpus_free = 0,
     nd_ngpus_to_be_used = 0, nd_nmics = 1, nd_micjobids = [- 1], nd_nmics_free = 1, nd_nmics_to_be_used = 0\<rparr>"

definition demo_job :: run_job where
  "demo_job = \<lparr>ji_internal_id = 42, atr_node_exclusive = 0, atr_exec_host = None, atr_exec_gpus = None, atr_login_node_id = None,
     svflg_has_nodes = False\<rparr>"

definition demo_naji :: node_job_add_info where
  "demo_naji = \<lparr>naji_node_id = 7, ppn_needed = 2, gpu_needed = 0, mic_needed = 1, is_external = 0, req_order = 0, req_index = 0\<rparr>"

lemma demo_slots: "nd_slots demo_node = \<lparr>slots = [FREE, FREE, FREE], open_count = 3\<rparr>"
  by (simp add: demo_node_def est_of_size_def eval_nat_numeral est_empty_def add_execution_slot_def)

lemma demo_node_ok: "node_ok demo_node"
  unfolding node_ok_def demo_slots by (simp add: demo_node_def est_ok_def occ_def nth_Cons')

lemma demo_place:
  "place_subnodes_in_hostlist False demo_job demo_node demo_naji job_reservation_info_new [] =
    (PBSE_NONE,
     demo_node\<lparr>nd_slots := \<lparr>slots = [OCCUPIED, OCCUPIED, FREE], open_count = 1\<rparr>,
       nd_job_usages := [\<lparr>internal_job_id = 42, ju_est = \<lparr>slots = [OCCUPIED, OCCUPIED, FREE], open_count = 1\<rparr>\<rparr>],
       nd_np_to_be_used := - 2\<rparr>,
     demo_naji\<lparr>ppn_needed := 0\<rparr>,
     \<lparr>jr_node_id = 7, jr_port = 15003, jr_est = \<lparr>slots = [OCCUPIED, OCCUPIED, FREE], open_count = 1\<rparr>\<rparr>)"
  unfolding place_subnodes_in_hostlist_def demo_slots reserve_execution_slots_def
  by (simp add: demo_node_def demo_naji_def demo_job_def job_reservation_info_new_def est_empty_def reserve_loop.simps
      grow_to.simps get_total_execution_slots_def add_execution_slot_def mark_as_used_def get_number_free_def)

theorem node_refines_owner_map_witness:
  "\<exists>nd'. fst (snd (place_subnodes_in_hostlist False demo_job demo_node demo_naji job_reservation_info_new [])) = nd' \<and>
     owner nd' = spec_take 42 (spec_first 2 3 (owner demo_node)) (owner demo_node) \<and> owner nd' 1 = Some 42 \<and>
     owner (remove_job_from_node nd' 42) 1 = None \<and> node_ok nd'"
proof -
  let ?nd = "fst (snd (place_subnodes_in_hostlist False demo_job demo_node demo_naji job_reservation_info_new []))"
  note p = node_refines_owner_map [OF demo_node_ok _ demo_place]
  have n: "0 \<le> ppn_needed demo_naji" by (simp add: demo_naji_def)
  have v: "get_number_free (nd_slots demo_node) = 3" "nslots (nd_slots demo_node) = 3" "ppn_needed demo_naji = 2" "ji_internal_id demo_job = 42"
    by (simp_all add: demo_slots get_number_free_def nslots_def demo_naji_def demo_job_def)
  have 1: "owner ?nd = spec_take 42 (spec_first 2 3 (owner demo_node)) (owner demo_node)" "node_ok ?nd"
    using p [OF n] v by (simp_all add: demo_place)
  have o: "owner demo_node i = None" for i by (simp add: owner_def demo_node_def)
  have 2: "owner ?nd 1 = Some 42" unfolding 1 by (simp add: spec_take_def spec_first_def o eval_nat_numeral)
  have "0 \<le> ppn_needed (demo_naji\<lparr>ppn_needed := 0\<rparr>)" by simp
  moreover obtain rc2 nd2 naji2 info2 where
    "place_subnodes_in_hostlist False demo_job ?nd (demo_naji\<lparr>ppn_needed := 0\<rparr>) job_reservation_info_new [] = (rc2, nd2, naji2, info2)"
    by (metis prod.exhaust)
  ultimately have "owner (remove_job_from_node ?nd 42) = spec_release 42 (owner ?nd)"
    using node_refines_owner_map [OF 1(2)] by blast
  then have "owner (remove_job_from_node ?nd 42) 1 = None" using 2 by (simp add: spec_release_def)
  then show ?thesis using 1 2 by blast
qed

section \<open>Requests with a bitmap of cores\<close>

text \<open>The cores a reversed bitmap asks for, counted from \<open>i\<close>.\<close>

fun bm_set :: "nat \<Rightarrow> char list \<Rightarrow> nat set" where
  "bm_set i [] = {}"
| "bm_set i (c # cs) = (if c = CHR ''1'' then {i} else {}) \<union> bm_set (Suc i) cs"

lemma bm_set_ge: "k \<in> bm_set i cs \<Longrightarrow> i \<le> k"
  by (induction cs arbitrary: i) (auto split: if_splits intro: Suc_leD)

lemma bm_set_mem: "k \<in> bm_set i cs \<longleftrightarrow> i \<le> k \<and> k - i < length cs \<and> cs ! (k - i) = CHR ''1''"
proof (induction cs arbitrary: i)
  case (Cons c cs)
  show ?case
  proof (cases "k = i")
    case True
    then show ?thesis using bm_set_ge [of i "Suc i" cs] by auto
  next
    case False
    then have "i \<le> k \<longleftrightarrow> Suc i \<le> k" "i \<le> k \<Longrightarrow> k - i = Suc (k - Suc i)" by auto
    then show ?thesis using False Cons.IH [of "Suc i"] by auto
  qed
qed simp

lemma satisfies_loop_step:
  "satisfies_loop (int i) (c # cs) st \<longleftrightarrow> i < nslots st \<and> (c = CHR ''1'' \<longrightarrow> i \<notin> occ st) \<and> satisfies_loop (int (Suc i)) cs st"
  by (simp add: slot_simps add.commute)

lemma satisfies_loop_set:
  "satisfies_loop (int i) cs st \<longleftrightarrow> (cs = [] \<or> i + length cs \<le> nslots st) \<and> bm_set i cs \<inter> occ st = {}"
proof (induction cs arbitrary: i)
  case (Cons c cs)
  show ?case unfolding satisfies_loop_step Cons.IH by (cases cs) auto
qed simp

lemma reserve_slot_ok:
  assumes "i < nslots st" and "nslots est \<le> nslots st"
  shows "reserve_execution_slot (int i) st est =
    (PBSE_NONE, snd (mark_as_used (int i) st), snd (mark_as_used (int i) (grow_to (int (nslots st)) est)))"
  using assms by (simp add: reserve_execution_slot_def slot_simps mark_used_rc case_prod_beta)

lemma reserve_bm_spec:
  assumes "satisfies_loop (int i) cs st" and "est_ok st" and "est_ok est" and "nslots est \<le> nslots st"
  obtains st' est' where "reserve_bm_loop (int i) cs st est = (True, st', est')" and "occ st' = occ st \<union> bm_set i cs"
    and "occ est' = occ est \<union> bm_set i cs" and "est_ok st'" and "est_ok est'" and "nslots st' = nslots st" and "nslots est' \<le> nslots st"
  using assms
proof (induction cs arbitrary: i st est thesis)
  case Nil
  then show ?case by simp
next
  case (Cons c cs)
  have s: "i < nslots st" "i + length (c # cs) \<le> nslots st" "bm_set i (c # cs) \<inter> occ st = {}" using Cons.prems(2) unfolding satisfies_loop_set by auto
  have i1: "int i + 1 = int (Suc i)" by simp
  show ?case
  proof (cases "c = CHR ''1''")
    case True
    let ?st = "snd (mark_as_used (int i) st)" and ?est = "snd (mark_as_used (int i) (grow_to (int (nslots st)) est))"
    have v: "nslots ?st = nslots st" "occ ?st = insert i (occ st)" "occ ?est = insert i (occ est)" "nslots ?est = nslots st"
      "est_ok ?st" "est_ok ?est"
      using s Cons.prems(3-5) by (simp_all add: slot_simps max_def)
    have "satisfies_loop (int (Suc i)) cs ?st"
      unfolding satisfies_loop_set v using s bm_set_ge [of i "Suc i" cs] by auto
    from Cons.IH [OF _ this v(5,6)] v obtain st' est' where
      "reserve_bm_loop (int (Suc i)) cs ?st ?est = (True, st', est')" "occ st' = occ ?st \<union> bm_set (Suc i) cs"
      "occ est' = occ ?est \<union> bm_set (Suc i) cs" "est_ok st'" "est_ok est'" "nslots st' = nslots ?st" "nslots est' \<le> nslots ?st"
      by auto
    then show ?thesis using True s v reserve_slot_ok [OF s(1) Cons.prems(5)]
      by (intro Cons.prems(1) [of st' est']) (auto simp: slot_simps i1)
  next
    case False
    have "satisfies_loop (int (Suc i)) cs st" using s unfolding satisfies_loop_set by auto
    from Cons.IH [OF _ this Cons.prems(3-5)] obtain st' est' where
      "reserve_bm_loop (int (Suc i)) cs st est = (True, st', est')" "occ st' = occ st \<union> bm_set (Suc i) cs"
      "occ est' = occ est \<union> bm_set (Suc i) cs" "est_ok st'" "est_ok est'" "nslots st' = nslots st" "nslots est' \<le> nslots st"
      by auto
    then show ?thesis using False s by (intro Cons.prems(1) [of st' est']) (auto simp: slot_simps i1)
  qed
qed

text \<open>The cores that a bitmap asks for: its last character is core 0.\<close>

definition bitmap_cores :: "char list \<Rightarrow> nat set" where
  "bitmap_cores bm = {i. i < length bm \<and> bm ! (length bm - 1 - i) = CHR ''1''}"

lemma bitmap_cores_bm_set: "bitmap_cores bm = bm_set 0 (rev bm)"
  by (auto simp: bitmap_cores_def bm_set_mem rev_nth)

lemma place_bitmap_spec:
  assumes ok: "node_ok nd" and s: "node_satisfies_request nd bm = 1" and e: "jr_est info = est_empty"
    and p: "place_subnodes_in_hostlist excl pjob nd naji info bm = (rc, nd', naji', info')"
  shows "rc = PBSE_NONE \<and> node_ok nd' \<and> owner nd' = spec_take (ji_internal_id pjob) (bitmap_cores bm) (owner nd) \<and>
    bitmap_cores bm \<inter> occ (nd_slots nd) = {} \<and> nslots (nd_slots nd') = nslots (nd_slots nd) \<and> nd_state nd' = INUSE_JOB"
proof -
  have bm: "bm \<noteq> []" and l: "satisfies_loop (int 0) (rev bm) (nd_slots nd)"
    using s by (auto simp: node_satisfies_request_def BM_ERROR_def split: if_splits)
  note o = node_okD [OF ok]
  obtain st est where r: "reserve_bm_loop (int 0) (rev bm) (nd_slots nd) est_empty = (True, st, est)"
    "occ st = occ (nd_slots nd) \<union> bm_set 0 (rev bm)" "occ est = occ est_empty \<union> bm_set 0 (rev bm)" "est_ok st" "est_ok est"
    "nslots st = nslots (nd_slots nd)" "nslots est \<le> nslots (nd_slots nd)"
    by (rule reserve_bm_spec [OF l o(1), of est_empty]) (auto simp: slot_simps)
  have d: "occ est = bitmap_cores bm" "bitmap_cores bm \<inter> occ (nd_slots nd) = {}"
    using r(3) l unfolding satisfies_loop_set bitmap_cores_bm_set by (auto simp: slot_simps)
  have v: "rc = PBSE_NONE" "nd_slots nd' = st" "nd_state nd' = INUSE_JOB"
    "nd_job_usages nd' = nd_job_usages nd @ [\<lparr>internal_job_id = ji_internal_id pjob, ju_est = est\<rparr>]"
    using p bm r(1) e by (auto simp: place_subnodes_in_hostlist_def reserve_node_def Let_def)
  have ok': "node_ok nd'" unfolding node_ok_def v
    using r o covers_add [OF o(2), of "occ est"] d by (auto simp: bitmap_cores_bm_set Un_commute)
  show ?thesis using v ok' owner_snoc [OF ok' v(4)] d r(6) by simp
qed



section \<open>Every reachable node is consistent\<close>

lemma gpu_loop_slots:
  assumes "place_gpus_loop md pjob gns nd n l = (gns', nd', r)"
  shows "nd_slots nd' = nd_slots nd \<and> nd_job_usages nd' = nd_job_usages nd"
  using assms
proof (induction gns arbitrary: gns' nd n l)
  case (Cons gn gns)
  obtain nd1 gn1 where a: "add_job_to_gpu_subnode nd gn pjob = (nd1, gn1)" by (metis prod.exhaust)
  then have s: "nd_slots nd1 = nd_slots nd" "nd_job_usages nd1 = nd_job_usages nd" by (auto simp: add_job_to_gpu_subnode_def)
  show ?case using Cons.prems Cons.IH [of nd] Cons.IH [of nd1] a s
    by (simp split: if_splits prod.splits)
qed simp

lemma mic_loop_slots:
  assumes "place_mics_loop k i pjob nd n l = (nd', r)"
  shows "nd_slots nd' = nd_slots nd \<and> nd_job_usages nd' = nd_job_usages nd"
  using assms
proof (induction k arbitrary: i nd n l)
  case (Suc k)
  obtain rc nd1 where a: "add_job_to_mic nd i pjob = (rc, nd1)" by (metis prod.exhaust)
  then have s: "nd_slots nd1 = nd_slots nd" "nd_job_usages nd1 = nd_job_usages nd" by (auto simp: add_job_to_mic_def split: if_splits)
  show ?case using Suc.prems Suc.IH [where nd = nd1] a s by (auto split: if_splits)
qed simp

inductive node_reach :: "pbsnode \<Rightarrow> bool" where
  new: "nd_slots nd = est_empty \<Longrightarrow> nd_job_usages nd = [] \<Longrightarrow> node_reach nd"
| mark: "node_reach nd \<Longrightarrow> save_node_for_adding naji_list nd req first ext rank = (l, nd') \<Longrightarrow> node_reach nd'"
| place: "node_reach nd \<Longrightarrow> 0 \<le> ppn_needed naji \<Longrightarrow> bm = [] \<or> node_satisfies_request nd bm = 1 \<Longrightarrow>
    place_subnodes_in_hostlist excl pjob nd naji job_reservation_info_new bm = (rc, nd', naji', info) \<Longrightarrow> node_reach nd'"
| gpus: "node_reach nd \<Longrightarrow> place_gpus_in_hostlist md nd pjob naji l = (nd', naji', l') \<Longrightarrow> node_reach nd'"
| mics: "node_reach nd \<Longrightarrow> place_mics_in_hostlist nd pjob naji l = (nd', naji', l') \<Longrightarrow> node_reach nd'"
| remove: "node_reach nd \<Longrightarrow> node_reach (remove_job_from_node nd j)"
| remove_gpus: "node_reach nd \<Longrightarrow> node_reach (remove_job_from_nodes_gpus nd pjob)"
| remove_mics: "node_reach nd \<Longrightarrow> node_reach (remove_job_from_nodes_mics nd pjob)"
| grow: "node_reach nd \<Longrightarrow> node_reach (node_add_execution_slot excl nd)"

lemma reach_node_ok: "node_reach nd \<Longrightarrow> node_ok nd"
proof (induction rule: node_reach.induct)
  case (new nd)
  then show ?case by (simp add: node_ok_def slot_simps)
next
  case (mark nd naji_list req first ext rank l nd')
  then have "nd_slots nd' = nd_slots nd \<and> nd_job_usages nd' = nd_job_usages nd"
    by (auto simp: save_node_for_adding_def Let_def)
  with mark.IH show ?case by (simp add: node_ok_def)
next
  case (place nd naji bm excl pjob rc nd' naji' info)
  have e: "jr_est job_reservation_info_new = est_empty" by (simp add: job_reservation_info_new_def)
  show ?case
  proof (cases "bm = []")
    case True
    then show ?thesis using place_spec(1) [OF place.IH place.hyps(2) e] place.hyps(4) by blast
  next
    case False
    then show ?thesis using place_bitmap_spec [OF place.IH _ e place.hyps(4)] place.hyps(3) by simp
  qed
next
  case (gpus nd md pjob naji l nd' naji' l')
  then have "nd_slots nd' = nd_slots nd \<and> nd_job_usages nd' = nd_job_usages nd"
    by (auto simp: place_gpus_in_hostlist_def Let_def dest!: gpu_loop_slots split: prod.splits)
  with gpus.IH show ?case by (simp add: node_ok_def)
next
  case (mics nd pjob naji l nd' naji' l')
  then have "nd_slots nd' = nd_slots nd \<and> nd_job_usages nd' = nd_job_usages nd"
    by (auto simp: place_mics_in_hostlist_def dest!: mic_loop_slots split: prod.splits)
  with mics.IH show ?case by (simp add: node_ok_def)
next
  case (remove nd j)
  show ?case by (rule remove_spec(1) [OF remove.IH])
next
  case (remove_gpus nd pjob)
  then show ?case by (simp add: remove_job_from_nodes_gpus_def Let_def node_ok_def split: option.splits)
next
  case (remove_mics nd pjob)
  then show ?case by (simp add: remove_job_from_nodes_mics_def Let_def node_ok_def)
next
  case (grow nd excl)
  let ?nd = "node_add_execution_slot excl nd"
  have "nd_slots ?nd = add_execution_slot (nd_slots nd)" "nd_job_usages ?nd = nd_job_usages nd"
    by (simp_all add: node_add_execution_slot_def Let_def)
  then show ?case using grow.IH by (simp add: node_ok_def slot_simps le_SucI)
qed

text \<open>
  C15: in every state that marking, placing (with or without a bitmap), removing and growing reach from a
  new node, every occupied slot is held by exactly one job usage and every free slot by none, the number
  of free slots is exact, and a node whose jobs are all gone is completely free.
\<close>

theorem node_slots_consistent:
  assumes "node_reach nd"
  shows "length (filter (\<lambda>u. is_occupied (int i) (ju_est u)) (nd_job_usages nd)) = (if is_occupied (int i) (nd_slots nd) then 1 else 0) \<and>
    get_number_free (nd_slots nd) = get_total_execution_slots (nd_slots nd) - int (card {i. is_occupied (int i) (nd_slots nd)}) \<and>
    (nd_job_usages nd = [] \<longrightarrow> get_number_free (nd_slots nd) = get_total_execution_slots (nd_slots nd))"
proof (intro conjI impI)
  note ok = reach_node_ok [OF assms]
  show "length (filter (\<lambda>u. is_occupied (int i) (ju_est u)) (nd_job_usages nd)) = (if is_occupied (int i) (nd_slots nd) then 1 else 0)"
    using node_holder [OF ok] by simp
  show f: "get_number_free (nd_slots nd) = get_total_execution_slots (nd_slots nd) - int (card {i. is_occupied (int i) (nd_slots nd)})"
    using node_okD(1) [OF ok] by (simp add: get_number_free_def est_ok_def get_total_execution_slots_def)
  assume "nd_job_usages nd = []"
  then have "occ (nd_slots nd) = {}" using node_okD(2) [OF ok] by simp
  then show "get_number_free (nd_slots nd) = get_total_execution_slots (nd_slots nd)" using f by simp
qed

theorem node_slots_consistent_witness:
  "\<exists>nd. nd = node_add_execution_slot False (demo_node\<lparr>nd_slots := est_empty\<rparr>) \<and> nd_job_usages nd = [] \<and>
     get_number_free (nd_slots nd) = 1 \<and> get_number_free (nd_slots nd) = get_total_execution_slots (nd_slots nd)"
proof -
  let ?nd = "node_add_execution_slot False (demo_node\<lparr>nd_slots := est_empty\<rparr>)"
  have r: "node_reach ?nd" by (intro node_reach.grow node_reach.new) (simp_all add: demo_node_def)
  have u: "nd_job_usages ?nd = []" by (simp add: node_add_execution_slot_def Let_def demo_node_def)
  have "get_number_free (nd_slots ?nd) = 1"
    by (simp add: node_add_execution_slot_def Let_def get_number_free_def add_execution_slot_def est_empty_def)
  then show ?thesis using node_slots_consistent [OF r] u by blast
qed

end
