(* ===== verification/Node_Accept.thy ===== *)
theory Node_Accept
  imports Node_Props
begin

unbundle bit_operations_syntax

text \<open>
  Acceptance and placement fit together: a node that is accepted for a request has room for it.  Two
  properties are about bookkeeping that goes wrong: the marks of the MICs, and the number of slots of a
  node that is lowered while a job runs on it.
\<close>

section \<open>An accepted node has room\<close>

definition gpu_free :: "gpusubn \<Rightarrow> bool" where
  "gpu_free gn \<longleftrightarrow> \<not> inuse gn \<and> gpu_state gn \<noteq> gpu_unavailable"

lemma place_gpus_loop_needed:
  assumes "0 \<le> n" and "place_gpus_loop md pjob gns nd n l = (gns', nd', n', l')"
  shows "n' = max 0 (n - int (length (filter gpu_free gns))) \<and>
    nd_ngpus_to_be_used nd' = nd_ngpus_to_be_used nd - (n - n') \<and>
    nd_micjobids nd' = nd_micjobids nd \<and> nd_nmics nd' = nd_nmics nd \<and> nd_nmics_to_be_used nd' = nd_nmics_to_be_used nd \<and>
    nd_nmics_free nd' = nd_nmics_free nd"
  using assms
proof (induction gns arbitrary: gns' nd n l)
  case (Cons gn gns)
  obtain nd1 gn1 where a: "add_job_to_gpu_subnode nd gn pjob = (nd1, gn1)" by (metis prod.exhaust)
  then have s: "nd_ngpus_to_be_used nd1 = nd_ngpus_to_be_used nd - 1" "nd_micjobids nd1 = nd_micjobids nd"
    "nd_nmics nd1 = nd_nmics nd" "nd_nmics_to_be_used nd1 = nd_nmics_to_be_used nd" "nd_nmics_free nd1 = nd_nmics_free nd"
    by (auto simp: add_job_to_gpu_subnode_def)
  consider (none) "n = 0" | (free) "n > 0" "gpu_free gn" | (busy) "n > 0" "\<not> gpu_free gn" using Cons.prems(1) by linarith
  then show ?case
  proof cases
    case none
    then show ?thesis using Cons.prems by simp
  next
    case free
    obtain g2 where "place_gpus_loop md pjob gns nd1 (n - 1) (add_gpu_to_hostlist l gn1 nd1) = (g2, nd', n', l')"
      using Cons.prems(2) free a by (auto simp: gpu_free_def split: prod.splits)
    from Cons.IH [OF _ this] free s show ?thesis by auto
  next
    case busy
    obtain g2 where "place_gpus_loop md pjob gns nd n l = (g2, nd', n', l')"
      using Cons.prems(2) busy by (auto simp: gpu_free_def split: prod.splits)
    from Cons.IH [OF _ this] busy show ?thesis by auto
  qed
qed simp

lemma place_mics_loop_needed:
  assumes "0 \<le> n" and "i + k \<le> length (nd_micjobids nd)" and "place_mics_loop k i pjob nd n l = (nd', n', l')"
  shows "n' = max 0 (n - int (length (filter (\<lambda>x. x = - 1) (take k (drop i (nd_micjobids nd)))))) \<and>
    nd_nmics_to_be_used nd' = nd_nmics_to_be_used nd - (n - n') \<and> nd_nmics_free nd' = nd_nmics_free nd - (n - n') \<and>
    nd_ngpus_to_be_used nd' = nd_ngpus_to_be_used nd"
  using assms
proof (induction k arbitrary: i nd n l)
  case (Suc k)
  let ?ids = "nd_micjobids nd"
  have d: "take (Suc k) (drop i ?ids) = ?ids ! i # take k (drop (Suc i) ?ids)"
    using Suc.prems(2) by (simp add: Cons_nth_drop_Suc [symmetric])
  consider (none) "n = 0" | (free) "n > 0" "?ids ! i = - 1" | (busy) "n > 0" "?ids ! i \<noteq> - 1" using Suc.prems(1) by linarith
  then show ?case
  proof cases
    case none
    then show ?thesis using Suc.prems by simp
  next
    case free
    let ?nd = "snd (add_job_to_mic nd i pjob)"
    have v: "nd_micjobids ?nd = ?ids[i := ji_internal_id pjob]" "nd_nmics_to_be_used ?nd = nd_nmics_to_be_used nd - 1"
      "nd_nmics_free ?nd = nd_nmics_free nd - 1" "fst (add_job_to_mic nd i pjob) = PBSE_NONE" "nd_ngpus_to_be_used ?nd = nd_ngpus_to_be_used nd"
      using free by (simp_all add: add_job_to_mic_def)
    have r: "place_mics_loop k (Suc i) pjob ?nd (n - 1) (add_mic_to_list l ?nd i) = (nd', n', l')"
      using Suc.prems(3) free v(4) by (simp add: case_prod_beta)
    have n: "0 \<le> n - 1" using free by simp
    have le: "Suc i + k \<le> length (nd_micjobids ?nd)" using Suc.prems(2) v by simp
    show ?thesis using Suc.IH [OF n le r] free v d by simp
  next
    case busy
    then have r: "place_mics_loop k (Suc i) pjob nd n l = (nd', n', l')" using Suc.prems(3) by (simp add: add_job_to_mic_def)
    have le: "Suc i + k \<le> length ?ids" using Suc.prems(2) by simp
    show ?thesis using Suc.IH [OF Suc.prems(1) le r] busy d by simp
  qed
qed simp

text \<open>
  The bookkeeping of GPUs and MICs that acceptance relies on: the vectors have the announced sizes, the
  number of free MICs is right, and the marks count what is still to be placed.
\<close>

definition devices_ok :: "pbsnode \<Rightarrow> bool" where
  "devices_ok nd \<longleftrightarrow> nd_ngpus nd = int (length (nd_gpusn nd)) \<and> nd_nmics nd = int (length (nd_micjobids nd)) \<and>
     nd_nmics_free nd = int (length (filter (\<lambda>x. x = - 1) (nd_micjobids nd))) \<and>
     0 \<le> nd_np_to_be_used nd \<and> 0 \<le> nd_ngpus_to_be_used nd \<and> 0 \<le> nd_nmics_to_be_used nd"

definition spec_nonneg :: "single_spec_data \<Rightarrow> bool" where
  "spec_nonneg spec \<longleftrightarrow> 0 \<le> spec_ppn spec \<and> 0 \<le> spec_gpu spec \<and> 0 \<le> spec_mic spec"

text \<open>Marking a node for a request and placing the job on it, as \<open>build_hostlist_nodes_req\<close> does.\<close>

definition mark_and_place ::
  "bool \<Rightarrow> gpmodeit option \<Rightarrow> run_job \<Rightarrow> pbsnode \<Rightarrow> single_spec_data \<Rightarrow> pbse \<times> pbsnode \<times> node_job_add_info" where
  "mark_and_place excl md pjob pnode spec =
     (case save_node_for_adding [] pnode spec (- 1) 0 0 of
        (l, pnode) \<Rightarrow>
          (case place_subnodes_in_hostlist excl pjob pnode (hd l) job_reservation_info_new [] of
             (rc, pnode, naji, info) \<Rightarrow>
               (case place_gpus_in_hostlist md pnode pjob naji [] of
                  (pnode, naji, gl) \<Rightarrow>
                    (case place_mics_in_hostlist pnode pjob naji [] of
                       (pnode, naji, ml) \<Rightarrow> (rc, pnode, naji)))))"

lemma place_keeps_devices:
  assumes "place_subnodes_in_hostlist excl pjob nd naji info [] = (rc, nd', naji', info')"
  shows "nd_gpusn nd' = nd_gpusn nd" "nd_ngpus nd' = nd_ngpus nd" "nd_nmics nd' = nd_nmics nd" "nd_micjobids nd' = nd_micjobids nd"
    "nd_nmics_free nd' = nd_nmics_free nd" "nd_nmics_to_be_used nd' = nd_nmics_to_be_used nd"
    "nd_ngpus_to_be_used nd' = nd_ngpus_to_be_used nd"
    "gpu_needed naji' = gpu_needed naji" "mic_needed naji' = mic_needed naji"
  using assms by (auto simp: place_subnodes_in_hostlist_def Let_def split: if_splits prod.splits)

lemma mark_and_place_spec:
  assumes ok: "node_ok nd" and dev: "nd_ngpus nd = int (length (nd_gpusn nd))" "nd_nmics nd = int (length (nd_micjobids nd))"
    and sp: "spec_nonneg spec" and m: "mark_and_place excl md pjob nd spec = (rc, nd', naji)"
  shows "rc = PBSE_NONE \<longleftrightarrow> spec_ppn spec \<le> get_number_free (nd_slots nd)"
    and "rc = PBSE_NONE \<Longrightarrow> ppn_needed naji = 0"
    and "gpu_needed naji = max 0 (spec_gpu spec - int (length (filter gpu_free (nd_gpusn nd))))"
    and "mic_needed naji = max 0 (spec_mic spec - int (length (filter (\<lambda>x. x = - 1) (nd_micjobids nd))))"
    and "nd_nmics_to_be_used nd' = nd_nmics_to_be_used nd - 2 * spec_mic spec + mic_needed naji"
    and "nd_ngpus_to_be_used nd' = nd_ngpus_to_be_used nd + gpu_needed naji"
    and "nd_nmics_free nd' = nd_nmics_free nd - (spec_mic spec - mic_needed naji)"
proof -
  obtain l nd1 where 1: "save_node_for_adding [] nd spec (- 1) 0 0 = (l, nd1)" by (metis prod.exhaust)
  then have n1: "hd l = \<lparr>naji_node_id = nd_id nd, ppn_needed = spec_ppn spec, gpu_needed = spec_gpu spec, mic_needed = spec_mic spec,
        is_external = 0, req_order = 0, req_index = 0\<rparr>"
    and d1: "nd_slots nd1 = nd_slots nd" "nd_job_usages nd1 = nd_job_usages nd" "nd_gpusn nd1 = nd_gpusn nd" "nd_ngpus nd1 = nd_ngpus nd"
      "nd_nmics nd1 = nd_nmics nd" "nd_micjobids nd1 = nd_micjobids nd" "nd_nmics_free nd1 = nd_nmics_free nd"
      "nd_nmics_to_be_used nd1 = nd_nmics_to_be_used nd - spec_mic spec" "nd_ngpus_to_be_used nd1 = nd_ngpus_to_be_used nd + spec_gpu spec"
    by (auto simp: save_node_for_adding_def Let_def)
  obtain rc2 nd2 j2 i2 where 2: "place_subnodes_in_hostlist excl pjob nd1 (hd l) job_reservation_info_new [] = (rc2, nd2, j2, i2)" by (metis prod.exhaust)
  obtain nd3 j3 l3 where 3: "place_gpus_in_hostlist md nd2 pjob j2 [] = (nd3, j3, l3)" by (metis prod.exhaust)
  obtain nd4 j4 l4 where 4: "place_mics_in_hostlist nd3 pjob j3 [] = (nd4, j4, l4)" by (metis prod.exhaust)
  have eq: "rc = rc2" "nd' = nd4" "naji = j4" using m 1 2 3 4 by (simp_all add: mark_and_place_def)
  have ok1: "node_ok nd1" using ok d1(1,2) by (simp add: node_ok_def)
  have e: "jr_est job_reservation_info_new = est_empty" by (simp add: job_reservation_info_new_def)
  have p0: "0 \<le> ppn_needed (hd l)" "0 \<le> gpu_needed (hd l)" "0 \<le> mic_needed (hd l)" using sp n1 by (simp_all add: spec_nonneg_def)
  note p = place_spec [OF ok1 p0(1) e 2] and k = place_keeps_devices [OF 2]
  show "rc = PBSE_NONE \<longleftrightarrow> spec_ppn spec \<le> get_number_free (nd_slots nd)" using p(3) eq n1 d1 by simp
  have k2: "gpu_needed j2 = spec_gpu spec" "mic_needed j2 = spec_mic spec" "nd_gpusn nd2 = nd_gpusn nd" "nd_ngpus nd2 = nd_ngpus nd"
    "nd_nmics nd2 = nd_nmics nd" "nd_micjobids nd2 = nd_micjobids nd" "nd_nmics_free nd2 = nd_nmics_free nd"
    "nd_nmics_to_be_used nd2 = nd_nmics_to_be_used nd - spec_mic spec" "nd_ngpus_to_be_used nd2 = nd_ngpus_to_be_used nd + spec_gpu spec"
    using k d1 n1 by simp_all
  obtain g ndg ng lg where gl: "place_gpus_loop md pjob (nd_gpusn nd) nd2 (spec_gpu spec) [] = (g, ndg, ng, lg)" by (metis prod.exhaust)
  have g3: "nd3 = ndg\<lparr>nd_gpusn := g @ drop (length (nd_gpusn nd)) (nd_gpusn ndg)\<rparr>" "j3 = j2\<lparr>gpu_needed := ng\<rparr>"
    using 3 gl dev(1) k2(1,3,4) by (simp_all add: place_gpus_in_hostlist_def Let_def)
  have g0: "0 \<le> spec_gpu spec" "0 \<le> spec_mic spec" using sp by (simp_all add: spec_nonneg_def)
  note gg = place_gpus_loop_needed [OF g0(1) gl]
  have k3: "nd_ngpus_to_be_used nd3 = nd_ngpus_to_be_used nd + ng" "nd_micjobids nd3 = nd_micjobids nd" "nd_nmics nd3 = nd_nmics nd"
    "nd_nmics_to_be_used nd3 = nd_nmics_to_be_used nd - spec_mic spec" "nd_nmics_free nd3 = nd_nmics_free nd"
    "mic_needed j3 = spec_mic spec" "gpu_needed j3 = ng"
    using gg k2 g3 by simp_all
  obtain ndm nm lm where ml: "place_mics_loop (length (nd_micjobids nd)) 0 pjob nd3 (spec_mic spec) [] = (ndm, nm, lm)" by (metis prod.exhaust)
  have g4: "nd4 = ndm" "j4 = j3\<lparr>mic_needed := nm\<rparr>"
    using 4 ml dev(2) k3(3,6) by (simp_all add: place_mics_in_hostlist_def)
  have "0 + length (nd_micjobids nd) \<le> length (nd_micjobids nd3)" using k3(2) by simp
  note mm = place_mics_loop_needed [OF g0(2) this ml]
  have n4: "ppn_needed naji = ppn_needed j2" "gpu_needed naji = ng" "mic_needed naji = nm" using eq(3) g4(2) g3(2) by simp_all
  show "rc = PBSE_NONE \<Longrightarrow> ppn_needed naji = 0" using p(4) eq(1) n4(1) by simp
  show "gpu_needed naji = max 0 (spec_gpu spec - int (length (filter gpu_free (nd_gpusn nd))))" using n4(2) gg by simp
  show "mic_needed naji = max 0 (spec_mic spec - int (length (filter (\<lambda>x. x = - 1) (nd_micjobids nd))))" using n4(3) mm k3(2) by simp
  show "nd_nmics_to_be_used nd' = nd_nmics_to_be_used nd - 2 * spec_mic spec + mic_needed naji" using eq(2) g4(1) n4(3) mm k3(4) by simp
  show "nd_nmics_free nd' = nd_nmics_free nd - (spec_mic spec - mic_needed naji)" using eq(2) g4(1) n4(3) mm k3(5) by simp
  show "nd_ngpus_to_be_used nd' = nd_ngpus_to_be_used nd + gpu_needed naji" using eq(2) g4(1) n4(2) mm k3(1) by simp
qed

lemma acceptable_facts:
  assumes "node_is_spec_acceptable nd spec [] el ex = (True, nd1, el')"
  shows "nd1 = nd\<lparr>nd_flag := okay\<rparr>" and "spec_ppn spec \<le> get_number_free (nd_slots nd) - nd_np_to_be_used nd"
    and "spec_gpu spec \<le> gpu_count nd1 True - nd_ngpus_to_be_used nd"
    and "spec_mic spec \<le> nd_nmics_free nd - nd_nmics_to_be_used nd"
  using assms by (auto simp: node_is_spec_acceptable_def Let_def split: if_splits)

lemma gpu_count_free: "nd_ngpus nd = int (length (nd_gpusn nd)) \<Longrightarrow> gpu_count nd True \<le> int (length (filter gpu_free (nd_gpusn nd)))"
  unfolding gpu_count_def gpu_free_def by simp


definition demo_spec :: single_spec_data where
  "demo_spec = \<lparr>spec_ppn = 1, spec_gpu = 0, spec_mic = 1, spec_plist = []\<rparr>"

lemma demo_acceptable: "node_is_spec_acceptable demo_node demo_spec [] 0 False = (True, demo_node, 1)"
  unfolding node_is_spec_acceptable_def Let_def
  by (simp add: demo_spec_def hasppn_def gpu_count_def)
     (simp add: demo_node_def demo_slots [unfolded demo_node_def, simplified] get_total_execution_slots_def get_number_free_def INUSE_FREE_def)

lemma demo_devices: "devices_ok demo_node" "spec_nonneg demo_spec"
  by (simp_all add: devices_ok_def demo_node_def demo_spec_def spec_nonneg_def)


text \<open>
  The MIC marks drift.  \<open>save_node_for_adding\<close> subtracts the requested MICs from the marks that it
  adds the slots and GPUs to, and placing them subtracts them again: after a job with \<open>m\<close> MICs is placed the
  GPU marks are back where they were and the MIC marks are \<open>2 * m\<close> too low.  The free MICs that
  \<open>node_is_spec_acceptable\<close> computes afterwards are \<open>m\<close> more than before the job, not \<open>m\<close> fewer.
\<close>

theorem mic_marks_drift:
  assumes "node_ok nd" and "devices_ok nd" and "spec_nonneg spec"
    and "spec_gpu spec \<le> int (length (filter gpu_free (nd_gpusn nd)))" and "spec_mic spec \<le> nd_nmics_free nd"
    and "mark_and_place excl md pjob nd spec = (rc, nd', naji)"
  shows "nd_ngpus_to_be_used nd' = nd_ngpus_to_be_used nd \<and>
    nd_nmics_to_be_used nd' = nd_nmics_to_be_used nd - 2 * spec_mic spec \<and>
    nd_nmics_free nd' - nd_nmics_to_be_used nd' = nd_nmics_free nd - nd_nmics_to_be_used nd + spec_mic spec"
proof (intro conjI)
  have dev: "nd_ngpus nd = int (length (nd_gpusn nd))" "nd_nmics nd = int (length (nd_micjobids nd))"
    "nd_nmics_free nd = int (length (filter (\<lambda>x. x = - 1) (nd_micjobids nd)))"
    using assms(2) by (simp_all add: devices_ok_def)
  note m = mark_and_place_spec [OF assms(1) dev(1,2) assms(3,6)]
  have z: "gpu_needed naji = 0" "mic_needed naji = 0" using m(3,4) assms(4,5) dev(3) by simp_all
  show "nd_ngpus_to_be_used nd' = nd_ngpus_to_be_used nd" using m(6) z by simp
  show "nd_nmics_to_be_used nd' = nd_nmics_to_be_used nd - 2 * spec_mic spec" using m(5) z by simp
  then show "nd_nmics_free nd' - nd_nmics_to_be_used nd' = nd_nmics_free nd - nd_nmics_to_be_used nd + spec_mic spec"
    using m(7) z by simp
qed

theorem mic_marks_drift_witness:
  "\<exists>rc nd' naji. mark_and_place False None demo_job demo_node demo_spec = (rc, nd', naji) \<and>
     nd_nmics_to_be_used nd' = - 2 \<and> nd_nmics_free nd' = 0 \<and> nd_nmics_free nd' - nd_nmics_to_be_used nd' = 2"
proof -
  obtain rc nd' naji where m: "mark_and_place False None demo_job demo_node demo_spec = (rc, nd', naji)" by (metis prod.exhaust)
  have g: "spec_gpu demo_spec \<le> int (length (filter gpu_free (nd_gpusn demo_node)))" "spec_mic demo_spec \<le> nd_nmics_free demo_node"
    by (simp_all add: demo_spec_def demo_node_def)
  show ?thesis using mic_marks_drift [OF demo_node_ok demo_devices g m] m by (simp add: demo_spec_def demo_node_def)
qed

section \<open>Shrinking a node that runs a job\<close>

lemma np_shrink_spec:
  assumes "k < nslots (nd_slots nd)"
  shows "\<exists>nd'. np_shrink k nd = Some nd' \<and> nslots (nd_slots nd') = nslots (nd_slots nd) - k \<and>
    occ (nd_slots nd') = occ (nd_slots nd) \<inter> {..<nslots (nd_slots nd) - k} \<and> nd_job_usages nd' = nd_job_usages nd"
  using assms
proof (induction k arbitrary: nd)
  case 0
  have "occ (nd_slots nd) \<inter> {..<nslots (nd_slots nd)} = occ (nd_slots nd)" using occ_less by blast
  then show ?case by simp
next
  case (Suc k)
  have pos: "0 < nslots (nd_slots nd)" using Suc.prems by simp
  obtain st where st: "remove_execution_slot (nd_slots nd) = Some (PBSE_NONE, st)" "nslots st = nslots (nd_slots nd) - 1"
    "occ st = occ (nd_slots nd) - {nslots (nd_slots nd) - 1}" by (rule remove_slot [OF pos]) simp
  have kl: "k < nslots (nd_slots (nd\<lparr>nd_slots := st\<rparr>))" using Suc.prems st(2) by simp
  have s: "np_shrink (Suc k) nd = np_shrink k (nd\<lparr>nd_slots := st\<rparr>)" using st(1) by (simp add: delete_a_subnode_def)
  have o: "occ st \<inter> {..<nslots st - k} = occ (nd_slots nd) \<inter> {..<nslots (nd_slots nd) - Suc k}" unfolding st(2,3) by auto
  show ?case unfolding s using Suc.IH [OF kl] o st(2) by simp
qed

lemma to_short_small: "- (2 ^ 15) \<le> v \<Longrightarrow> v < 2 ^ 15 \<Longrightarrow> to_short v = v"
  unfolding to_short_def by (simp add: sint_sbintrunc' signed_take_bit_int_eq_self)

text \<open>
  C31: shrinking a node under a job leaks its slots.  When the administrator lowers \<open>np\<close> of a node while a
  job runs on it, the slots the job holds below the new size are never freed: the release that follows
  refuses the job's tracker, which is larger than the node by then, and drops the usage all the same.
\<close>

theorem np_shrink_leaks:
  assumes "node_ok nd" and "nd_job_usages nd = [\<lparr>internal_job_id = j, ju_est = e\<rparr>]" and "nslots e = nslots (nd_slots nd)"
    and "nslots (nd_slots nd) < 2 ^ 15" and "0 < n" and "n < nslots (nd_slots nd)"
  shows "\<exists>nd'. node_np_action excl (int n) nd = Some (PBSE_NONE, nd') \<and>
    nd_job_usages (remove_job_from_node nd' j) = [] \<and>
    get_total_execution_slots (nd_slots (remove_job_from_node nd' j)) = int n \<and>
    (\<forall>i<n. is_occupied (int i) (nd_slots (remove_job_from_node nd' j)) \<longleftrightarrow> owner nd i = Some j)"
proof -
  let ?t = "nslots (nd_slots nd)"
  have sh: "to_short (int ?t) = int ?t" "to_short (int n) = int n" using assms(4-6) by (auto intro!: to_short_small)
  have "?t - n < ?t" using assms(5,6) by simp
  from np_shrink_spec [OF this] obtain nd' where nd': "np_shrink (?t - n) nd = Some nd'" "nslots (nd_slots nd') = ?t - (?t - n)"
    "occ (nd_slots nd') = occ (nd_slots nd) \<inter> {..<?t - (?t - n)}" "nd_job_usages nd' = nd_job_usages nd"
    by (elim exE conjE)
  have t: "?t - (?t - n) = n" "nat (int ?t - int n) = ?t - n" using assms(6) by auto
  have a: "node_np_action excl (int n) nd = Some (PBSE_NONE, nd')"
    using assms(5,6) nd'(1) by (simp add: node_np_action_def Let_def slot_simps sh t)
  have "nslots (nd_slots nd') < nslots e" using nd'(2) t assms(3,6) by simp
  then have u: "unreserve_execution_slots e (nd_slots nd') = (SUBSET_TOO_LARGE, nd_slots nd')" by (rule unreserve_simps(2))
  have r: "remove_job_from_node nd' j = nd'\<lparr>nd_job_usages := [], nd_state := nd_state nd' AND NOT INUSE_JOB\<rparr>"
    unfolding remove_job_from_node_def using assms(2) nd'(4) u
    by (simp add: remove_usage_loop.simps [of 0 j] Let_def)
  have o: "i \<in> occ (nd_slots nd) \<longleftrightarrow> owner nd i = Some j" for i
    using node_holder [OF assms(1), of i] assms(2) by (auto simp: owner_def split: if_splits)
  show ?thesis using a nd' t o by (intro exI [of _ nd']) (simp add: r slot_simps)
qed

definition demo_busy :: pbsnode where
  "demo_busy = fst (snd (place_subnodes_in_hostlist False demo_job demo_node demo_naji job_reservation_info_new []))"

lemma demo_busy_views:
  "nd_slots demo_busy = \<lparr>slots = [OCCUPIED, OCCUPIED, FREE], open_count = 1\<rparr>"
  "nd_job_usages demo_busy = [\<lparr>internal_job_id = 42, ju_est = \<lparr>slots = [OCCUPIED, OCCUPIED, FREE], open_count = 1\<rparr>\<rparr>]"
  by (simp_all add: demo_busy_def demo_place)

lemma demo_busy_ok: "node_ok demo_busy"
proof -
  have n: "0 \<le> ppn_needed demo_naji" by (simp add: demo_naji_def)
  have e: "jr_est job_reservation_info_new = est_empty" by (simp add: job_reservation_info_new_def)
  show ?thesis using place_spec(1) [OF demo_node_ok n e demo_place] by (simp add: demo_busy_def demo_place)
qed

theorem np_shrink_leaks_witness:
  "\<exists>nd'. node_np_action False 2 demo_busy = Some (PBSE_NONE, nd') \<and> nd_job_usages (remove_job_from_node nd' 42) = [] \<and>
     is_occupied 1 (nd_slots (remove_job_from_node nd' 42))"
proof -
  let ?e = "\<lparr>slots = [OCCUPIED, OCCUPIED, FREE], open_count = 1\<rparr>"
  have s: "nslots ?e = nslots (nd_slots demo_busy)" "nslots (nd_slots demo_busy) < 2 ^ 15" "(0::nat) < 2" "2 < nslots (nd_slots demo_busy)"
    by (simp_all add: demo_busy_views nslots_def)
  have o: "owner demo_busy 1 = Some 42" by (simp add: owner_def demo_busy_views is_occupied_def)
  obtain nd' where c: "node_np_action False (int 2) demo_busy = Some (PBSE_NONE, nd') \<and>
    nd_job_usages (remove_job_from_node nd' 42) = [] \<and>
    get_total_execution_slots (nd_slots (remove_job_from_node nd' 42)) = int 2 \<and>
    (\<forall>i<2. is_occupied (int i) (nd_slots (remove_job_from_node nd' 42)) \<longleftrightarrow> owner demo_busy i = Some 42)"
    by (rule exE [OF np_shrink_leaks [OF demo_busy_ok demo_busy_views(2) s, of False]])
  note nd' = conjunct1 [OF c] conjunct1 [OF conjunct2 [OF c]] conjunct2 [OF conjunct2 [OF conjunct2 [OF c]]]
  from spec [OF nd'(3), of 1] have "is_occupied (int 1) (nd_slots (remove_job_from_node nd' 42))" using o by simp
  then show ?thesis using nd'(1,2) by (intro exI [of _ nd']) simp
qed

end
