(* ===== verification/Exec_Host.thy ===== *)
theory Exec_Host
  imports Node_Props Range_String Id_Map
begin

unbundle bit_operations_syntax

text \<open>
  The list of hosts of a job.  When a job is placed, \<open>translate_job_reservation_info_to_string\<close> prints its
  reservations as \<open>host/range+host/range\<close>, the attribute \<open>exec_host\<close>.  \<open>free_nodes\<close> walks over that list
  to give the slots back, and after a restart of the server \<open>set_old_nodes\<close> walks over it to occupy the
  slots of the jobs that are still running (all in \<^verbatim>\<open>server/node_manager.c\<close>; the lookups are in
  \<^verbatim>\<open>server/node_func.c\<close>).  Nodes are objects in a store, found through the table of names and the trees of
  NUMA boards.  The branches for Cray systems are not modelled.
\<close>

section \<open>Printing\<close>

function populate_loop :: "execution_slot_tracker \<Rightarrow> int \<Rightarrow> int \<Rightarrow> bool \<Rightarrow> char list \<Rightarrow> char list" where
  "populate_loop est est_iterator prev_est_index consecutive_indices range_str =
     (case get_next_occupied_index est_iterator est of
        (est_index, est_iterator') \<Rightarrow>
          if est_index = - 1 then
            (if consecutive_indices then range_str @ snprintf_text 10 (''-'' @ int_text prev_est_index) else range_str)
          else
            (let (consecutive', range_str') =
               (if \<not> consecutive_indices then
                  (if range_str = [] then (False, range_str @ snprintf_text 10 (int_text est_index))
                   else if prev_est_index = est_index - 1 then (True, range_str)
                   else (False, range_str @ snprintf_text 10 ('','' @ int_text est_index)))
                else
                  (if prev_est_index \<noteq> est_index - 1 then
                     (False, (range_str @ snprintf_text 10 (''-'' @ int_text prev_est_index)) @
                             snprintf_text 10 ('','' @ int_text est_index))
                   else (True, range_str)))
             in populate_loop est est_iterator' est_index consecutive' range_str'))"
  by pat_completeness auto

text \<open>The next occupied index is the first one of the list of occupied indices from the iterator on.\<close>

definition occ_from :: "nat \<Rightarrow> execution_slot_tracker \<Rightarrow> nat list" where
  "occ_from k t = filter (\<lambda>i. i \<in> occ t) [k..<nslots t]"

lemma next_occupied_from:
  "(case occ_from k t of
      [] \<Rightarrow> fst (next_occupied_loop (int k) t) = - 1
    | x # xs \<Rightarrow> next_occupied_loop (int k) t = (int x, int (Suc x)) \<and> k \<le> x \<and> x < nslots t \<and> occ_from (Suc x) t = xs)"
proof (induction "nslots t - k" arbitrary: k)
  case 0
  then show ?case by (simp add: occ_from_def next_occupied_loop.simps nslots_def)
next
  case (Suc n)
  then have k: "k < nslots t" "n = nslots t - Suc k" by auto
  have u: "[k..<nslots t] = k # [Suc k..<nslots t]" using k(1) by (rule upt_conv_Cons)
  have m: "slots t ! k \<longleftrightarrow> k \<in> occ t" using k(1) by (simp add: occ_def nslots_def)
  show ?case
  proof (cases "k \<in> occ t")
    case True
    then have f: "occ_from k t = k # occ_from (Suc k) t" by (simp add: occ_from_def u)
    have "next_occupied_loop (int k) t = (int k, int (Suc k))" using k(1) m True by (simp add: next_occupied_loop.simps nslots_def)
    then show ?thesis using f k(1) by simp
  next
    case False
    then have f: "occ_from k t = occ_from (Suc k) t" by (simp add: occ_from_def u)
    have "next_occupied_loop (int k) t = next_occupied_loop (int (Suc k)) t"
      using k(1) m False by (subst next_occupied_loop.simps) (simp add: nslots_def add.commute)
    then show ?thesis using Suc.hyps(1) [OF k(2)] f by (auto split: list.splits)
  qed
qed

lemma next_occupied_progress:
  assumes "(idx, it') = get_next_occupied_index it t" and "idx \<noteq> - 1"
  shows "it < it'" and "it' \<le> int (nslots t)"
proof -
  let ?k = "if it = - 1 then 0 else it"
  have nn: "0 \<le> ?k" using assms by (auto simp: get_next_occupied_index_def next_occupied_loop.simps split: if_splits)
  then obtain k where k: "?k = int k" by (metis nonneg_int_cases)
  then have e: "get_next_occupied_index it t = next_occupied_loop (int k) t" by (simp add: get_next_occupied_index_def)
  obtain x xs where x: "occ_from k t = x # xs" using next_occupied_from [of k t] assms e by (cases "occ_from k t") (simp_all add: prod_eq_iff)
  have "it' = int (Suc x)" "k \<le> x" "x < nslots t" using next_occupied_from [of k t] x assms(1) e by simp_all
  then show "it < it'" "it' \<le> int (nslots t)" using k by (auto split: if_splits)
qed

lemma next_occupied_less:
  "(idx, it') = get_next_occupied_index it t \<Longrightarrow> idx \<noteq> - 1 \<Longrightarrow> it < int (nslots t)"
  using next_occupied_progress [of idx it' it t] by simp

termination populate_loop
  by (relation "measure (\<lambda>(est, it, p, c, s). nat (int (nslots est) - it))")
     (auto intro: next_occupied_less next_occupied_progress(1))

declare populate_loop.simps [simp del]

definition populate_range_string_from_slot_tracker :: "execution_slot_tracker \<Rightarrow> char list" where
  "populate_range_string_from_slot_tracker est = populate_loop est (- 1) (- 1) False []"

fun jri_loop ::
  "id_map \<Rightarrow> bool \<Rightarrow> job_reservation_info list \<Rightarrow> int \<Rightarrow> char list \<Rightarrow> char list \<Rightarrow> (int \<times> char list \<times> char list) option" where
  "jri_loop mapper first [] NCount exec_host_output exec_port_output = Some (NCount, exec_host_output, exec_port_output)"
| "jri_loop mapper first (jri # rest) NCount exec_host_output exec_port_output =
     (let host1 = (if first then exec_host_output else exec_host_output @ ''+'');
          port1 = (if first then exec_port_output else exec_port_output @ ''+'')
      in case get_name (jr_node_id jri) mapper of
           None \<Rightarrow> None
         | Some name \<Rightarrow>
             jri_loop mapper False rest (NCount + 1)
               (((host1 @ name) @ ''/'') @ populate_range_string_from_slot_tracker (jr_est jri))
               (port1 @ int_text (jr_port jri)))"

definition translate_job_reservation_info_to_string ::
  "id_map \<Rightarrow> job_reservation_info list \<Rightarrow> int \<Rightarrow> (int \<times> char list \<times> char list) option" where
  "translate_job_reservation_info_to_string mapper host_info NCount = jri_loop mapper True host_info NCount [] []"

section \<open>Nodes by name\<close>

record cluster =
  node_store :: "int \<Rightarrow> pbsnode"
  allnodes :: "char list \<rightharpoonup> int"
  node_boards :: "int \<times> int \<rightharpoonup> int"
  node_mapper :: id_map

definition find_nodebyname :: "cluster \<Rightarrow> char list \<Rightarrow> int option" where
  "find_nodebyname cl nodename =
     (let name = fst (strchr_cut (CHR ''/'') nodename) in
      case allnodes cl name of
        Some k \<Rightarrow> Some k
      | None \<Rightarrow>
          (case strrchr_cut (CHR ''-'') name of
             (base, None) \<Rightarrow> None
           | (base, Some ix) \<Rightarrow>
               (case allnodes cl base of
                  None \<Rightarrow> None
                | Some k \<Rightarrow> node_boards cl (k, fst (strtol_int ix)))))"

definition find_nodebyid :: "cluster \<Rightarrow> int \<Rightarrow> int option" where
  "find_nodebyid cl i = (case get_name i (node_mapper cl) of None \<Rightarrow> None | Some name \<Rightarrow> find_nodebyname cl name)"

definition upd_node :: "int \<Rightarrow> (pbsnode \<Rightarrow> pbsnode) \<Rightarrow> cluster \<Rightarrow> cluster" where
  "upd_node k f cl = cl\<lparr>node_store := (node_store cl)(k := f (node_store cl k))\<rparr>"

section \<open>Releasing the hosts of a job\<close>

definition get_next_exec_host :: "char list option \<Rightarrow> char list option \<times> char list option" where
  "get_next_exec_host current =
     (case current of
        None \<Rightarrow> (None, None)
      | Some name_ptr \<Rightarrow>
          (let (a, rest) = strchr_cut (CHR ''+'') name_ptr;
               b = fst (strchr_cut (CHR ''/'') a);
               c = fst (strchr_cut (CHR '':'') b)
           in (Some c, rest)))"

definition free_node :: "run_job \<Rightarrow> pbsnode \<Rightarrow> pbsnode" where
  "free_node pjob pnode =
     remove_job_from_nodes_mics
       (remove_job_from_nodes_gpus (remove_job_from_node pnode (ji_internal_id pjob)) pjob) pjob"

function free_hosts_loop :: "run_job \<Rightarrow> char list option \<Rightarrow> cluster \<Rightarrow> cluster" where
  "free_hosts_loop pjob host_ptr cl =
     (case get_next_exec_host host_ptr of
        (None, _) \<Rightarrow> cl
      | (Some host, host_ptr') \<Rightarrow>
          free_hosts_loop pjob host_ptr'
            (case find_nodebyname cl host of None \<Rightarrow> cl | Some k \<Rightarrow> upd_node k (free_node pjob) cl))"
  by pat_completeness auto
lemma next_exec_host_shorter:
  assumes "(Some h, p') = get_next_exec_host p"
  shows "(case p' of None \<Rightarrow> 0 | Some s \<Rightarrow> Suc (length s)) < (case p of None \<Rightarrow> 0 | Some s \<Rightarrow> Suc (length s))"
proof (cases p)
  case None
  then show ?thesis using assms by (simp add: get_next_exec_host_def)
next
  case (Some s)
  obtain a r where c: "strchr_cut (CHR ''+'') s = (a, r)" by (metis prod.exhaust)
  then have "p' = r" using assms Some by (simp add: get_next_exec_host_def)
  then show ?thesis using c Some strchr_cut_len [of "CHR ''+''" s a] by (cases r) auto
qed

termination free_hosts_loop
  by (relation "measure (\<lambda>(pjob, p, cl). case p of None \<Rightarrow> 0 | Some s \<Rightarrow> Suc (length s))") (auto simp: next_exec_host_shorter)

declare free_hosts_loop.simps [simp del]

definition free_nodes :: "run_job \<Rightarrow> char list option \<Rightarrow> cluster \<Rightarrow> run_job \<times> cluster" where
  "free_nodes pjob spec cl =
     (let hosts = (case atr_exec_host pjob of Some h \<Rightarrow> Some h | None \<Rightarrow> spec);
          cl = free_hosts_loop pjob hosts cl;
          cl = (case atr_login_node_id pjob of
                  None \<Rightarrow> cl
                | Some login \<Rightarrow>
                    (case find_nodebyname cl login of
                       None \<Rightarrow> cl
                     | Some k \<Rightarrow> upd_node k (\<lambda>nd. remove_job_from_node nd (ji_internal_id pjob)) cl))
      in (pjob\<lparr>svflg_has_nodes := False\<rparr>, cl))"

section \<open>Occupying the hosts of a job after a restart\<close>

fun mark_range :: "nat \<Rightarrow> int \<Rightarrow> execution_slot_tracker \<Rightarrow> execution_slot_tracker \<Rightarrow> execution_slot_tracker \<times> execution_slot_tracker" where
  "mark_range 0 index est st = (est, st)"
| "mark_range (Suc n) index est st =
     mark_range n (index + 1) (snd (mark_as_used index est)) (snd (mark_as_used index st))"

definition occupy_range :: "int \<Rightarrow> int \<Rightarrow> execution_slot_tracker \<Rightarrow> execution_slot_tracker \<Rightarrow> execution_slot_tracker \<times> execution_slot_tracker" where
  "occupy_range first last_0 est st = mark_range (nat (last_0 - first + 1)) first (grow_to (last_0 + 1) est) st"

fun occupy_usages :: "int \<Rightarrow> int \<Rightarrow> int \<Rightarrow> job_usage_info list \<Rightarrow> execution_slot_tracker \<Rightarrow> bool \<times> job_usage_info list \<times> execution_slot_tracker" where
  "occupy_usages jid first last_0 [] st = (False, [], st)"
| "occupy_usages jid first last_0 (jui # us) st =
     (if internal_job_id jui = jid then
        (case occupy_range first last_0 (ju_est jui) st of
           (est, st1) \<Rightarrow>
             (case occupy_usages jid first last_0 us st1 of (f, us', st2) \<Rightarrow> (True, jui\<lparr>ju_est := est\<rparr> # us', st2)))
      else (case occupy_usages jid first last_0 us st of (f, us', st2) \<Rightarrow> (f, jui # us', st2)))"

definition occupy_node :: "int \<Rightarrow> int \<Rightarrow> int \<Rightarrow> pbsnode \<Rightarrow> pbsnode" where
  "occupy_node jid first last_0 pnode =
     (case occupy_usages jid first last_0 (nd_job_usages pnode) (nd_slots pnode) of
        (found, us, st) \<Rightarrow>
          (let pnode =
             (if found then pnode\<lparr>nd_job_usages := us, nd_slots := st\<rparr>
              else
                (case occupy_range first last_0 est_empty st of
                   (est, st') \<Rightarrow> pnode\<lparr>nd_job_usages := us @ [\<lparr>internal_job_id = jid, ju_est = est\<rparr>], nd_slots := st'\<rparr>))
           in if get_number_free (nd_slots pnode) \<le> 0 then pnode\<lparr>nd_state := nd_state pnode OR INUSE_JOB\<rparr> else pnode))"

definition set_one_old :: "char list \<Rightarrow> run_job \<Rightarrow> cluster \<Rightarrow> pbse \<times> cluster" where
  "set_one_old name pjob cl =
     (let (host, index) = strchr_cut (CHR ''/'') name;
          (first, last_0) =
            (case index of
               None \<Rightarrow> (0, 0)
             | Some pc \<Rightarrow>
                 (case strtol_int pc of
                    (first, dash) \<Rightarrow>
                      (first, if dash \<noteq> [] \<and> hd dash = CHR ''-'' then fst (strtol_int (tl dash)) else first)))
      in case find_nodebyname cl host of
           None \<Rightarrow> (PBSE_UNKNODE, cl)
         | Some k \<Rightarrow> (PBSE_NONE, upd_node k (occupy_node (ji_internal_id pjob) first last_0) cl))"

function set_old_loop :: "char list \<Rightarrow> run_job \<Rightarrow> cluster \<Rightarrow> pbse \<times> cluster" where
  "set_old_loop old pjob cl =
     (case strrchr_cut (CHR ''+'') old of
        (a, None) \<Rightarrow> set_one_old a pjob cl
      | (a, Some po) \<Rightarrow>
          (case set_one_old po pjob cl of
             (rc, cl') \<Rightarrow> if rc \<noteq> PBSE_NONE then (rc, cl') else set_old_loop a pjob cl'))"
  by pat_completeness auto
lemma strrchr_cut_shorter: "(a, Some po) = strrchr_cut c s \<Longrightarrow> length a < length s"
  using strrchr_cut_len [of c s a po] by simp

termination set_old_loop
  by (relation "measure (\<lambda>(old, pjob, cl). length old)") (auto intro: strrchr_cut_shorter)

declare set_old_loop.simps [simp del]

definition set_old_nodes :: "run_job \<Rightarrow> cluster \<Rightarrow> pbse \<times> cluster" where
  "set_old_nodes pjob cl =
     (case atr_exec_host pjob of None \<Rightarrow> (PBSE_NONE, cl) | Some old \<Rightarrow> set_old_loop old pjob cl)"

section \<open>The printed range string\<close>

text \<open>The printer's loop over the list of occupied indices.\<close>

fun populate_list :: "int \<Rightarrow> bool \<Rightarrow> char list \<Rightarrow> int list \<Rightarrow> char list" where
  "populate_list prev consec s [] = (if consec then s @ ''-'' @ int_text prev else s)"
| "populate_list prev consec s (x # xs) =
     (if \<not> consec then
        (if s = [] then populate_list x False (int_text x) xs
         else if prev = x - 1 then populate_list x True s xs
         else populate_list x False (s @ '','' @ int_text x) xs)
      else if prev \<noteq> x - 1 then populate_list x False (s @ ''-'' @ int_text prev @ '','' @ int_text x) xs
      else populate_list x True s xs)"

definition short_index :: "int \<Rightarrow> bool" where
  "short_index i \<longleftrightarrow> 0 \<le> i \<and> i < 10 ^ 8"

lemma short_index_text: "short_index i \<Longrightarrow> length (int_text i) < 9"
  using length_dec_le [of 8 "nat i"] by (simp add: short_index_def nat_less_iff)

lemma populate_loop_list:
  assumes "\<forall>i\<in>set (occ_from k t). short_index (int i)" and "short_index prev \<or> \<not> consec"
  shows "populate_loop t (int k) prev consec s = populate_list prev consec s (map int (occ_from k t))"
  using assms
proof (induction "occ_from k t" arbitrary: k prev consec s)
  case Nil
  then obtain it' where it': "get_next_occupied_index (int k) t = (- 1, it')"
    using next_occupied_from [of k t] by (cases "next_occupied_loop (int k) t") (simp add: get_next_occupied_index_def)
  show ?case using Nil short_index_text [of prev] it'
    by (subst populate_loop.simps) auto
next
  case (Cons x xs)
  have x: "get_next_occupied_index (int k) t = (int x, int (Suc x))" "occ_from (Suc x) t = xs"
    using next_occupied_from [of k t] Cons.hyps(2) [symmetric] by (simp_all add: get_next_occupied_index_def)
  have sx: "short_index (int x)" using Cons.prems(1) Cons.hyps(2) by (metis list.set_intros(1))
  have tx: "length (int_text (int x)) < 9" using short_index_text [OF sx] .
  have IH: "populate_loop t (int (Suc x)) (int x) c s' = populate_list (int x) c s' (map int xs)" for c s'
    using Cons.hyps(1) [of "Suc x"] x(2) sx Cons.prems(1) Cons.hyps(2) by (metis list.set_intros(2))
  have tp: "consec \<Longrightarrow> length (int_text prev) < 9" using short_index_text Cons.prems(2) by blast
  show ?case unfolding Cons.hyps(2) [symmetric]
    by (subst populate_loop.simps) (use x(1) tx tp IH in \<open>auto simp: Let_def simp del: int_text_nat of_nat_Suc\<close>)
qed

lemma populate_list_tail:
  assumes "f \<le> p" and "int_text f \<noteq> []"
  shows "populate_list p (f \<noteq> p) (s @ int_text f) xs = s @ range_tail f p xs"
  using assms
proof (induction xs arbitrary: f p s)
  case Nil
  then show ?case by (simp add: range_piece_def)
next
  case (Cons x xs)
  have t: "int_text x \<noteq> []" by (simp add: int_text_def)
  show ?case
  proof (cases "x = p + 1")
    case True
    have "populate_list x (f \<noteq> x) (s @ int_text f) xs = s @ range_tail f x xs"
      by (rule Cons.IH) (use Cons.prems True in auto)
    then show ?thesis using True Cons.prems by (cases "f = p") simp_all
  next
    case False
    have "populate_list x (x \<noteq> x) ((s @ range_piece f p @ '','') @ int_text x) xs = (s @ range_piece f p @ '','') @ range_tail x x xs"
      by (rule Cons.IH) (use t in auto)
    moreover have "p \<noteq> x - 1" using False by simp
    ultimately show ?thesis using False Cons.prems by (auto simp: range_piece_def)
  qed
qed

lemma populate_eq:
  assumes "int (nslots t) \<le> 10 ^ 8"
  shows "populate_range_string_from_slot_tracker t = translate_vector_to_range_string (map int (occ_from 0 t))"
proof -
  have s: "\<forall>i\<in>set (occ_from 0 t). short_index (int i)" using assms by (auto simp: occ_from_def short_index_def)
  have "populate_loop t (- 1) (- 1) False [] = populate_loop t (int 0) (- 1) False []"
    by (simp add: populate_loop.simps [of t "- 1"] populate_loop.simps [of t 0] get_next_occupied_index_def)
  also have "\<dots> = populate_list (- 1) False [] (map int (occ_from 0 t))" by (rule populate_loop_list [OF s]) simp
  also have "\<dots> = translate_vector_to_range_string (map int (occ_from 0 t))"
  proof (cases "occ_from 0 t")
    case (Cons x xs)
    have "populate_list (int x) (int x \<noteq> int x) ([] @ int_text (int x)) (map int xs) = [] @ range_tail (int x) (int x) (map int xs)"
      by (rule populate_list_tail) (auto simp: int_text_def)
    then show ?thesis using Cons by (simp add: translate_vector_to_range_string_def vector_to_range_tail)
  qed (simp add: translate_vector_to_range_string_def)
  finally show ?thesis by (simp add: populate_range_string_from_slot_tracker_def)
qed

text \<open>
  C26: the slots of a reservation are printed as the range string of the occupied indices: the loop of
  \<open>populate_range_string_from_slot_tracker\<close> computes what \<open>translate_vector_to_range_string\<close> prints for the
  ascending list of occupied slots, and \<open>translate_range_string_to_vector\<close> reads that list back.
\<close>

theorem slot_ranges_printed:
  assumes "int (nslots t) \<le> 10 ^ 8"
  shows "populate_range_string_from_slot_tracker t = translate_vector_to_range_string (map int (occ_from 0 t)) \<and>
    translate_range_string_to_vector (populate_range_string_from_slot_tracker t) acc = Some (0, acc @ map int (occ_from 0 t)) \<and>
    set (occ_from 0 t) = occ t \<and> sorted (occ_from 0 t)"
proof (intro conjI)
  show e: "populate_range_string_from_slot_tracker t = translate_vector_to_range_string (map int (occ_from 0 t))"
    by (rule populate_eq [OF assms])
  show "set (occ_from 0 t) = occ t" by (auto simp: occ_from_def occ_less)
  show "sorted (occ_from 0 t)" by (simp add: occ_from_def sorted_wrt_filter)
  have ok: "\<forall>i\<in>set (map int (occ_from 0 t)). index_ok i" using assms by (auto simp: occ_from_def index_ok_def INT_MAX_def)
  show "translate_range_string_to_vector (populate_range_string_from_slot_tracker t) acc = Some (0, acc @ map int (occ_from 0 t))"
    unfolding e by (rule range_string_back [OF ok])
qed

theorem slot_ranges_printed_witness:
  "\<exists>t. t = \<lparr>slots = [True, False, True, True], open_count = 1\<rparr> \<and>
     populate_range_string_from_slot_tracker t = ''0,2-3'' \<and>
     translate_range_string_to_vector (populate_range_string_from_slot_tracker t) [] = Some (0, [0, 2, 3])"
proof -
  let ?t = "\<lparr>slots = [True, False, True, True], open_count = 1\<rparr>"
  have n: "int (nslots ?t) \<le> 10 ^ 8" by (simp add: nslots_def)
  have l: "occ_from 0 ?t = [0, 2, 3]" by (simp add: occ_from_def occ_def nslots_def upt_rec)
  have "translate_vector_to_range_string [0, 2, 3] = ''0,2-3''"
    by (simp add: translate_vector_to_range_string_def add_range_to_string_def int_text_def dec.simps dec_simps)
  then show ?thesis using slot_ranges_printed [OF n, of "[]"] l by auto
qed

end
