(* ===== verification/Restart.thy ===== *)
theory Restart
  imports Exec_Host
begin

unbundle bit_operations_syntax

text \<open>
  What a restart of the server makes of the hosts of a running job: the text that
  \<open>translate_job_reservation_info_to_string\<close> wrote is read by \<open>set_old_nodes\<close>.  Of every host only the
  first run of consecutive slots is occupied again; a reservation that is one run survives exactly.
\<close>

section \<open>The first run of a set of slots\<close>

definition first_run :: "nat set \<Rightarrow> nat set" where
  "first_run S = {i. Min S \<le> i \<and> {Min S..i} \<subseteq> S}"

fun run_end :: "int \<Rightarrow> int list \<Rightarrow> int" where
  "run_end p [] = p"
| "run_end p (x # xs) = (if x = p + 1 then run_end x xs else p)"

lemma range_tail_run: "\<exists>r. range_tail f p xs = range_piece f (run_end p xs) @ r \<and> (r = [] \<or> hd r = CHR '','')"
  by (induction xs arbitrary: p) auto

lemma run_end_nat:
  assumes "sorted_wrt (<) xs" and "set xs = {i \<in> S. p < i}" and "x \<le> p" and "{x..p} \<subseteq> S"
  shows "\<exists>e. run_end (int p) (map int xs) = int e \<and> p \<le> e \<and> {x..e} \<subseteq> S \<and> Suc e \<notin> S"
  using assms
proof (induction xs arbitrary: p)
  case Nil
  then show ?case by auto
next
  case (Cons y ys)
  have y: "y \<in> S" "p < y" using Cons.prems(2) by auto
  have ys: "set ys = {i \<in> S. y < i}" 
  proof (rule set_eqI)
    fix i show "i \<in> set ys \<longleftrightarrow> i \<in> {i \<in> S. y < i}"
      using Cons.prems(1) y(2) Cons.prems(2) [unfolded set_eq_iff, rule_format, of i] by auto
  qed
  show ?case
  proof (cases "y = Suc p")
    case True
    have "{x..y} \<subseteq> S" using Cons.prems(3,4) y True by (auto simp: le_Suc_eq)
    then obtain e where "run_end (int y) (map int ys) = int e \<and> y \<le> e \<and> {x..e} \<subseteq> S \<and> Suc e \<notin> S"
      using Cons.IH [of y] Cons.prems(1,3) y ys by auto
    then show ?thesis using True by (intro exI [of _ e]) auto
  next
    case False
    then have "Suc p \<notin> S" using Cons.prems(1,2) y by (auto simp: set_eq_iff) (metis Suc_lessI lessI not_less_iff_gr_or_eq)
    then show ?thesis using False Cons.prems(3,4) by (intro exI [of _ p]) auto
  qed
qed

lemma first_run_list:
  assumes "occ_from 0 t = x # xs"
  obtains e where "run_end (int x) (map int xs) = int e" and "x \<le> e" and "first_run (occ t) = {x..e}" and "e < nslots t"
proof -
  have s: "sorted_wrt (<) (x # xs)" unfolding assms [symmetric] occ_from_def by (intro sorted_wrt_filter) simp
  have S: "occ t = set (x # xs)" unfolding assms [symmetric] by (auto simp: occ_from_def occ_less)
  have "set xs = {i \<in> occ t. x < i}" using s S by auto
  moreover have "{x..x} \<subseteq> occ t" using S by simp
  ultimately obtain e where e: "run_end (int x) (map int xs) = int e \<and> x \<le> e \<and> {x..e} \<subseteq> occ t \<and> Suc e \<notin> occ t"
    using run_end_nat [of xs "occ t" x x] s by auto
  have m: "Min (occ t) = x" unfolding S using s by (intro Min_eqI) auto
  have "first_run (occ t) = {x..e}"
  proof (rule set_eqI)
    fix i show "i \<in> first_run (occ t) \<longleftrightarrow> i \<in> {x..e}"
      unfolding first_run_def m using e by (auto simp: subset_iff)
  qed
  moreover have "e < nslots t" using e occ_less [of e t] by auto
  ultimately show thesis using e that by blast
qed

lemma first_run_interval: "a \<le> b \<Longrightarrow> first_run {a..b} = {a..b}"
proof -
  assume "a \<le> b"
  then have "Min {a..b} = a" by (intro Min_eqI) auto
  then show ?thesis using \<open>a \<le> b\<close> by (auto simp: first_run_def)
qed

section \<open>One host\<close>

lemma mark_range_occ:
  "occ (fst (mark_range n (int k) est st)) = occ est \<union> ({k..<k + n} \<inter> {..<nslots est})"
proof (induction n arbitrary: k est st)
  case (Suc n)
  have i: "int k + 1 = int (Suc k)" by simp
  have "occ (fst (mark_range (Suc n) (int k) est st)) =
      (if k < nslots est then insert k (occ est) else occ est) \<union> ({Suc k..<Suc k + n} \<inter> {..<nslots est})"
    unfolding mark_range.simps i Suc.IH by (simp add: slot_simps)
  then show ?case by auto
qed simp

lemma occupy_owner:
  assumes "nd_job_usages nd = []" and "x \<le> e"
  shows "owner (occupy_node j (int x) (int e) nd) i = (if x \<le> i \<and> i \<le> e then Some j else None)"
proof -
  have n: "nat (int e - int x + 1) = Suc e - x" using assms(2) by auto
  obtain es st where r: "occupy_range (int x) (int e) est_empty (nd_slots nd) = (es, st)" by (metis prod.exhaust)
  have "occ (fst (occupy_range (int x) (int e) est_empty (nd_slots nd))) = {x..e}"
    unfolding occupy_range_def n mark_range_occ using assms(2) by (auto simp: slot_simps)
  then have "occ es = {x..e}" using r by simp
  moreover have "nd_job_usages (occupy_node j (int x) (int e) nd) = [\<lparr>internal_job_id = j, ju_est = es\<rparr>]"
    using assms(1) r by (simp add: occupy_node_def Let_def)
  ultimately show ?thesis by (simp add: owner_def)
qed

definition host_text :: "char list \<Rightarrow> execution_slot_tracker \<Rightarrow> char list" where
  "host_text name est = name @ ''/'' @ populate_range_string_from_slot_tracker est"

lemma set_one_old_host:
  assumes t: "occ est \<noteq> {}" "int (nslots est) \<le> 10 ^ 8" and n: "CHR ''/'' \<notin> set name" and k: "find_nodebyname cl name = Some k"
  obtains x e where "set_one_old (host_text name est) pjob cl = (PBSE_NONE, upd_node k (occupy_node (ji_internal_id pjob) (int x) (int e)) cl)"
    and "x \<le> e" and "first_run (occ est) = {x..e}"
proof -
  have "set (occ_from 0 est) = occ est" by (auto simp: occ_from_def occ_less)
  then obtain x xs where l: "occ_from 0 est = x # xs" using t(1) by (cases "occ_from 0 est") auto
  obtain e where e: "run_end (int x) (map int xs) = int e" "x \<le> e" "first_run (occ est) = {x..e}" "e < nslots est"
    by (rule first_run_list [OF l])
  obtain r where r: "range_tail (int x) (int x) (map int xs) = range_piece (int x) (int e) @ r" "r = [] \<or> hd r = CHR '',''"
    using range_tail_run [of "int x" "int x" "map int xs"] e(1) by auto
  have p: "populate_range_string_from_slot_tracker est = range_piece (int x) (int e) @ r"
    unfolding populate_eq [OF t(2)] l using r(1) by (simp add: translate_vector_to_range_string_def vector_to_range_tail)
  have ix: "index_ok (int x)" "index_ok (int e)" using e t(2) by (simp_all add: index_ok_def INT_MAX_def)
  have nr: "num_end r" using r(2) by (auto simp: num_end_def)
  have s: "strtol_int (dec x @ r) = (int x, r)" "strtol_int (dec e @ r) = (int e, r)"
    using strtol_int_index [OF ix(1) nr] strtol_int_index [OF ix(2) nr] by simp_all
  have s2: "strtol_int (dec x @ CHR ''-'' # dec e @ r) = (int x, CHR ''-'' # dec e @ r)"
    using strtol_int_index [OF ix(1), of "CHR ''-'' # dec e @ r"] by simp
  have c: "strchr_cut (CHR ''/'') (host_text name est) = (name, Some (range_piece (int x) (int e) @ r))"
    unfolding host_text_def p using strchr_cut_hit [OF n] by simp
  have "set_one_old (host_text name est) pjob cl = (PBSE_NONE, upd_node k (occupy_node (ji_internal_id pjob) (int x) (int e)) cl)"
    unfolding set_one_old_def c using k s s2 r(2) by (cases "x = e") (auto simp: range_piece_def Let_def)
  then show thesis using e that by blast
qed

section \<open>All hosts\<close>

definition jri_text :: "id_map \<Rightarrow> job_reservation_info \<Rightarrow> char list" where
  "jri_text mapper jri = host_text (case get_name (jr_node_id jri) mapper of None \<Rightarrow> [] | Some n \<Rightarrow> n) (jr_est jri)"

definition jris_text :: "id_map \<Rightarrow> job_reservation_info list \<Rightarrow> char list" where
  "jris_text mapper l = concat (map (\<lambda>jri. ''+'' @ jri_text mapper jri) l)"

lemma jri_loop_text:
  "jri_loop mapper False l n h p = Some (n', h', p') \<Longrightarrow> h' = h @ jris_text mapper l"
proof (induction l arbitrary: n h p)
  case (Cons a l)
  then obtain name where n: "get_name (jr_node_id a) mapper = Some name" by (cases "get_name (jr_node_id a) mapper") (simp_all add: Let_def)
  have "jri_loop mapper False l (n + 1) (((h @ ''+'') @ name @ ''/'') @ populate_range_string_from_slot_tracker (jr_est a))
      (p @ ''+'' @ int_text (jr_port a)) = Some (n', h', p')" using Cons.prems n by (simp add: Let_def)
  from Cons.IH [OF this] show ?case using n by (simp add: jris_text_def jri_text_def host_text_def)
qed (simp add: jris_text_def)

lemma translate_text:
  assumes "translate_job_reservation_info_to_string mapper (jri # l) n = Some (n', h, p)"
  shows "h = jri_text mapper jri @ jris_text mapper l"
proof -
  obtain name where n: "get_name (jr_node_id jri) mapper = Some name"
    using assms by (cases "get_name (jr_node_id jri) mapper") (simp_all add: translate_job_reservation_info_to_string_def Let_def)
  have "jri_loop mapper False l (n + 1) (name @ ''/'' @ populate_range_string_from_slot_tracker (jr_est jri)) (int_text (jr_port jri)) = Some (n', h, p)"
    using assms n by (simp add: translate_job_reservation_info_to_string_def Let_def)
  from jri_loop_text [OF this] show ?thesis using n by (simp add: jri_text_def host_text_def)
qed

text \<open>
  A reservation that can be printed and found again: it holds a slot, its node has a name without
  separators, and the name finds the node.
\<close>

definition jri_ok :: "cluster \<Rightarrow> job_reservation_info \<Rightarrow> bool" where
  "jri_ok cl jri \<longleftrightarrow> occ (jr_est jri) \<noteq> {} \<and> int (nslots (jr_est jri)) \<le> 10 ^ 8 \<and>
     (case get_name (jr_node_id jri) (node_mapper cl) of
        None \<Rightarrow> False
      | Some name \<Rightarrow> CHR ''/'' \<notin> set name \<and> CHR ''+'' \<notin> set name \<and> find_nodebyname cl name = Some (jr_node_id jri))"

lemma upd_tables [simp]:
  "node_mapper (upd_node k f cl) = node_mapper cl" "allnodes (upd_node k f cl) = allnodes cl" "node_boards (upd_node k f cl) = node_boards cl"
  by (simp_all add: upd_node_def)

lemma find_upd [simp]: "find_nodebyname (upd_node k f cl) = find_nodebyname cl"
  unfolding find_nodebyname_def upd_tables ..

lemma jri_ok_upd [simp]: "jri_ok (upd_node k f cl) jri = jri_ok cl jri"
  unfolding jri_ok_def upd_tables find_upd ..

lemma no_plus_dec [simp]: "CHR ''+'' \<notin> set (dec n)"
  using dec_digits [of "CHR ''+''" n] by auto

lemma no_plus_int [simp]: "CHR ''+'' \<notin> set (int_text i)"
  by (simp add: int_text_def)

lemma no_plus_tail: "CHR ''+'' \<notin> set (range_tail f p xs)"
  by (induction xs arbitrary: f p) (auto simp: range_piece_def)

lemma jri_text_no_plus:
  assumes "jri_ok cl jri"
  shows "CHR ''+'' \<notin> set (jri_text (node_mapper cl) jri)"
proof -
  have "int (nslots (jr_est jri)) \<le> 10 ^ 8" using assms by (simp add: jri_ok_def)
  from populate_eq [OF this] have "CHR ''+'' \<notin> set (populate_range_string_from_slot_tracker (jr_est jri))"
    using no_plus_tail by (auto simp: translate_vector_to_range_string_def vector_to_range_tail split: list.splits)
  then show ?thesis using assms by (auto simp: jri_text_def host_text_def jri_ok_def split: option.splits)
qed

text \<open>What the walk over the hosts has done for one reservation.\<close>

definition restored :: "int \<Rightarrow> cluster \<Rightarrow> cluster \<Rightarrow> job_reservation_info \<Rightarrow> bool" where
  "restored j cl cl' jri \<longleftrightarrow> (\<exists>x e. x \<le> e \<and> first_run (occ (jr_est jri)) = {x..e} \<and>
     node_store cl' (jr_node_id jri) = occupy_node j (int x) (int e) (node_store cl (jr_node_id jri)))"

lemma restored_other:
  "restored j (upd_node k f cl) cl' jri \<Longrightarrow> jr_node_id jri \<noteq> k \<Longrightarrow> restored j cl cl' jri"
  by (simp add: restored_def upd_node_def)

lemma set_old_one:
  assumes "jri_ok cl jri"
  obtains x e where "set_one_old (jri_text (node_mapper cl) jri) pjob cl =
      (PBSE_NONE, upd_node (jr_node_id jri) (occupy_node (ji_internal_id pjob) (int x) (int e)) cl)"
    and "x \<le> e" and "first_run (occ (jr_est jri)) = {x..e}"
proof -
  obtain name where n: "get_name (jr_node_id jri) (node_mapper cl) = Some name" "CHR ''/'' \<notin> set name"
    "find_nodebyname cl name = Some (jr_node_id jri)" "occ (jr_est jri) \<noteq> {}" "int (nslots (jr_est jri)) \<le> 10 ^ 8"
    using assms by (auto simp: jri_ok_def split: option.splits)
  show thesis using set_one_old_host [OF n(4,5,2,3), of pjob thesis] that n(1) by (simp add: jri_text_def)
qed

lemma set_old_all:
  assumes "\<forall>r\<in>set (jri # l). jri_ok cl r" and "distinct (map jr_node_id (jri # l))" and "mapper = node_mapper cl"
  shows "\<exists>cl'. set_old_loop (jri_text mapper jri @ jris_text mapper l) pjob cl = (PBSE_NONE, cl') \<and>
    (\<forall>r\<in>set (jri # l). restored (ji_internal_id pjob) cl cl' r) \<and>
    (\<forall>k. k \<notin> jr_node_id ` set (jri # l) \<longrightarrow> node_store cl' k = node_store cl k)"
  using assms
proof (induction l arbitrary: cl rule: rev_induct)
  case Nil
  then have ok: "jri_ok cl jri" by simp
  obtain x e where o: "set_one_old (jri_text (node_mapper cl) jri) pjob cl =
      (PBSE_NONE, upd_node (jr_node_id jri) (occupy_node (ji_internal_id pjob) (int x) (int e)) cl)"
    "x \<le> e" "first_run (occ (jr_est jri)) = {x..e}" by (rule set_old_one [OF ok])
  have c: "strrchr_cut (CHR ''+'') (jri_text (node_mapper cl) jri) = (jri_text (node_mapper cl) jri, None)"
    by (rule strrchr_cut_miss [OF jri_text_no_plus [OF ok]])
  have "set_old_loop (jri_text mapper jri @ jris_text mapper []) pjob cl =
      (PBSE_NONE, upd_node (jr_node_id jri) (occupy_node (ji_internal_id pjob) (int x) (int e)) cl)"
    using Nil(3) c o(1) by (subst set_old_loop.simps) (simp add: jris_text_def)
  then show ?case using o(2,3) by (auto simp: restored_def upd_node_def)
next
  case (snoc r l)
  have ok: "jri_ok cl r" using snoc.prems(1) by simp
  obtain x e where o: "set_one_old (jri_text (node_mapper cl) r) pjob cl =
      (PBSE_NONE, upd_node (jr_node_id r) (occupy_node (ji_internal_id pjob) (int x) (int e)) cl)"
    "x \<le> e" "first_run (occ (jr_est r)) = {x..e}" by (rule set_old_one [OF ok])
  let ?cl = "upd_node (jr_node_id r) (occupy_node (ji_internal_id pjob) (int x) (int e)) cl"
  let ?t = "jri_text mapper jri @ jris_text mapper l"
  have t: "jri_text mapper jri @ jris_text mapper (l @ [r]) = ?t @ CHR ''+'' # jri_text mapper r" by (simp add: jris_text_def)
  have c: "strrchr_cut (CHR ''+'') (?t @ CHR ''+'' # jri_text mapper r) = (?t, Some (jri_text mapper r))"
    using jri_text_no_plus [OF ok] snoc.prems(3) by (intro strrchr_cut_hit) simp
  have s: "set_old_loop (?t @ CHR ''+'' # jri_text mapper r) pjob cl = set_old_loop ?t pjob ?cl"
    using c o(1) snoc.prems(3) by (subst set_old_loop.simps) simp
  have 1: "\<forall>r\<in>set (jri # l). jri_ok ?cl r" using snoc.prems(1) by simp
  have 2: "distinct (map jr_node_id (jri # l))" "jr_node_id r \<notin> jr_node_id ` set (jri # l)" using snoc.prems(2) by auto
  have 3: "mapper = node_mapper ?cl" using snoc.prems(3) by simp
  obtain cl' where cl': "set_old_loop ?t pjob ?cl = (PBSE_NONE, cl')" "\<forall>r\<in>set (jri # l). restored (ji_internal_id pjob) ?cl cl' r"
    "\<forall>k. k \<notin> jr_node_id ` set (jri # l) \<longrightarrow> node_store cl' k = node_store ?cl k"
    by (rule exE [OF snoc.IH [OF 1 2(1) 3]]) (elim conjE)
  have "restored (ji_internal_id pjob) cl cl' r" using cl'(3) 2(2) o(2,3) by (auto simp: restored_def upd_node_def)
  moreover have "\<forall>q\<in>set (jri # l). restored (ji_internal_id pjob) cl cl' q"
    using cl'(2) 2(2) restored_other by (metis imageI)
  moreover have "\<forall>k. k \<notin> jr_node_id ` set (jri # l @ [r]) \<longrightarrow> node_store cl' k = node_store cl k"
    using cl'(3) by (auto simp: upd_node_def)
  ultimately show ?case unfolding t s using cl'(1) by (intro exI [of _ cl']) auto
qed

lemma restart_lemma:
  assumes "\<forall>r\<in>set l. jri_ok cl r \<and> nd_job_usages (node_store cl (jr_node_id r)) = []" and "distinct (map jr_node_id l)" and "l \<noteq> []"
    and "translate_job_reservation_info_to_string (node_mapper cl) l n = Some (n', hosts, ports)" and "atr_exec_host pjob = Some hosts"
  obtains cl' where "set_old_nodes pjob cl = (PBSE_NONE, cl')"
    and "\<forall>r\<in>set l. \<forall>i. owner (node_store cl' (jr_node_id r)) i = (if i \<in> first_run (occ (jr_est r)) then Some (ji_internal_id pjob) else None)"
proof -
  obtain jri t where l: "l = jri # t" using assms(3) by (cases l) auto
  have h: "hosts = jri_text (node_mapper cl) jri @ jris_text (node_mapper cl) t" using translate_text assms(4) l by simp
  have 1: "\<forall>r\<in>set (jri # t). jri_ok cl r" "distinct (map jr_node_id (jri # t))" using assms(1,2) l by auto
  obtain cl' where c: "set_old_loop hosts pjob cl = (PBSE_NONE, cl')" "\<forall>r\<in>set (jri # t). restored (ji_internal_id pjob) cl cl' r"
    by (rule exE [OF set_old_all [OF 1 refl, of pjob, folded h]]) (elim conjE)
  have "\<forall>r\<in>set l. \<forall>i. owner (node_store cl' (jr_node_id r)) i = (if i \<in> first_run (occ (jr_est r)) then Some (ji_internal_id pjob) else None)"
  proof (intro ballI allI)
    fix r i assume r: "r \<in> set l"
    obtain x e where e: "x \<le> e" "first_run (occ (jr_est r)) = {x..e}"
      "node_store cl' (jr_node_id r) = occupy_node (ji_internal_id pjob) (int x) (int e) (node_store cl (jr_node_id r))"
      using c(2) r l by (auto simp: restored_def)
    have u: "nd_job_usages (node_store cl (jr_node_id r)) = []" using assms(1) r by simp
    show "owner (node_store cl' (jr_node_id r)) i = (if i \<in> first_run (occ (jr_est r)) then Some (ji_internal_id pjob) else None)"
      unfolding e(2,3) occupy_owner [OF u e(1)] by simp
  qed
  then show thesis using that c(1) assms(5) by (simp add: set_old_nodes_def)
qed

text \<open>A cluster of one node, and the reservation of given slots on it.\<close>

definition demo_cluster :: cluster where
  "demo_cluster = \<lparr>node_store = (\<lambda>k. demo_node), allnodes = [''n1'' \<mapsto> 0], node_boards = Map.empty,
     node_mapper = snd (get_new_id ''n1'' id_map_empty)\<rparr>"

definition demo_jri :: "bool list \<Rightarrow> job_reservation_info" where
  "demo_jri bs = \<lparr>jr_node_id = 0, jr_port = 15003, jr_est = \<lparr>slots = bs, open_count = int (length (filter Not bs))\<rparr>\<rparr>"

lemma demo_name: "get_name 0 (node_mapper demo_cluster) = Some ''n1''"
  by (simp add: demo_cluster_def get_new_id_def id_map_empty_def get_name_def)

lemma demo_find: "find_nodebyname demo_cluster ''n1'' = Some 0"
  by (simp add: find_nodebyname_def demo_cluster_def)

lemma demo_jri_ok: "True \<in> set bs \<Longrightarrow> length bs \<le> 1000 \<Longrightarrow> jri_ok demo_cluster (demo_jri bs)"
  unfolding jri_ok_def using demo_name demo_find
  by (simp add: demo_jri_def occ_def nslots_def) (metis in_set_conv_nth)

lemma demo_hosts:
  "\<exists>h. translate_job_reservation_info_to_string (node_mapper demo_cluster) [demo_jri bs] 0 = Some (1, h, ''15003'')"
  using demo_name by (simp add: translate_job_reservation_info_to_string_def Let_def demo_jri_def int_text_def dec.simps dec_simps)

lemma demo_usages: "nd_job_usages (node_store demo_cluster k) = []"
  by (simp add: demo_cluster_def demo_node_def)

lemma demo_jri_id [simp]: "jr_node_id (demo_jri bs) = 0"
  by (simp add: demo_jri_def)

lemma demo_occ: "occ (jr_est (demo_jri bs)) = {i. i < length bs \<and> bs ! i}"
  by (simp add: demo_jri_def occ_def)





end
