(* ===== verification/Container.thy ===== *)
theory Container
  imports Torque_Base
begin

text \<open>
  The generic container of \<^verbatim>\<open>include/container.hpp\<close> that holds jobs, nodes, queues and users: an array of
  slots, linked in both directions through indices, with slot 0 as the anchor of the ring, and a map from
  names to slots.  The model follows the code assignment by assignment.  A name that the map does not
  hold reads as 0, which is what \<open>map[id]\<close> inserts.  \<open>heap n\<close> says whether an array of \<open>n\<close> slots can be
  allocated.  Following a null item pointer is the value \<open>None\<close>.  The process is not exiting
  (\<open>exit_called\<close> is false) and the caller holds the lock.
\<close>

section \<open>Data\<close>

record 'a slot =
  pItem :: "(char list \<times> 'a) option"
  snext :: nat
  sprev :: nat

record 'a item_container =
  cslots :: "'a slot list"
  cmax :: nat
  cnum :: nat
  next_slot :: nat
  clast :: nat
  cmap :: "char list \<Rightarrow> nat"

definition ALWAYS_EMPTY_INDEX :: nat where "ALWAYS_EMPTY_INDEX = 0"

definition zero_slot :: "'a slot" where
  "zero_slot = \<lparr>pItem = None, snext = 0, sprev = 0\<rparr>"

definition new_container :: "'a item_container" where
  "new_container = \<lparr>cslots = replicate 10 zero_slot, cmax = 10, cnum = 0, next_slot = 1, clast = 0, cmap = (\<lambda>_. 0)\<rparr>"

abbreviation item_at :: "'a item_container \<Rightarrow> nat \<Rightarrow> (char list \<times> 'a) option" where
  "item_at c i \<equiv> pItem (cslots c ! i)"

abbreviation next_at :: "'a item_container \<Rightarrow> nat \<Rightarrow> nat" where
  "next_at c i \<equiv> snext (cslots c ! i)"

abbreviation prev_at :: "'a item_container \<Rightarrow> nat \<Rightarrow> nat" where
  "prev_at c i \<equiv> sprev (cslots c ! i)"

definition set_item :: "nat \<Rightarrow> (char list \<times> 'a) option \<Rightarrow> 'a item_container \<Rightarrow> 'a item_container" where
  "set_item i v c = c\<lparr>cslots := (cslots c)[i := (cslots c ! i)\<lparr>pItem := v\<rparr>]\<rparr>"

definition set_next :: "nat \<Rightarrow> nat \<Rightarrow> 'a item_container \<Rightarrow> 'a item_container" where
  "set_next i v c = c\<lparr>cslots := (cslots c)[i := (cslots c ! i)\<lparr>snext := v\<rparr>]\<rparr>"

definition set_prev :: "nat \<Rightarrow> nat \<Rightarrow> 'a item_container \<Rightarrow> 'a item_container" where
  "set_prev i v c = c\<lparr>cslots := (cslots c)[i := (cslots c ! i)\<lparr>sprev := v\<rparr>]\<rparr>"

section \<open>Private operations\<close>

definition check_and_resize :: "(nat \<Rightarrow> bool) \<Rightarrow> 'a item_container \<Rightarrow> bool \<times> 'a item_container" where
  "check_and_resize heap c =
     (if cmax c = cnum c + 1 then
        (if heap (cmax c * 2)
         then (True, c\<lparr>cslots := cslots c @ replicate (cmax c) zero_slot, cmax := cmax c * 2\<rparr>)
         else (False, c))
      else (True, c))"

function update_next_slot :: "'a item_container \<Rightarrow> 'a item_container" where
  "update_next_slot c =
     (if next_slot c < cmax c \<and> item_at c (next_slot c) \<noteq> None
      then update_next_slot (c\<lparr>next_slot := next_slot c + 1\<rparr>) else c)"
  by pat_completeness auto
termination update_next_slot
  by (relation "measure (\<lambda>c. cmax c - next_slot c)") auto

declare update_next_slot.simps [simp del]

text \<open>The common start of the insertions: the item goes to the next free slot, and the map learns it.\<close>

definition place_item :: "char list \<times> 'a \<Rightarrow> 'a item_container \<Rightarrow> 'a item_container" where
  "place_item thing c =
     (set_item (next_slot c) (Some thing) c)\<lparr>cmap := (cmap c)(fst thing := next_slot c)\<rparr>"

definition insert_thing :: "(nat \<Rightarrow> bool) \<Rightarrow> char list \<times> 'a \<Rightarrow> 'a item_container \<Rightarrow> int \<times> 'a item_container" where
  "insert_thing heap thing c =
     (case check_and_resize heap c of
        (False, c) \<Rightarrow> (- 1, c)
      | (True, c) \<Rightarrow>
          (let rc = next_slot c;
               c = place_item thing c;
               c = set_prev rc (clast c) c;
               c = (if clast c = ALWAYS_EMPTY_INDEX then set_next ALWAYS_EMPTY_INDEX rc c else c);
               c = set_next (clast c) rc c;
               c = c\<lparr>clast := rc\<rparr>;
               c = set_prev ALWAYS_EMPTY_INDEX (clast c) c;
               c = set_next rc ALWAYS_EMPTY_INDEX c;
               c = c\<lparr>cnum := cnum c + 1\<rparr>
           in (int rc, update_next_slot c)))"

definition insert_thing_after :: "(nat \<Rightarrow> bool) \<Rightarrow> char list \<times> 'a \<Rightarrow> nat \<Rightarrow> 'a item_container \<Rightarrow> int \<times> 'a item_container" where
  "insert_thing_after heap thing index c =
     (case check_and_resize heap c of
        (False, c) \<Rightarrow> (- 1, c)
      | (True, c) \<Rightarrow>
          (let rc = next_slot c;
               c = place_item thing c;
               c = set_prev rc index c;
               nxt = next_at c index;
               c = set_next rc nxt c;
               c = set_next index rc c;
               c = set_prev nxt rc c;
               c = (if clast c = index then c\<lparr>clast := rc\<rparr> else c);
               c = c\<lparr>cnum := cnum c + 1\<rparr>
           in (int rc, update_next_slot c)))"

definition insert_thing_before :: "(nat \<Rightarrow> bool) \<Rightarrow> char list \<times> 'a \<Rightarrow> nat \<Rightarrow> 'a item_container \<Rightarrow> int \<times> 'a item_container" where
  "insert_thing_before heap thing index c =
     (case check_and_resize heap c of
        (False, c) \<Rightarrow> (- 1, c)
      | (True, c) \<Rightarrow>
          (let rc = next_slot c;
               c = place_item thing c;
               prv = prev_at c index;
               c = set_next rc index c;
               c = set_prev rc prv c;
               c = set_prev index rc c;
               c = set_next prv rc c;
               c = c\<lparr>cnum := cnum c + 1\<rparr>
           in (int rc, update_next_slot c)))"

text \<open>\<open>unlink_slot\<close> of a slot that holds the item \<open>thing\<close>.\<close>

definition unlink_slot :: "nat \<Rightarrow> char list \<times> 'a \<Rightarrow> 'a item_container \<Rightarrow> 'a item_container" where
  "unlink_slot index thing c =
     (let prv = prev_at c index;
          nxt = next_at c index;
          c = c\<lparr>cmap := (cmap c)(fst thing := 0)\<rparr>;
          c = set_prev index ALWAYS_EMPTY_INDEX c;
          c = set_next index ALWAYS_EMPTY_INDEX c;
          c = set_item index None c;
          c = set_next prv nxt c
      in if clast c = index then c\<lparr>clast := prv\<rparr> else set_prev nxt prv c)"

definition take_out :: "nat \<Rightarrow> char list \<times> 'a \<Rightarrow> 'a item_container \<Rightarrow> 'a item_container" where
  "take_out i thing c =
     (let c = unlink_slot i thing c;
          c = c\<lparr>cnum := cnum c - 1\<rparr>
      in if i < next_slot c then c\<lparr>next_slot := i\<rparr> else c)"

definition remove_thing_from_index :: "nat \<Rightarrow> 'a item_container \<Rightarrow> bool \<times> 'a item_container" where
  "remove_thing_from_index index c =
     (case item_at c index of None \<Rightarrow> (False, c) | Some thing \<Rightarrow> (True, take_out index thing c))"

definition pop_at :: "nat \<Rightarrow> 'a item_container \<Rightarrow> ('a option \<times> 'a item_container) option" where
  "pop_at i c =
     (if i \<noteq> ALWAYS_EMPTY_INDEX then
        (case item_at c i of None \<Rightarrow> None | Some thing \<Rightarrow> Some (Some (snd thing), take_out i thing c))
      else Some (None, c))"

section \<open>Public operations\<close>

definition cinsert :: "(nat \<Rightarrow> bool) \<Rightarrow> 'a \<Rightarrow> char list \<Rightarrow> bool \<Rightarrow> 'a item_container \<Rightarrow> bool \<times> 'a item_container" where
  "cinsert heap it i replace c =
     (let index = cmap c i in
      if index \<noteq> ALWAYS_EMPTY_INDEX \<and> \<not> replace then (False, c)
      else
        (let c = (if index \<noteq> ALWAYS_EMPTY_INDEX then snd (remove_thing_from_index index c) else c)
         in case insert_thing heap (i, it) c of (rc, c) \<Rightarrow> (\<not> rc < 0, c)))"

definition insert_after :: "(nat \<Rightarrow> bool) \<Rightarrow> char list \<Rightarrow> 'a \<Rightarrow> char list \<Rightarrow> 'a item_container \<Rightarrow> bool \<times> 'a item_container" where
  "insert_after heap location_id it i c =
     (let index = cmap c location_id in
      if index = ALWAYS_EMPTY_INDEX then (False, c)
      else (case insert_thing_after heap (i, it) index c of (rc, c) \<Rightarrow> (\<not> rc < 0, c)))"

definition insert_before :: "(nat \<Rightarrow> bool) \<Rightarrow> char list \<Rightarrow> 'a \<Rightarrow> char list \<Rightarrow> 'a item_container \<Rightarrow> bool \<times> 'a item_container" where
  "insert_before heap location_id it i c =
     (let index = cmap c location_id in
      if index = ALWAYS_EMPTY_INDEX then (False, c)
      else (case insert_thing_before heap (i, it) index c of (rc, c) \<Rightarrow> (rc = 0, c)))"

text \<open>\<open>next_thing\<close> and \<open>next_thing_from_back\<close> on an iterator that has been initialised.\<close>

definition next_thing :: "'a item_container \<Rightarrow> nat \<Rightarrow> (char list \<times> 'a) option \<times> nat" where
  "next_thing c iter = (item_at c iter, next_at c iter)"

definition next_thing_from_back :: "'a item_container \<Rightarrow> nat \<Rightarrow> (char list \<times> 'a) option \<times> nat" where
  "next_thing_from_back c iter = (item_at c iter, prev_at c iter)"

definition initialize_ra_iterator :: "'a item_container \<Rightarrow> bool \<Rightarrow> nat" where
  "initialize_ra_iterator c rev_0 = (if \<not> rev_0 then next_at c ALWAYS_EMPTY_INDEX else prev_at c ALWAYS_EMPTY_INDEX)"

fun skip_things :: "nat \<Rightarrow> 'a item_container \<Rightarrow> nat \<Rightarrow> nat option" where
  "skip_things 0 c iter = Some iter"
| "skip_things (Suc n) c iter = (case next_thing c iter of (None, _) \<Rightarrow> None | (Some t, iter') \<Rightarrow> skip_things n c iter')"

definition insert_at :: "(nat \<Rightarrow> bool) \<Rightarrow> nat \<Rightarrow> 'a \<Rightarrow> char list \<Rightarrow> 'a item_container \<Rightarrow> bool \<times> 'a item_container" where
  "insert_at heap index it i c =
     (case skip_things index c (initialize_ra_iterator c False) of
        None \<Rightarrow> (False, c)
      | Some iter \<Rightarrow> (case insert_thing_before heap (i, it) iter c of (rc, c) \<Rightarrow> (\<not> rc < 0, c)))"

definition insert_first :: "(nat \<Rightarrow> bool) \<Rightarrow> 'a \<Rightarrow> char list \<Rightarrow> 'a item_container \<Rightarrow> bool \<times> 'a item_container" where
  "insert_first heap it i c = insert_at heap 0 it i c"

definition cremove :: "char list \<Rightarrow> 'a item_container \<Rightarrow> bool \<times> 'a item_container" where
  "cremove i c =
     (let index = cmap c i in
      if index = ALWAYS_EMPTY_INDEX then (False, c) else remove_thing_from_index index c)"

definition cfind :: "char list \<Rightarrow> 'a item_container \<Rightarrow> 'a option" where
  "cfind i c =
     (let index = cmap c i in
      if index = ALWAYS_EMPTY_INDEX then None else map_option snd (item_at c index))"

definition pop_front :: "'a item_container \<Rightarrow> ('a option \<times> 'a item_container) option" where
  "pop_front c = pop_at (next_at c ALWAYS_EMPTY_INDEX) c"

definition pop_back :: "'a item_container \<Rightarrow> ('a option \<times> 'a item_container) option" where
  "pop_back c = pop_at (prev_at c ALWAYS_EMPTY_INDEX) c"

definition cswap :: "char list \<Rightarrow> char list \<Rightarrow> 'a item_container \<Rightarrow> bool \<times> 'a item_container" where
  "cswap id1 id2 c =
     (let ind1 = cmap c id1; ind2 = cmap c id2 in
      if ind1 = ALWAYS_EMPTY_INDEX \<or> ind2 = ALWAYS_EMPTY_INDEX \<or> ind1 = ind2 then (False, c)
      else
        (let tmp = item_at c ind1;
             c = set_item ind1 (item_at c ind2) c;
             c = set_item ind2 tmp c
         in (True, c\<lparr>cmap := (cmap c)(id1 := ind2, id2 := ind1)\<rparr>)))"

definition ccount :: "'a item_container \<Rightarrow> nat" where
  "ccount c = cnum c"

fun clear_map :: "'a slot list \<Rightarrow> (char list \<Rightarrow> nat) \<Rightarrow> char list \<Rightarrow> nat" where
  "clear_map [] m = m"
| "clear_map (s # ss) m = clear_map ss (case pItem s of None \<Rightarrow> m | Some t \<Rightarrow> m(fst t := 0))"

definition cclear :: "'a item_container \<Rightarrow> 'a item_container" where
  "cclear c = c\<lparr>cmap := clear_map (cslots c) (cmap c), cslots := map (\<lambda>s. zero_slot) (cslots c),
     cnum := 0, next_slot := 1, clast := 0\<rparr>"

text \<open>
  A walk with an iterator, \<open>get_next_item\<close> until it returns null.  Nothing in the array bounds it, so the
  result is optional.
\<close>

partial_function (option) walk :: "'a item_container \<Rightarrow> bool \<Rightarrow> nat \<Rightarrow> 'a list option" where
  "walk c rev_0 iter =
     (if iter = ALWAYS_EMPTY_INDEX then Some []
      else
        (case (if rev_0 then next_thing_from_back c iter else next_thing c iter) of
           (None, _) \<Rightarrow> Some []
         | (Some t, iter') \<Rightarrow> Option.bind (walk c rev_0 iter') (\<lambda>ts. Some (snd t # ts))))"

definition walk_all :: "bool \<Rightarrow> 'a item_container \<Rightarrow> 'a list option" where
  "walk_all rev_0 c = walk c rev_0 (initialize_ra_iterator c rev_0)"

section \<open>The ring\<close>

text \<open>
  \<open>seg c a xs\<close>: from the slot \<open>a\<close> the links lead through \<open>xs\<close>, forwards and back.  \<open>ring_ok c xs\<close>: the
  occupied slots are \<open>xs\<close>, in this order, the first free slot is known and the map names every item.
\<close>

fun seg :: "'a item_container \<Rightarrow> nat \<Rightarrow> nat list \<Rightarrow> bool" where
  "seg c a [] = True"
| "seg c a (x # xs) = (next_at c a = x \<and> prev_at c x = a \<and> seg c x xs)"

definition slots_ok :: "'a item_container \<Rightarrow> nat list \<Rightarrow> bool" where
  "slots_ok c xs \<longleftrightarrow>
     length (cslots c) = cmax c \<and> 2 \<le> cmax c \<and> cnum c = length xs \<and> distinct xs \<and> 0 \<notin> set xs \<and>
     (\<forall>i \<in> set xs. i < cmax c) \<and> (\<forall>i < cmax c. (item_at c i \<noteq> None) = (i \<in> set xs))"

definition free_ok :: "'a item_container \<Rightarrow> nat list \<Rightarrow> bool" where
  "free_ok c xs \<longleftrightarrow>
     0 < next_slot c \<and> next_slot c \<le> cmax c \<and> (\<forall>i. 0 < i \<and> i < next_slot c \<longrightarrow> i \<in> set xs) \<and>
     (next_slot c < cmax c \<longrightarrow> next_slot c \<notin> set xs)"

definition map_ok :: "'a item_container \<Rightarrow> nat list \<Rightarrow> bool" where
  "map_ok c xs \<longleftrightarrow>
     (\<forall>i \<in> set xs. cmap c (fst (the (item_at c i))) = i) \<and>
     (\<forall>k. cmap c k \<noteq> 0 \<longrightarrow> cmap c k \<in> set xs \<and> fst (the (item_at c (cmap c k))) = k)"

definition ring_ok :: "'a item_container \<Rightarrow> nat list \<Rightarrow> bool" where
  "ring_ok c xs \<longleftrightarrow>
     seg c 0 xs \<and> next_at c (last (0 # xs)) = 0 \<and> slots_ok c xs \<and> free_ok c xs \<and> map_ok c xs"

definition contents :: "'a item_container \<Rightarrow> nat list \<Rightarrow> (char list \<times> 'a) list" where
  "contents c xs = map (\<lambda>i. the (item_at c i)) xs"

lemma set_links [simp]:
  "next_at (set_next i v c) j = (if j = i \<and> i < length (cslots c) then v else next_at c j)"
  "prev_at (set_next i v c) j = prev_at c j"
  "item_at (set_next i v c) j = item_at c j"
  "prev_at (set_prev i v c) j = (if j = i \<and> i < length (cslots c) then v else prev_at c j)"
  "next_at (set_prev i v c) j = next_at c j"
  "item_at (set_prev i v c) j = item_at c j"
  "item_at (set_item i t c) j = (if j = i \<and> i < length (cslots c) then t else item_at c j)"
  "next_at (set_item i t c) j = next_at c j"
  "prev_at (set_item i t c) j = prev_at c j"
  by (cases "i < length (cslots c)"; cases "j = i"; simp add: set_next_def set_prev_def set_item_def list_update_beyond not_less)+

lemma set_fields [simp]:
  "length (cslots (set_next i v c)) = length (cslots c)" "length (cslots (set_prev i v c)) = length (cslots c)"
  "length (cslots (set_item i t c)) = length (cslots c)"
  "cmax (set_next i v c) = cmax c" "cmax (set_prev i v c) = cmax c" "cmax (set_item i t c) = cmax c"
  "cnum (set_next i v c) = cnum c" "cnum (set_prev i v c) = cnum c" "cnum (set_item i t c) = cnum c"
  "next_slot (set_next i v c) = next_slot c" "next_slot (set_prev i v c) = next_slot c"
  "next_slot (set_item i t c) = next_slot c"
  "clast (set_next i v c) = clast c" "clast (set_prev i v c) = clast c" "clast (set_item i t c) = clast c"
  "cmap (set_next i v c) = cmap c" "cmap (set_prev i v c) = cmap c" "cmap (set_item i t c) = cmap c"
  by (simp_all add: set_next_def set_prev_def set_item_def)

lemma place_item_links [simp]:
  "item_at (place_item t c) j = (if j = next_slot c \<and> next_slot c < length (cslots c) then Some t else item_at c j)"
  "next_at (place_item t c) j = next_at c j" "prev_at (place_item t c) j = prev_at c j"
  "length (cslots (place_item t c)) = length (cslots c)" "cmax (place_item t c) = cmax c"
  "cnum (place_item t c) = cnum c" "next_slot (place_item t c) = next_slot c" "clast (place_item t c) = clast c"
  "cmap (place_item t c) = (cmap c)(fst t := next_slot c)"
  by (simp_all add: place_item_def)

lemma seg_append: "seg c a (xs @ ys) = (seg c a xs \<and> seg c (last (a # xs)) ys)"
  by (induction xs arbitrary: a) auto

lemma seg_frame:
  assumes "seg c a xs" "\<forall>i \<in> set (butlast (a # xs)). next_at c' i = next_at c i"
    "\<forall>i \<in> set xs. prev_at c' i = prev_at c i"
  shows "seg c' a xs"
  using assms by (induction xs arbitrary: a) auto

lemma update_next_slot_spec:
  obtains n where "update_next_slot c = c\<lparr>next_slot := n\<rparr>" "next_slot c \<le> n"
    "next_slot c \<le> cmax c \<longrightarrow> n \<le> cmax c" "\<forall>i. next_slot c \<le> i \<and> i < n \<longrightarrow> item_at c i \<noteq> None"
    "n < cmax c \<longrightarrow> item_at c n = None"
proof -
  have "\<exists>n. update_next_slot c = c\<lparr>next_slot := n\<rparr> \<and> next_slot c \<le> n \<and>
    (next_slot c \<le> cmax c \<longrightarrow> n \<le> cmax c) \<and> (\<forall>i. next_slot c \<le> i \<and> i < n \<longrightarrow> item_at c i \<noteq> None) \<and>
    (n < cmax c \<longrightarrow> item_at c n = None)"
  proof (induction c rule: update_next_slot.induct)
    case (1 c)
    show ?case
    proof (cases "next_slot c < cmax c \<and> item_at c (next_slot c) \<noteq> None")
      case True
      from 1 [OF True] obtain n where n: "update_next_slot (c\<lparr>next_slot := next_slot c + 1\<rparr>) = c\<lparr>next_slot := n\<rparr>"
        "Suc (next_slot c) \<le> n" "Suc (next_slot c) \<le> cmax c \<longrightarrow> n \<le> cmax c"
        "\<forall>i. Suc (next_slot c) \<le> i \<and> i < n \<longrightarrow> item_at c i \<noteq> None" "n < cmax c \<longrightarrow> item_at c n = None"
        by auto
      have "\<forall>i. next_slot c \<le> i \<and> i < n \<longrightarrow> item_at c i \<noteq> None"
        using n(4) True by (metis Suc_leI le_neq_implies_less)
      then show ?thesis
        using n True by (intro exI [of _ n]) (simp add: update_next_slot.simps [of c])
    next
      case False
      then show ?thesis by (intro exI [of _ "next_slot c"]) (auto simp: update_next_slot.simps [of c] simp del: not_None_eq)
    qed
  qed
  then show thesis using that by blast
qed

lemma slots_all_used:
  assumes "slots_ok c xs" "free_ok c xs"
  shows "next_slot c = cmax c \<longleftrightarrow> cmax c = cnum c + 1"
proof -
  have sub: "set xs \<subseteq> {1..<cmax c}" and card: "card (set xs) = cnum c" and two: "2 \<le> cmax c"
    using assms by (auto simp: slots_ok_def distinct_card Suc_le_eq intro!: gr0I)
  show ?thesis
  proof
    assume "next_slot c = cmax c"
    then have "set xs = {1..<cmax c}"
      using assms sub by (auto simp: free_ok_def)
    then show "cmax c = cnum c + 1" using card two by simp
  next
    assume "cmax c = cnum c + 1"
    then have "set xs = {1..<cmax c}" using sub card by (intro card_subset_eq) auto
    then show "next_slot c = cmax c" using assms(2) by (force simp: free_ok_def)
  qed
qed

lemma resize_links:
  assumes "check_and_resize heap c = (ok, c')" "slots_ok c xs" "free_ok c xs"
  shows "\<forall>i < cmax c. item_at c' i = item_at c i \<and> next_at c' i = next_at c i \<and> prev_at c' i = prev_at c i"
    "\<forall>i. cmax c \<le> i \<and> i < cmax c' \<longrightarrow> item_at c' i = None" "cmax c \<le> cmax c'" "length (cslots c') = cmax c'"
    "ok \<longrightarrow> next_slot c' < cmax c'" "clast c' = clast c" "cmap c' = cmap c" "cnum c' = cnum c" "next_slot c' = next_slot c"
proof -
  have len: "length (cslots c) = cmax c" "0 < cmax c" "next_slot c \<le> cmax c"
    using assms(2,3) by (auto simp: slots_ok_def free_ok_def)
  consider (same) "c' = c" "ok \<longrightarrow> cmax c \<noteq> cnum c + 1"
    | (grow) "cmax c = cnum c + 1" "c' = c\<lparr>cslots := cslots c @ replicate (cmax c) zero_slot, cmax := cmax c * 2\<rparr>"
    using assms(1) by (auto simp: check_and_resize_def split: if_splits)
  then have "(\<forall>i < cmax c. item_at c' i = item_at c i \<and> next_at c' i = next_at c i \<and> prev_at c' i = prev_at c i) \<and>
    (\<forall>i. cmax c \<le> i \<and> i < cmax c' \<longrightarrow> item_at c' i = None) \<and> cmax c \<le> cmax c' \<and> length (cslots c') = cmax c' \<and>
    (ok \<longrightarrow> next_slot c' < cmax c') \<and> clast c' = clast c \<and> cmap c' = cmap c \<and> cnum c' = cnum c \<and>
    next_slot c' = next_slot c"
  proof cases
    case same
    then show ?thesis using len slots_all_used [OF assms(2,3)] by auto
  next
    case grow
    show ?thesis using len unfolding grow(2) by (auto simp: nth_append zero_slot_def)
  qed
  then show "\<forall>i < cmax c. item_at c' i = item_at c i \<and> next_at c' i = next_at c i \<and> prev_at c' i = prev_at c i"
    "\<forall>i. cmax c \<le> i \<and> i < cmax c' \<longrightarrow> item_at c' i = None" "cmax c \<le> cmax c'" "length (cslots c') = cmax c'"
    "ok \<longrightarrow> next_slot c' < cmax c'" "clast c' = clast c" "cmap c' = cmap c" "cnum c' = cnum c" "next_slot c' = next_slot c"
    by blast+
qed

lemma resize_ring:
  assumes r: "check_and_resize heap c = (ok, c')" and ring: "ring_ok c xs"
  shows "ring_ok c' xs" "contents c' xs = contents c xs" "prev_at c' 0 = prev_at c 0"
proof -
  have s: "slots_ok c xs" and f: "free_ok c xs" and m: "map_ok c xs"
    and g: "seg c 0 xs" "next_at c (last (0 # xs)) = 0"
    using ring by (auto simp: ring_ok_def)
  note l = resize_links [OF r s f]
  have b: "\<forall>i \<in> set (0 # xs). i < cmax c" using s by (auto simp: slots_ok_def)
  have lt: "last (0 # xs) < cmax c" using b last_in_set [of "0 # xs"] by (auto simp del: last.simps)
  have b': "\<forall>i \<in> set xs. i < cmax c'"
  proof
    fix i assume "i \<in> set xs"
    then have "i < cmax c" using b by simp
    then show "i < cmax c'" using l(3) by simp
  qed
  have "seg c' 0 xs"
  proof (rule seg_frame [OF g(1)])
    show "\<forall>i \<in> set (butlast (0 # xs)). next_at c' i = next_at c i" using b l(1) by (meson in_set_butlastD)
    show "\<forall>i \<in> set xs. prev_at c' i = prev_at c i" using b l(1) by simp
  qed
  moreover have "next_at c' (last (0 # xs)) = 0" using g(2) l(1) lt by (simp del: last.simps)
  moreover have "slots_ok c' xs"
    unfolding slots_ok_def
  proof (intro conjI)
    show "\<forall>i < cmax c'. (item_at c' i \<noteq> None) = (i \<in> set xs)"
    proof (intro allI impI)
      fix i assume "i < cmax c'"
      then show "(item_at c' i \<noteq> None) = (i \<in> set xs)"
        using s l(1,2) by (cases "i < cmax c") (auto simp: slots_ok_def not_less simp del: not_None_eq)
    qed
  qed (use s l(3,4,8) b' in \<open>simp_all add: slots_ok_def\<close>)
  moreover have "free_ok c' xs"
  proof -
    have "next_slot c \<notin> set xs" if "next_slot c = cmax c" using b that by auto
    then show ?thesis using f l(3,9) by (auto simp: free_ok_def)
  qed
  moreover have "map_ok c' xs" using m b l(1,7) by (simp add: map_ok_def)
  ultimately show "ring_ok c' xs" by (simp add: ring_ok_def)
  show "contents c' xs = contents c xs" using b l(1) by (simp add: contents_def)
  show "prev_at c' 0 = prev_at c 0" using b l(1) by simp
qed

section \<open>Linking and unlinking\<close>

lemma last_not_butlast: "distinct (a # us) \<Longrightarrow> i \<in> set (butlast (a # us)) \<Longrightarrow> i \<noteq> last (a # us)"
  by (metis append_butlast_last_id distinct_butlast not_distinct_conv_prefix list.distinct(1))

lemma last_anchor_in: "last (0 # us) \<in> set (0 # us)"
  by (rule last_in_set) simp

definition linked_in :: "'a item_container \<Rightarrow> nat list \<Rightarrow> char list \<times> 'a \<Rightarrow> nat list \<Rightarrow> 'a item_container \<Rightarrow> bool" where
  "linked_in c us thing vs c1 \<longleftrightarrow>
     (\<forall>j. next_at c1 j = (if j = next_slot c then hd (vs @ [0]) else if j = last (0 # us) then next_slot c else next_at c j)) \<and>
     (\<forall>j. j \<noteq> 0 \<longrightarrow> prev_at c1 j =
        (if j = next_slot c then last (0 # us) else if vs \<noteq> [] \<and> j = hd vs then next_slot c else prev_at c j)) \<and>
     (\<forall>j. item_at c1 j = (if j = next_slot c then Some thing else item_at c j)) \<and>
     length (cslots c1) = length (cslots c) \<and> cmax c1 = cmax c \<and> cnum c1 = cnum c + 1 \<and> next_slot c1 = next_slot c \<and>
     cmap c1 = (cmap c)(fst thing := next_slot c)"

lemma linked_seg:
  assumes l: "linked_in c us thing vs c1" and g: "seg c 0 (us @ vs)" "next_at c (last (0 # us @ vs)) = 0"
    and d: "distinct (0 # us @ vs)" and r: "next_slot c \<notin> set (0 # us @ vs)"
  shows "seg c1 0 (us @ next_slot c # vs)" "next_at c1 (last (0 # us @ next_slot c # vs)) = 0"
proof -
  let ?r = "next_slot c"
  have N: "next_at c1 j = (if j = ?r then hd (vs @ [0]) else if j = last (0 # us) then ?r else next_at c j)" for j
    using l by (simp add: linked_in_def)
  have P: "j \<noteq> 0 \<Longrightarrow> prev_at c1 j = (if j = ?r then last (0 # us) else if vs \<noteq> [] \<and> j = hd vs then ?r else prev_at c j)" for j
    using l by (simp add: linked_in_def)
  have lu: "last (0 # us) \<noteq> ?r" "last (0 # us) \<notin> set vs"
    using last_anchor_in [of us] d r by (auto simp del: last.simps)
  have u: "seg c1 0 us"
  proof (rule seg_frame)
    show "seg c 0 us" using g by (simp add: seg_append)
    show "\<forall>i \<in> set (butlast (0 # us)). next_at c1 i = next_at c i"
    proof
      fix i assume i: "i \<in> set (butlast (0 # us))"
      have "i \<noteq> last (0 # us)" using last_not_butlast [OF _ i] d by simp
      moreover have "i \<noteq> ?r" using in_set_butlastD [OF i] r by auto
      ultimately show "next_at c1 i = next_at c i" using N by simp
    qed
    show "\<forall>i \<in> set us. prev_at c1 i = prev_at c i"
    proof
      fix i assume i: "i \<in> set us"
      have "i \<noteq> 0" "i \<noteq> ?r" "\<not> (vs \<noteq> [] \<and> i = hd vs)" using i d r by auto
      then show "prev_at c1 i = prev_at c i" using P [of i] by auto
    qed
  qed
  have v: "seg c1 ?r vs"
  proof (cases vs)
    case (Cons v vs')
    have "seg c v vs'" using g Cons by (simp add: seg_append)
    then have "seg c1 v vs'"
    proof (rule seg_frame)
      show "\<forall>i \<in> set (butlast (v # vs')). next_at c1 i = next_at c i"
      proof
        fix i assume i: "i \<in> set (butlast (v # vs'))"
        then have "i \<in> set vs" using Cons by (metis in_set_butlastD)
        then show "next_at c1 i = next_at c i" using lu r N by auto
      qed
      show "\<forall>i \<in> set vs'. prev_at c1 i = prev_at c i"
      proof
        fix i assume i: "i \<in> set vs'"
        have "i \<noteq> 0" "i \<noteq> ?r" "i \<noteq> v" using i d r Cons by auto
        then show "prev_at c1 i = prev_at c i" using Cons by (simp add: P)
      qed
    qed
    moreover have "v \<noteq> 0" "v \<noteq> ?r" using d r Cons by auto
    ultimately show ?thesis using Cons N P by simp
  qed simp
  have "?r \<noteq> 0" using r by auto
  then show "seg c1 0 (us @ ?r # vs)" using u v lu N P by (simp add: seg_append del: last.simps)
  show "next_at c1 (last (0 # us @ ?r # vs)) = 0"
  proof (cases "vs = []")
    case True then show ?thesis using N by simp
  next
    case False
    then have "last vs \<in> set vs" "next_at c (last vs) = 0" using g(2) by simp_all
    moreover have "last vs \<noteq> ?r" "last vs \<noteq> last (0 # us)" using lu r calculation(1) by (auto simp del: last.simps)
    ultimately show ?thesis using False N [of "last vs"] by simp
  qed
qed

lemma linked_slots:
  assumes l: "linked_in c us thing vs c1" and s: "slots_ok c (us @ vs)" and f: "free_ok c (us @ vs)"
    and r: "next_slot c < cmax c"
  shows "slots_ok c1 (us @ next_slot c # vs)"
  using assms by (auto simp: slots_ok_def free_ok_def linked_in_def)

lemma linked_map:
  assumes l: "linked_in c us thing vs c1" and m: "map_ok c (us @ vs)" and new: "cmap c (fst thing) = 0"
    and r: "next_slot c \<notin> set (us @ vs)" "0 \<notin> set (us @ vs)"
  shows "map_ok c1 (us @ next_slot c # vs)"
proof -
  let ?r = "next_slot c" and ?k = "\<lambda>c i. fst (the (item_at c i))"
  have I: "item_at c1 j = (if j = ?r then Some thing else item_at c j)" for j using l by (simp add: linked_in_def)
  have M: "cmap c1 k = (if k = fst thing then ?r else cmap c k)" for k using l by (simp add: linked_in_def)
  have m1: "\<And>i. i \<in> set (us @ vs) \<Longrightarrow> cmap c (?k c i) = i" and
    m2: "\<And>k. cmap c k \<noteq> 0 \<Longrightarrow> cmap c k \<in> set (us @ vs) \<and> ?k c (cmap c k) = k"
    using m unfolding map_ok_def by blast+
  have a: "cmap c1 (?k c1 i) = i" if i: "i \<in> set (us @ vs)" for i
  proof -
    have ir: "i \<noteq> ?r" "i \<noteq> 0" using i r by metis+
    then have "?k c i \<noteq> fst thing" using m1 [OF i] new by auto
    then show ?thesis using ir m1 [OF i] by (simp add: I M)
  qed
  have b: "cmap c1 k \<in> set (us @ ?r # vs) \<and> ?k c1 (cmap c1 k) = k" if k: "cmap c1 k \<noteq> 0" for k
  proof (cases "k = fst thing")
    case True
    then show ?thesis by (simp add: I M)
  next
    case False
    then have "cmap c k \<noteq> 0" using k by (simp add: M)
    from m2 [OF this] show ?thesis using False r by (auto simp: I M)
  qed
  show ?thesis unfolding map_ok_def
  proof (intro conjI ballI allI impI)
    fix i assume "i \<in> set (us @ ?r # vs)"
    then consider "i = ?r" | "i \<in> set (us @ vs)" by auto
    then show "cmap c1 (?k c1 i) = i"
    proof cases
      case 1 then show ?thesis by (simp add: I M)
    qed (rule a)
  qed (use b in auto)
qed

lemma linked_ring:
  assumes l: "linked_in c us thing vs c1" and ring: "ring_ok c (us @ vs)" and r: "next_slot c < cmax c"
    and new: "cmap c (fst thing) = 0" and c2: "c2 = update_next_slot c1"
  shows "ring_ok c2 (us @ next_slot c # vs)"
    "contents c2 (us @ next_slot c # vs) = contents c us @ thing # contents c vs"
    "clast c2 = clast c1" "prev_at c2 0 = prev_at c1 0"
proof -
  let ?r = "next_slot c"
  have s: "slots_ok c (us @ vs)" and f: "free_ok c (us @ vs)" and m: "map_ok c (us @ vs)"
    and g: "seg c 0 (us @ vs)" "next_at c (last (0 # us @ vs)) = 0"
    using ring by (auto simp: ring_ok_def)
  have d: "distinct (0 # us @ vs)" and rn: "?r \<notin> set (0 # us @ vs)"
    using s f r by (auto simp: slots_ok_def free_ok_def)
  obtain n where n: "c2 = c1\<lparr>next_slot := n\<rparr>" "next_slot c1 \<le> n" "next_slot c1 \<le> cmax c1 \<longrightarrow> n \<le> cmax c1"
    "\<forall>i. next_slot c1 \<le> i \<and> i < n \<longrightarrow> item_at c1 i \<noteq> None" "n < cmax c1 \<longrightarrow> item_at c1 n = None"
    unfolding c2 by (rule update_next_slot_spec)
  note s1 = linked_slots [OF l s f r]
  have e: "next_slot c1 = ?r" "cmax c1 = cmax c" using l by (auto simp: linked_in_def)
  have eq: "seg c2 = seg c1"
  proof (intro ext)
    fix a xs show "seg c2 a xs = seg c1 a xs" by (induction xs arbitrary: a) (simp_all add: n(1))
  qed
  have "seg c2 0 (us @ ?r # vs)" "next_at c2 (last (0 # us @ ?r # vs)) = 0"
    using linked_seg [OF l g d rn] unfolding eq by (simp_all add: n(1))
  moreover have "slots_ok c2 (us @ ?r # vs)" using s1 by (simp add: slots_ok_def n(1))
  moreover have "map_ok c2 (us @ ?r # vs)"
    using linked_map [OF l m new] rn d by (simp add: map_ok_def n(1))
  moreover have "free_ok c2 (us @ ?r # vs)"
  proof -
    have nm: "n \<le> cmax c" using n(3) e r by simp
    have "i \<in> set (us @ ?r # vs)" if i: "0 < i" "i < n" for i
    proof (cases "i < ?r")
      case True then show ?thesis using f i by (auto simp: free_ok_def)
    next
      case False
      then have "item_at c1 i \<noteq> None" using n(4) i e by simp
      then show ?thesis using s1 i nm e by (simp add: slots_ok_def)
    qed
    moreover have "n \<notin> set (us @ ?r # vs)" if "n < cmax c"
      using n(5) s1 that e by (auto simp: slots_ok_def)
    moreover have "0 < n" using n(2) e f by (simp add: free_ok_def)
    ultimately show ?thesis using nm e by (simp add: free_ok_def n(1))
  qed
  ultimately show "ring_ok c2 (us @ ?r # vs)" by (simp add: ring_ok_def)
  show "contents c2 (us @ ?r # vs) = contents c us @ thing # contents c vs"
    using l rn by (auto simp: contents_def n(1) linked_in_def)
  show "clast c2 = clast c1" "prev_at c2 0 = prev_at c1 0" by (simp_all add: n(1))
qed


lemma resize_ready:
  assumes r: "check_and_resize heap c = (True, c0)" and ring: "ring_ok c xs"
  shows "ring_ok c0 xs" "contents c0 xs = contents c xs" "prev_at c0 0 = prev_at c 0" "clast c0 = clast c"
    "cmap c0 = cmap c" "next_slot c0 < cmax c0" "length (cslots c0) = cmax c0" "0 < next_slot c0"
    "next_slot c0 \<notin> set xs" "\<forall>i \<in> set (0 # xs). i < cmax c0" "last (0 # xs) < cmax c0" "last (0 # xs) \<noteq> next_slot c0"
    "\<forall>i \<in> set (0 # xs). prev_at c0 i = prev_at c i"
proof -
  have s: "slots_ok c xs" "free_ok c xs" using ring by (auto simp: ring_ok_def)
  note z = resize_links [OF r s] and z2 = resize_ring [OF r ring]
  show zs: "ring_ok c0 xs" "contents c0 xs = contents c xs" "prev_at c0 0 = prev_at c 0" "clast c0 = clast c"
    "cmap c0 = cmap c" "next_slot c0 < cmax c0" "length (cslots c0) = cmax c0" using z z2 by auto
  have s0: "slots_ok c0 xs" "free_ok c0 xs" using z2(1) by (auto simp: ring_ok_def)
  show b: "\<forall>i \<in> set (0 # xs). i < cmax c0" using s0(1) by (auto simp: slots_ok_def)
  show p: "0 < next_slot c0" "next_slot c0 \<notin> set xs" using s0 zs(6) by (auto simp: free_ok_def)
  show "last (0 # xs) < cmax c0" "last (0 # xs) \<noteq> next_slot c0"
    using b p last_anchor_in [of xs] by (auto simp del: last.simps)
  show "\<forall>i \<in> set (0 # xs). prev_at c0 i = prev_at c i" using z(1) s(1) by (auto simp: slots_ok_def)
qed

text \<open>The three insertions link the new slot in.\<close>

lemma insert_thing_ring:
  assumes ring: "ring_ok c xs" and l: "clast c = last (0 # xs)" and new: "cmap c (fst thing) = 0"
    and i: "insert_thing heap thing c = (rc, c')" "0 \<le> rc"
  obtains r where "ring_ok c' (xs @ [r])" "contents c' (xs @ [r]) = contents c xs @ [thing]" "clast c' = r" "prev_at c' 0 = r"
proof -
  obtain ok c0 where r0: "check_and_resize heap c = (ok, c0)" by (metis prod.exhaust)
  then have r: "check_and_resize heap c = (True, c0)" using i by (cases ok) (simp_all add: insert_thing_def)
  note z = resize_ready [OF r ring]
  let ?r = "next_slot c0"
  define c1 where "c1 = (set_next ?r 0 (set_prev 0 ?r ((set_next (clast c0) ?r
     (if clast c0 = 0 then set_next 0 ?r (set_prev ?r (clast c0) (place_item thing c0))
      else set_prev ?r (clast c0) (place_item thing c0)))\<lparr>clast := ?r\<rparr>)))\<lparr>cnum := cnum c0 + 1\<rparr>"
  have l1: "linked_in c0 xs thing [] c1"
    unfolding linked_in_def c1_def using z l by (simp del: last.simps length_greater_0_conv)
  have c': "c' = update_next_slot c1"
    using i r by (cases "clast c0 = 0") (simp_all add: insert_thing_def c1_def Let_def ALWAYS_EMPTY_INDEX_def)
  have e: "prev_at c1 0 = ?r" "clast c1 = ?r" unfolding c1_def using z(7,8,10) by (cases "clast c0 = 0"; simp del: length_greater_0_conv)+
  show thesis
    using linked_ring [OF l1 _ z(6) _ c'] z(1,2,5) new e by (intro that [of ?r]) (simp_all add: contents_def)
qed

lemma insert_thing_after_ring:
  assumes ring: "ring_ok c (us @ vs)" and us: "us \<noteq> []" and new: "cmap c (fst thing) = 0"
    and i: "insert_thing_after heap thing (last us) c = (rc, c')" "0 \<le> rc"
  obtains r where "ring_ok c' (us @ r # vs)" "contents c' (us @ r # vs) = contents c us @ thing # contents c vs"
    "clast c' = (if clast c = last us then r else clast c)" "prev_at c' 0 = (if vs = [] then r else prev_at c 0)"
proof -
  obtain ok c0 where r0: "check_and_resize heap c = (ok, c0)" by (metis prod.exhaust)
  then have r: "check_and_resize heap c = (True, c0)" using i by (cases ok) (simp_all add: insert_thing_after_def)
  note z = resize_ready [OF r ring]
  let ?r = "next_slot c0" and ?i = "last us"
  have nx: "next_at c0 ?i = hd (vs @ [0])" and lb: "?i < cmax c0" "?i \<noteq> ?r" "?i \<noteq> 0" "hd (vs @ [0]) < cmax c0"
    "hd (vs @ [0]) \<noteq> ?r" "(hd (vs @ [0]) = 0) = (vs = [])"
  proof -
    show "next_at c0 ?i = hd (vs @ [0])" using z(1) us by (cases vs) (auto simp: ring_ok_def seg_append)
    have "?i \<in> set us" using us by simp
    then show "?i < cmax c0" "?i \<noteq> ?r" "?i \<noteq> 0" using z(1,9,10) by (auto simp: ring_ok_def slots_ok_def)
    show "hd (vs @ [0]) < cmax c0" "hd (vs @ [0]) \<noteq> ?r" "(hd (vs @ [0]) = 0) = (vs = [])"
      using z(1,8,9,10) by (cases vs; auto simp: ring_ok_def slots_ok_def)+
  qed
  define c1 where "c1 = (let d = set_prev (hd (vs @ [0])) ?r (set_next ?i ?r (set_next ?r (hd (vs @ [0])) (set_prev ?r ?i (place_item thing c0))))
     in (if clast c0 = ?i then d\<lparr>clast := ?r\<rparr> else d)\<lparr>cnum := cnum c0 + 1\<rparr>)"
  have l1: "linked_in c0 us thing vs c1"
    unfolding linked_in_def c1_def Let_def using z(6-10) lb us by (cases vs) simp_all
  have c': "c' = update_next_slot c1"
    using i r nx lb by (cases "clast c0 = ?i") (simp_all add: insert_thing_after_def c1_def Let_def)
  have e: "prev_at c1 0 = (if vs = [] then ?r else prev_at c0 0)" "clast c1 = (if clast c0 = ?i then ?r else clast c0)"
    unfolding c1_def Let_def using z(7,8,10) lb by auto
  show thesis
    using linked_ring [OF l1 _ z(6) _ c'] z(1-5) new e by (intro that [of ?r]) (simp_all add: contents_def)
qed

lemma insert_thing_before_ring:
  assumes ring: "ring_ok c (us @ vs)" and p: "prev_at c (hd (vs @ [0])) = last (0 # us)" and new: "cmap c (fst thing) = 0"
    and i: "insert_thing_before heap thing (hd (vs @ [0])) c = (rc, c')" "0 \<le> rc"
  obtains r where "ring_ok c' (us @ r # vs)" "contents c' (us @ r # vs) = contents c us @ thing # contents c vs"
    "clast c' = clast c" "prev_at c' 0 = (if vs = [] then r else prev_at c 0)"
proof -
  obtain ok c0 where r0: "check_and_resize heap c = (ok, c0)" by (metis prod.exhaust)
  then have r: "check_and_resize heap c = (True, c0)" using i by (cases ok) (simp_all add: insert_thing_before_def)
  note z = resize_ready [OF r ring]
  let ?r = "next_slot c0" and ?i = "hd (vs @ [0])" and ?p = "last (0 # us)"
  have lb: "?i < cmax c0" "?i \<noteq> ?r" "(?i = 0) = (vs = [])" "prev_at c0 ?i = ?p" "?p < cmax c0" "?p \<noteq> ?r"
  proof -
    have "?i \<in> set (0 # us @ vs)" by (cases vs) auto
    then show "prev_at c0 ?i = ?p" using z(13) p by auto
    show "?i < cmax c0" "?i \<noteq> ?r" "(?i = 0) = (vs = [])"
      using z(1,8,9,10) by (cases vs; auto simp: ring_ok_def slots_ok_def)+
    show "?p < cmax c0" "?p \<noteq> ?r" using z(8-10) last_anchor_in [of us] by (auto simp del: last.simps)
  qed
  define c1 where "c1 = (set_next ?p ?r (set_prev ?i ?r (set_prev ?r ?p (set_next ?r ?i (place_item thing c0)))))\<lparr>cnum := cnum c0 + 1\<rparr>"
  have l1: "linked_in c0 us thing vs c1"
    unfolding linked_in_def c1_def using z(6-8) lb by (cases vs) (simp_all del: last.simps length_greater_0_conv)
  have c': "c' = update_next_slot c1"
    using i r lb by (simp add: insert_thing_before_def c1_def Let_def)
  have e: "prev_at c1 0 = (if vs = [] then ?r else prev_at c0 0)" "clast c1 = clast c0"
    unfolding c1_def using z(7,8,10) lb by auto
  show thesis
    using linked_ring [OF l1 _ z(6) _ c'] z(1-5) new e by (intro that [of ?r]) (simp_all add: contents_def)
qed

text \<open>Removal: the slot leaves the ring, provided that \<open>last\<close> names it only when it is the last one.\<close>

lemma take_out_fields:
  assumes i: "i < length (cslots c)" "prev_at c i < length (cslots c)" "next_at c i < length (cslots c)" "prev_at c i \<noteq> i"
  shows "next_at (take_out i t c) j = (if j = prev_at c i then next_at c i else if j = i then 0 else next_at c j)"
    "prev_at (take_out i t c) j =
       (if clast c \<noteq> i \<and> j = next_at c i then prev_at c i else if j = i then 0 else prev_at c j)"
    "item_at (take_out i t c) j = (if j = i then None else item_at c j)"
    "length (cslots (take_out i t c)) = length (cslots c)" "cmax (take_out i t c) = cmax c"
    "cnum (take_out i t c) = cnum c - 1" "clast (take_out i t c) = (if clast c = i then prev_at c i else clast c)"
    "cmap (take_out i t c) = (cmap c)(fst t := 0)" "next_slot (take_out i t c) = min i (next_slot c)"
  using i by (auto simp: take_out_def unlink_slot_def Let_def ALWAYS_EMPTY_INDEX_def min_def)

lemma take_out_ring:
  assumes ring: "ring_ok c (us @ i # vs)" and t: "item_at c i = Some t" and l: "clast c = i \<longrightarrow> vs = []"
  shows "ring_ok (take_out i t c) (us @ vs)" "contents (take_out i t c) (us @ vs) = contents c us @ contents c vs"
    "clast (take_out i t c) = (if clast c = i then last (0 # us) else clast c)"
    "prev_at (take_out i t c) 0 = (if vs = [] \<and> clast c \<noteq> i then last (0 # us) else prev_at c 0)"
proof -
  let ?c = "take_out i t c" and ?p = "last (0 # us)" and ?n = "hd (vs @ [0])"
  have s: "slots_ok c (us @ i # vs)" and f: "free_ok c (us @ i # vs)" and m: "map_ok c (us @ i # vs)"
    and g: "seg c 0 (us @ i # vs)" "next_at c (last (0 # us @ i # vs)) = 0"
    using ring by (auto simp: ring_ok_def)
  have d: "distinct (0 # us @ i # vs)" and bnd: "\<forall>j \<in> set (0 # us @ i # vs). j < cmax c" and len: "length (cslots c) = cmax c"
    using s by (auto simp: slots_ok_def)
  have pn: "prev_at c i = ?p" "next_at c i = ?n" using g by (cases vs; simp add: seg_append)+
  have pi: "?p \<noteq> i" "?p < cmax c" "?n < cmax c" "i < cmax c" "?n \<noteq> i" "?p \<notin> set vs"
  proof -
    show "?p \<noteq> i" "?p < cmax c" "?p \<notin> set vs" using d bnd last_anchor_in [of us] by (auto simp del: last.simps)
    show "?n < cmax c" "i < cmax c" "?n \<noteq> i" using d bnd by (cases vs; auto)+
  qed
  have N: "next_at ?c j = (if j = ?p then ?n else if j = i then 0 else next_at c j)"
    and P: "prev_at ?c j = (if clast c \<noteq> i \<and> j = ?n then ?p else if j = i then 0 else prev_at c j)"
    and I: "item_at ?c j = (if j = i then None else item_at c j)"
    and F: "length (cslots ?c) = cmax c" "cmax ?c = cmax c" "cnum ?c = cnum c - 1"
      "clast ?c = (if clast c = i then ?p else clast c)" "cmap ?c = (cmap c)(fst t := 0)" "next_slot ?c = min i (next_slot c)" for j
    using take_out_fields [of i c t] pn pi len by simp_all
  have u: "seg ?c 0 us"
  proof (rule seg_frame)
    show "seg c 0 us" using g by (simp add: seg_append)
    show "\<forall>j \<in> set (butlast (0 # us)). next_at ?c j = next_at c j"
    proof
      fix j assume j: "j \<in> set (butlast (0 # us))"
      have "j \<noteq> ?p" using last_not_butlast [OF _ j] d by simp
      moreover have "j \<noteq> i" using in_set_butlastD [OF j] d by auto
      ultimately show "next_at ?c j = next_at c j" using N by simp
    qed
    show "\<forall>j \<in> set us. prev_at ?c j = prev_at c j"
    proof
      fix j assume j: "j \<in> set us"
      have "j \<noteq> i" "j \<notin> set vs" "j \<noteq> 0" using j d by auto
      moreover have "j \<noteq> ?n" using calculation by (cases vs) auto
      ultimately have "j \<noteq> i" "j \<noteq> ?n" by auto
      then show "prev_at ?c j = prev_at c j" using P [of j] by simp
    qed
  qed
  have v: "seg ?c ?p vs"
  proof (cases vs)
    case (Cons v vs')
    have "seg c v vs'" using g Cons by (simp add: seg_append)
    then have "seg ?c v vs'"
    proof (rule seg_frame)
      show "\<forall>j \<in> set (butlast (v # vs')). next_at ?c j = next_at c j"
      proof
        fix j assume j: "j \<in> set (butlast (v # vs'))"
        then have "j \<in> set vs" using Cons by (metis in_set_butlastD)
        then have "j \<noteq> ?p" "j \<noteq> i" using pi(6) d by auto
        then show "next_at ?c j = next_at c j" using N [of j] by simp
      qed
      show "\<forall>j \<in> set vs'. prev_at ?c j = prev_at c j"
      proof
        fix j assume j: "j \<in> set vs'"
        have "j \<noteq> i" "j \<noteq> ?n" using j d Cons by auto
        then show "prev_at ?c j = prev_at c j" using P [of j] by simp
      qed
    qed
    then show ?thesis using Cons l N [of ?p] P [of v] by simp
  qed simp
  have e: "next_at ?c (last (0 # us @ vs)) = 0"
  proof (cases "vs = []")
    case False
    then have lv: "last vs \<in> set vs" by simp
    then have "last vs \<noteq> ?p" "last vs \<noteq> i" using pi(6) d by auto
    then show ?thesis using N [of "last vs"] g(2) False by simp
  qed (use N [of ?p] in simp)
  have sl: "slots_ok ?c (us @ vs)"
    unfolding slots_ok_def using s by (auto simp: slots_ok_def I F)
  have "map_ok ?c (us @ vs)"
  proof -
    have ti: "cmap c (fst t) = i" using m t by (simp add: map_ok_def)
    have a: "cmap ?c (fst (the (item_at ?c j))) = j" if j: "j \<in> set (us @ vs)" for j
    proof -
      have "j \<noteq> i" using j d by auto
      moreover have "cmap c (fst (the (item_at c j))) = j" using j m by (auto simp: map_ok_def)
      ultimately show ?thesis using ti by (auto simp: I F)
    qed
    have b: "cmap ?c k \<in> set (us @ vs) \<and> fst (the (item_at ?c (cmap ?c k))) = k" if k: "cmap ?c k \<noteq> 0" for k
    proof -
      have k': "k \<noteq> fst t" "cmap c k \<noteq> 0" using k by (auto simp: F split: if_splits)
      have kc: "cmap c k \<in> set (us @ i # vs)" "fst (the (item_at c (cmap c k))) = k"
        using k'(2) m by (auto simp: map_ok_def)
      then have "cmap c k \<noteq> i" using k' t by auto
      then show ?thesis using kc k' by (auto simp: F I)
    qed
    show ?thesis using a b unfolding map_ok_def by blast
  qed
  moreover have "free_ok ?c (us @ vs)"
  proof -
    have f1: "0 < next_slot c" "next_slot c \<le> cmax c" "next_slot c < cmax c \<longrightarrow> next_slot c \<notin> set (us @ i # vs)"
      and f2: "\<And>j. 0 < j \<Longrightarrow> j < next_slot c \<Longrightarrow> j \<in> set (us @ i # vs)"
      using f by (auto simp: free_ok_def)
    have i0: "0 < i" "i \<notin> set (us @ vs)" using d by auto
    have "j \<in> set (us @ vs)" if "0 < j" "j < min i (next_slot c)" for j
      using f2 [of j] that by auto
    moreover have "min i (next_slot c) \<notin> set (us @ vs)" if "min i (next_slot c) < cmax c"
      using f1(3) i0(2) that by (cases "i \<le> next_slot c") (auto simp: min_absorb1 min_absorb2)
    ultimately show ?thesis using f1(1,2) i0(1) by (simp add: free_ok_def F)
  qed
  ultimately show "ring_ok ?c (us @ vs)" using u v e sl by (simp add: ring_ok_def seg_append)
  show "contents ?c (us @ vs) = contents c us @ contents c vs" using d by (auto simp: contents_def I)
  show "clast ?c = (if clast c = i then ?p else clast c)" by (rule F(4))
  show "prev_at ?c 0 = (if vs = [] \<and> clast c \<noteq> i then ?p else prev_at c 0)"
    using P [of 0] d by (cases vs) auto
qed

section \<open>What the container promises: a list of named items\<close>

fun list_after :: "char list \<Rightarrow> char list \<times> 'a \<Rightarrow> (char list \<times> 'a) list \<Rightarrow> (char list \<times> 'a) list" where
  "list_after k t [] = []"
| "list_after k t (x # xs) = (if fst x = k then x # t # xs else x # list_after k t xs)"

fun list_before :: "char list \<Rightarrow> char list \<times> 'a \<Rightarrow> (char list \<times> 'a) list \<Rightarrow> (char list \<times> 'a) list" where
  "list_before k t [] = []"
| "list_before k t (x # xs) = (if fst x = k then t # x # xs else x # list_before k t xs)"

definition list_remove :: "char list \<Rightarrow> (char list \<times> 'a) list \<Rightarrow> (char list \<times> 'a) list" where
  "list_remove k xs = filter (\<lambda>t. fst t \<noteq> k) xs"

abbreviation keys :: "(char list \<times> 'a) list \<Rightarrow> char list set" where
  "keys L \<equiv> fst ` set L"

lemma list_ops_at:
  assumes "k \<notin> keys A"
  shows "list_after k t (A @ (k, v) # B) = A @ (k, v) # t # B" "list_before k t (A @ (k, v) # B) = A @ t # (k, v) # B"
    "k \<notin> keys B \<Longrightarrow> list_remove k (A @ (k, v) # B) = A @ B"
proof -
  show "list_after k t (A @ (k, v) # B) = A @ (k, v) # t # B" "list_before k t (A @ (k, v) # B) = A @ t # (k, v) # B"
    using assms by (induction A) auto
  assume "k \<notin> keys B"
  then have "filter (\<lambda>t. fst t \<noteq> k) A = A" "filter (\<lambda>t. fst t \<noteq> k) B = B"
    using assms by (auto simp: filter_id_conv image_iff)
  then show "list_remove k (A @ (k, v) # B) = A @ B" by (simp add: list_remove_def)
qed

lemma list_absent: "k \<notin> keys L \<Longrightarrow> list_after k t L = L" "k \<notin> keys L \<Longrightarrow> list_remove k L = L"
  by (induction L) (auto simp: list_remove_def)

lemma contents_append [simp]: "contents c (xs @ ys) = contents c xs @ contents c ys"
  by (simp add: contents_def)

lemma contents_Cons [simp]: "contents c (x # xs) = the (item_at c x) # contents c xs" "contents c [] = []"
  by (simp_all add: contents_def)

lemma contents_keys: "keys (contents c xs) = (\<lambda>i. fst (the (item_at c i))) ` set xs"
  by (auto simp: contents_def)

lemma ring_keys:
  assumes "ring_ok c xs"
  shows "(cmap c k = 0) = (k \<notin> keys (contents c xs))" "distinct (map fst (contents c xs))"
proof -
  let ?k = "\<lambda>i. fst (the (item_at c i))"
  have m: "map_ok c xs" and d: "distinct xs" "0 \<notin> set xs" using assms by (simp_all add: ring_ok_def slots_ok_def)
  have m1: "cmap c (?k i) = i" if "i \<in> set xs" for i using m that unfolding map_ok_def by blast
  have m2: "cmap c k \<in> set xs \<and> ?k (cmap c k) = k" if "cmap c k \<noteq> 0" for k using m that unfolding map_ok_def by blast
  show "(cmap c k = 0) = (k \<notin> keys (contents c xs))"
  proof
    assume k: "cmap c k = 0"
    show "k \<notin> keys (contents c xs)"
    proof
      assume "k \<in> keys (contents c xs)"
      then obtain i where "i \<in> set xs" "k = ?k i" unfolding contents_keys by blast
      then show False using m1 k d(2) by auto
    qed
  next
    assume k: "k \<notin> keys (contents c xs)"
    show "cmap c k = 0"
    proof (rule ccontr)
      assume "cmap c k \<noteq> 0"
      then have "cmap c k \<in> set xs" "?k (cmap c k) = k" using m2 by blast+
      then show False using k unfolding contents_keys by (metis image_eqI)
    qed
  qed
  have "inj_on ?k (set xs)" using m1 by (rule inj_on_inverseI)
  then show "distinct (map fst (contents c xs))" using d(1) by (simp add: contents_def distinct_map comp_def)
qed

lemma ring_split:
  assumes ring: "ring_ok c xs" and k: "cmap c k \<noteq> 0"
  obtains us v vs where "xs = us @ cmap c k # vs" "item_at c (cmap c k) = Some (k, v)"
    "contents c xs = contents c us @ (k, v) # contents c vs" "k \<notin> keys (contents c us)" "k \<notin> keys (contents c vs)"
proof -
  have i: "cmap c k \<in> set xs" "fst (the (item_at c (cmap c k))) = k"
    using assms by (auto simp: ring_ok_def map_ok_def)
  then have "item_at c (cmap c k) \<noteq> None" using ring by (auto simp: ring_ok_def slots_ok_def)
  then obtain v where v: "item_at c (cmap c k) = Some (k, v)" using i(2) by (cases "item_at c (cmap c k)") auto
  obtain us vs where x: "xs = us @ cmap c k # vs" using split_list [OF i(1)] by blast
  show thesis using that [OF x v] v ring_keys(2) [OF ring] by (force simp: x)
qed

lemma cfind_ring:
  assumes ring: "ring_ok c xs"
  shows "cfind k c = map_of (contents c xs) k"
proof (cases "cmap c k = 0")
  case True
  then have "map_of (contents c xs) k = None" using ring_keys(1) [OF ring] by (metis map_of_eq_None_iff)
  then show ?thesis using True by (simp add: cfind_def ALWAYS_EMPTY_INDEX_def)
next
  case False
  obtain us v vs where "item_at c (cmap c k) = Some (k, v)" "contents c xs = contents c us @ (k, v) # contents c vs"
    "k \<notin> keys (contents c us)" using ring_split [OF ring False] by metis
  moreover have "map_of (contents c us) k = None" using calculation(3) by (metis map_of_eq_None_iff)
  ultimately show ?thesis using False by (simp add: cfind_def ALWAYS_EMPTY_INDEX_def map_add_def)
qed

lemma walk_seg:
  assumes "seg c a xs" "next_at c (last (a # xs)) = 0" "0 \<notin> set xs" "\<forall>i \<in> set xs. item_at c i \<noteq> None"
  shows "walk c False (next_at c a) = Some (map snd (contents c xs))"
  using assms
proof (induction xs arbitrary: a)
  case Nil
  then show ?case by (simp add: walk.simps ALWAYS_EMPTY_INDEX_def)
next
  case (Cons x xs)
  then have "walk c False (next_at c x) = Some (map snd (contents c xs))" by simp
  moreover have "next_at c a = x" "x \<noteq> 0" using Cons by auto
  moreover obtain t where "item_at c x = Some t" using Cons(5) by auto
  ultimately show ?case by (simp add: walk.simps [of c False x] next_thing_def ALWAYS_EMPTY_INDEX_def)
qed

lemma walk_all_ring:
  assumes "ring_ok c xs"
  shows "walk_all False c = Some (map snd (contents c xs))"
  unfolding walk_all_def initialize_ra_iterator_def ALWAYS_EMPTY_INDEX_def
  using walk_seg [of c 0 xs] assms by (auto simp: ring_ok_def slots_ok_def)

lemma seg_snoc: "seg c a (xs @ [x]) = (seg c a xs \<and> next_at c (last (a # xs)) = x \<and> prev_at c x = last (a # xs))"
  by (simp add: seg_append)

lemma walk_back_seg:
  assumes "seg c 0 xs" "0 \<notin> set xs" "\<forall>i \<in> set xs. item_at c i \<noteq> None"
  shows "walk c True (last (0 # xs)) = Some (rev (map snd (contents c xs)))"
  using assms
proof (induction xs rule: rev_induct)
  case Nil
  show ?case by (subst walk.simps) (simp add: ALWAYS_EMPTY_INDEX_def)
next
  case (snoc x xs)
  have "seg c 0 xs" "0 \<notin> set xs" "\<forall>i \<in> set xs. item_at c i \<noteq> None" and p: "prev_at c x = last (0 # xs)" "x \<noteq> 0"
    and t: "item_at c x \<noteq> None"
    using snoc.prems unfolding seg_snoc by auto
  then have w: "walk c True (prev_at c x) = Some (rev (map snd (contents c xs)))" using snoc.IH by simp
  obtain t where "item_at c x = Some t" using t by blast
  then have "walk c True x = Some (rev (map snd (contents c (xs @ [x]))))"
    by (subst walk.simps) (simp add: ALWAYS_EMPTY_INDEX_def next_thing_from_back_def p(2) w)
  then show ?case by simp
qed

end
