(* ===== verification/Container_Laws.thy ===== *)
theory Container_Laws
  imports Container
begin

text \<open>
  What a container promises.  The server uses containers in two ways: the list of all jobs grows by
  \<open>insert\<close> at the end, while the list of a queue grows by \<open>insert_first\<close> and \<open>insert_after\<close> only.  The
  field \<open>last\<close> and the back link of slot 0 mean different things in the two, so that there are two
  representation predicates; both fulfil \<open>named_list\<close>, and each one the operations of its own use.
\<close>

section \<open>The two representations\<close>

text \<open>\<open>appending\<close> says that \<open>last\<close> is the last slot; otherwise \<open>last\<close> is 0 and slot 0 points back to it.\<close>

definition tail_ok :: "bool \<Rightarrow> 'a item_container \<Rightarrow> nat list \<Rightarrow> bool" where
  "tail_ok appending c xs \<longleftrightarrow>
     (if appending then clast c = last (0 # xs) else clast c = 0 \<and> prev_at c 0 = last (0 # xs))"

definition holds :: "bool \<Rightarrow> 'a item_container \<Rightarrow> (char list \<times> 'a) list \<Rightarrow> bool" where
  "holds appending c L \<longleftrightarrow> (\<exists>xs. ring_ok c xs \<and> tail_ok appending c xs \<and> L = contents c xs)"

definition room :: "(nat \<Rightarrow> bool) \<Rightarrow> 'a item_container \<Rightarrow> bool" where
  "room heap c \<longleftrightarrow> (cmax c = cnum c + 1 \<longrightarrow> heap (cmax c * 2))"

lemma holdsE:
  assumes "holds ap c L"
  obtains xs where "ring_ok c xs" "tail_ok ap c xs" "L = contents c xs"
  using assms unfolding holds_def by blast

lemma holds_new: "holds ap new_container []"
proof -
  have "ring_ok new_container []"
    by (auto simp: ring_ok_def slots_ok_def free_ok_def map_ok_def new_container_def zero_slot_def)
  then show ?thesis by (auto simp: holds_def tail_ok_def new_container_def zero_slot_def)
qed

lemma room_resize: "room heap c = fst (check_and_resize heap c)"
  by (simp add: room_def check_and_resize_def)

lemma no_room:
  assumes "\<not> room heap c"
  shows "check_and_resize heap c = (False, c)"
  using assms by (auto simp: room_def check_and_resize_def)

lemma insert_results:
  "fst (insert_thing heap t c) = (if room heap c then int (next_slot c) else - 1)"
  "fst (insert_thing_after heap t i c) = (if room heap c then int (next_slot c) else - 1)"
  "fst (insert_thing_before heap t i c) = (if room heap c then int (next_slot c) else - 1)"
  by (auto simp: insert_thing_def insert_thing_after_def insert_thing_before_def Let_def room_def check_and_resize_def)

lemma insert_fails:
  assumes "\<not> room heap c"
  shows "insert_thing heap t c = (- 1, c)" "insert_thing_after heap t i c = (- 1, c)" "insert_thing_before heap t i c = (- 1, c)"
  using no_room [OF assms] by (simp_all add: insert_thing_def insert_thing_after_def insert_thing_before_def)

lemma ring_last: "ring_ok c (us @ i # vs) \<Longrightarrow> vs \<noteq> [] \<Longrightarrow> last vs \<noteq> i"
  using last_in_set [of vs] by (auto simp: ring_ok_def slots_ok_def)

section \<open>The laws\<close>

lemma holds_remove:
  assumes "holds ap c L" and "cremove k c = (ok, c')"
  shows "ok = (k \<in> keys L) \<and> holds ap c' (list_remove k L)"
proof -
  obtain xs where x: "ring_ok c xs" "tail_ok ap c xs" "L = contents c xs" by (rule holdsE [OF assms(1)])
  show ?thesis
  proof (cases "cmap c k = 0")
    case True
    then have "k \<notin> keys L" using ring_keys(1) [OF x(1)] x(3) by blast
    then show ?thesis using True assms list_absent(2) [of k L] by (auto simp: cremove_def ALWAYS_EMPTY_INDEX_def)
  next
    case False
    let ?i = "cmap c k"
    obtain us v vs where s: "xs = us @ ?i # vs" "item_at c ?i = Some (k, v)"
      "contents c xs = contents c us @ (k, v) # contents c vs" "k \<notin> keys (contents c us)" "k \<notin> keys (contents c vs)"
      by (rule ring_split [OF x(1) False])
    have lv: "vs \<noteq> [] \<Longrightarrow> last vs \<noteq> ?i" using ring_last [OF x(1) [unfolded s(1)]] .
    have l: "clast c = ?i \<longrightarrow> vs = [] \<and> ap"
      using x(2) False lv unfolding tail_ok_def s(1) by (auto split: if_splits)
    have l': "clast c = ?i \<longrightarrow> vs = []" using l by blast
    note t = take_out_ring [OF x(1) [unfolded s(1)] s(2) l']
    have c': "ok" "c' = take_out ?i (k, v) c"
      using assms(2) False s(2) by (auto simp: cremove_def remove_thing_from_index_def ALWAYS_EMPTY_INDEX_def)
    have "tail_ok ap c' (us @ vs)"
    proof (cases ap)
      case True
      then have e: "clast c = last (?i # vs)" using x(2) by (simp add: tail_ok_def s(1))
      have "clast c' = last (0 # us @ vs)"
      proof (cases "vs = []")
        case True
        then have "clast c = ?i" using e by simp
        then show ?thesis unfolding c'(2) t(3) using True by simp
      next
        case False
        then have "clast c \<noteq> ?i" "clast c = last vs" using e lv by auto
        then show ?thesis unfolding c'(2) t(3) using False by simp
      qed
      then show ?thesis using True by (simp add: tail_ok_def)
    next
      case False
      then have "clast c = 0" "prev_at c 0 = last (?i # vs)" using x(2) by (simp_all add: tail_ok_def s(1))
      moreover have "?i \<noteq> 0" by fact
      ultimately have "clast c' = 0" "prev_at c' 0 = last (0 # us @ vs)" unfolding c'(2) t(3,4) by (cases "vs = []"; simp)+
      then show ?thesis using False by (simp add: tail_ok_def)
    qed
    then have "holds ap c' (contents c us @ contents c vs)"
      unfolding holds_def using t(1,2) c'(2) by (intro exI [of _ "us @ vs"]) simp
    then show ?thesis using c'(1) list_ops_at(3) [OF s(4,5)] x(3) s(3) by simp
  qed
qed

lemma holds_after:
  assumes h: "holds ap c L" and new: "k \<notin> keys L" and i: "insert_after heap loc it k c = (ok, c')"
  shows "ok = (loc \<in> keys L \<and> room heap c) \<and> holds ap c' (if ok then list_after loc (k, it) L else L)"
proof -
  obtain xs where x: "ring_ok c xs" "tail_ok ap c xs" "L = contents c xs" by (rule holdsE [OF h])
  have k0: "cmap c k = 0" using ring_keys(1) [OF x(1)] x(3) new by blast
  show ?thesis
  proof (cases "cmap c loc = 0 \<or> \<not> room heap c")
    case True
    then have "\<not> ok" "c' = c" "loc \<notin> keys L \<or> \<not> room heap c"
      using i ring_keys(1) [OF x(1)] x(3) insert_fails(2) [of heap c]
      by (auto simp: insert_after_def ALWAYS_EMPTY_INDEX_def split: if_splits)
    then show ?thesis using h by auto
  next
    case False
    then have l0: "cmap c loc \<noteq> 0" and r: "room heap c" by auto
    obtain us v vs where s: "xs = us @ cmap c loc # vs" "item_at c (cmap c loc) = Some (loc, v)"
      "contents c xs = contents c us @ (loc, v) # contents c vs" "loc \<notin> keys (contents c us)"
      using ring_split [OF x(1) l0] by metis
    let ?us = "us @ [cmap c loc]"
    obtain rc where e: "insert_thing_after heap (k, it) (last ?us) c = (rc, c')" "ok = (0 \<le> rc)"
      using i l0 by (auto simp: insert_after_def ALWAYS_EMPTY_INDEX_def split: prod.splits)
    have rc: "0 \<le> rc" using insert_results(2) [of heap "(k, it)" "last ?us" c] e(1) r by simp
    have ring: "ring_ok c (?us @ vs)" using x(1) s(1) by simp
    obtain n where n: "ring_ok c' (?us @ n # vs)" "contents c' (?us @ n # vs) = contents c ?us @ (k, it) # contents c vs"
      "clast c' = (if clast c = last ?us then n else clast c)" "prev_at c' 0 = (if vs = [] then n else prev_at c 0)"
      using insert_thing_after_ring [OF ring _ _ e(1) rc] k0 by auto
    have lv: "vs \<noteq> [] \<Longrightarrow> last vs \<noteq> cmap c loc" using ring_last [OF x(1) [unfolded s(1)]] .
    have "tail_ok ap c' (?us @ n # vs)"
      using n(3,4) x(2) l0 lv unfolding tail_ok_def s(1) by (auto split: if_splits)
    then have "holds ap c' (contents c ?us @ (k, it) # contents c vs)"
      unfolding holds_def using n(1,2) by metis
    moreover have "loc \<in> keys L" using x(3) s(3) by force
    ultimately show ?thesis using rc e(2) r x(3) s(2,3) list_ops_at(1) [OF s(4)] by simp
  qed
qed

lemma holds_find: "holds ap c L \<Longrightarrow> cfind k c = map_of L k"
  by (erule holdsE) (simp add: cfind_ring)

lemma holds_walk: "holds ap c L \<Longrightarrow> walk_all False c = Some (map snd L)"
  by (erule holdsE) (simp add: walk_all_ring)

lemma ring_num: "ring_ok c xs \<Longrightarrow> cnum c = length xs"
  unfolding ring_ok_def slots_ok_def by blast

lemma holds_count: "holds ap c L \<Longrightarrow> ccount c = length L"
  by (erule holdsE) (simp add: ccount_def ring_num contents_def)

lemma holds_distinct: "holds ap c L \<Longrightarrow> distinct (map fst L)"
  by (erule holdsE) (simp add: ring_keys(2))

lemma holds_back:
  assumes "holds False c L"
  shows "walk_all True c = Some (rev (map snd L))"
proof -
  obtain xs where x: "ring_ok c xs" "tail_ok False c xs" "L = contents c xs" by (rule holdsE [OF assms])
  have "seg c 0 xs" "0 \<notin> set xs" "\<forall>i \<in> set xs. item_at c i \<noteq> None"
    using x(1) by (auto simp: ring_ok_def slots_ok_def)
  from walk_back_seg [OF this] show ?thesis
    using x(2,3) by (simp add: walk_all_def initialize_ra_iterator_def ALWAYS_EMPTY_INDEX_def tail_ok_def)
qed

lemma holds_append:
  assumes h: "holds True c L" and i: "cinsert heap it k False c = (ok, c')"
  shows "ok = (k \<notin> keys L \<and> room heap c) \<and> holds True c' (if ok then L @ [(k, it)] else L)"
proof -
  obtain xs where x: "ring_ok c xs" "tail_ok True c xs" "L = contents c xs" by (rule holdsE [OF h])
  show ?thesis
  proof (cases "cmap c k \<noteq> 0 \<or> \<not> room heap c")
    case True
    then have "\<not> ok" "c' = c" "k \<in> keys L \<or> \<not> room heap c"
      using i ring_keys(1) [OF x(1)] x(3) insert_fails(1) [of heap c]
      by (auto simp: cinsert_def ALWAYS_EMPTY_INDEX_def Let_def split: if_splits)
    then show ?thesis using h by auto
  next
    case False
    then have k0: "cmap c k = 0" and r: "room heap c" by auto
    obtain rc where e: "insert_thing heap (k, it) c = (rc, c')" "ok = (0 \<le> rc)"
      using i k0 by (auto simp: cinsert_def ALWAYS_EMPTY_INDEX_def Let_def split: prod.splits)
    have rc: "0 \<le> rc" using insert_results(1) [of heap "(k, it)" c] e(1) r by simp
    have l: "clast c = last (0 # xs)" using x(2) by (simp add: tail_ok_def)
    obtain n where n: "ring_ok c' (xs @ [n])" "contents c' (xs @ [n]) = contents c xs @ [(k, it)]" "clast c' = n"
      using insert_thing_ring [OF x(1) l _ e(1) rc] k0 by auto
    have "holds True c' (L @ [(k, it)])" unfolding holds_def using n x(3) by (intro exI [of _ "xs @ [n]"]) (simp add: tail_ok_def)
    then show ?thesis using rc e(2) r ring_keys(1) [OF x(1)] k0 x(3) by auto
  qed
qed

lemma holds_first:
  assumes h: "holds ap c L" and ap: "ap \<longrightarrow> L \<noteq> []" and new: "k \<notin> keys L" and i: "insert_first heap it k c = (ok, c')"
  shows "ok = room heap c \<and> holds ap c' (if ok then (k, it) # L else L)"
proof -
  obtain xs where x: "ring_ok c xs" "tail_ok ap c xs" "L = contents c xs" by (rule holdsE [OF h])
  have k0: "cmap c k = 0" using ring_keys(1) [OF x(1)] x(3) new by blast
  have nx: "next_at c 0 = hd (xs @ [0])" using x(1) by (cases xs) (auto simp: ring_ok_def)
  obtain rc where e: "insert_thing_before heap (k, it) (hd (xs @ [0])) c = (rc, c')" "ok = (0 \<le> rc)"
    using i nx by (auto simp: insert_first_def insert_at_def initialize_ra_iterator_def ALWAYS_EMPTY_INDEX_def split: prod.splits)
  have r: "(0 \<le> rc) = room heap c" using insert_results(3) [of heap "(k, it)" "hd (xs @ [0])" c] e(1) by (auto split: if_splits)
  show ?thesis
  proof (cases "room heap c")
    case False
    then show ?thesis using insert_fails(3) [OF False] e r h by auto
  next
    case True
    have p: "prev_at c (hd (xs @ [0])) = last (0 # [])"
      using x ap by (cases xs) (auto simp: ring_ok_def tail_ok_def)
    have ring: "ring_ok c ([] @ xs)" using x(1) by simp
    have rc: "0 \<le> rc" using r True by simp
    obtain n where n: "ring_ok c' (n # xs)" "contents c' (n # xs) = (k, it) # contents c xs" "clast c' = clast c"
      "prev_at c' 0 = (if xs = [] then n else prev_at c 0)"
      using insert_thing_before_ring [OF ring p _ e(1) rc] k0 by auto
    have "tail_ok ap c' (n # xs)" using x(2,3) ap n(3,4) by (auto simp: tail_ok_def split: if_splits)
    then have "holds ap c' ((k, it) # L)" unfolding holds_def using n(1,2) x(3) by metis
    then show ?thesis using True e(2) rc by simp
  qed
qed

lemma map_of_remove: "map_of (list_remove k L) k' = (if k' = k then None else map_of L k')"
  unfolding list_remove_def by (induction L) auto

lemma keys_after: "loc \<in> keys L \<Longrightarrow> keys (list_after loc t L) = insert (fst t) (keys L)"
  by (induction L) auto

lemma map_of_after: "loc \<in> keys L \<Longrightarrow> fst t \<notin> keys L \<Longrightarrow>
  map_of (list_after loc t L) k = (if k = fst t then Some (snd t) else map_of L k)"
proof (induction L)
  case (Cons x L)
  then have "fst x \<noteq> loc \<Longrightarrow> map_of (list_after loc t L) k = (if k = fst t then Some (snd t) else map_of L k)" by auto
  then show ?case using Cons.prems by (cases x; cases t) auto
qed simp

section \<open>The interface\<close>

text \<open>What a client relies on, whichever way the container is used.\<close>

locale named_list =
  fixes rep :: "'c \<Rightarrow> (char list \<times> 'a) list \<Rightarrow> bool"
    and find :: "char list \<Rightarrow> 'c \<Rightarrow> 'a option"
    and del :: "char list \<Rightarrow> 'c \<Rightarrow> bool \<times> 'c"
    and after :: "char list \<Rightarrow> 'a \<Rightarrow> char list \<Rightarrow> 'c \<Rightarrow> bool \<times> 'c"
    and items :: "'c \<Rightarrow> 'a list option"
    and space :: "'c \<Rightarrow> bool"
  assumes rep_distinct: "rep c L \<Longrightarrow> distinct (map fst L)"
    and rep_find: "rep c L \<Longrightarrow> find k c = map_of L k"
    and rep_del: "rep c L \<Longrightarrow> del k c = (ok, c') \<Longrightarrow> ok = (k \<in> keys L) \<and> rep c' (list_remove k L)"
    and rep_after: "rep c L \<Longrightarrow> k \<notin> keys L \<Longrightarrow> after loc it k c = (ok, c') \<Longrightarrow>
      ok = (loc \<in> keys L \<and> space c) \<and> rep c' (if ok then list_after loc (k, it) L else L)"
    and rep_items: "rep c L \<Longrightarrow> items c = Some (map snd L)"
begin

lemma find_after_del:
  assumes "rep c L" and "del k c = (ok, c')"
  shows "find k' c' = (if k' = k then None else find k' c)"
proof -
  have "rep c' (list_remove k L)" using rep_del [OF assms] by simp
  from rep_find [OF this] show ?thesis using rep_find [OF assms(1)] by (simp add: map_of_remove)
qed

lemma find_after_after:
  assumes "rep c L" and "find k c = None" and "after loc it k c = (True, c')"
  shows "find k' c' = (if k' = k then Some it else find k' c)"
proof -
  have n: "k \<notin> keys L" using assms(2) rep_find [OF assms(1)] by (simp add: map_of_eq_None_iff)
  from rep_after [OF assms(1) n assms(3)] show ?thesis
    using rep_find [OF assms(1)] rep_find [of c' "list_after loc (k, it) L"] n by (simp add: map_of_after)
qed

end

text \<open>A list that grows at its end, and one that grows at its front and is read backwards.\<close>

locale append_list = named_list rep find del after items space
  for rep :: "'c \<Rightarrow> (char list \<times> 'a) list \<Rightarrow> bool" and find del after items space +
  fixes app :: "'a \<Rightarrow> char list \<Rightarrow> 'c \<Rightarrow> bool \<times> 'c"
  assumes rep_app: "rep c L \<Longrightarrow> app it k c = (ok, c') \<Longrightarrow>
      ok = (k \<notin> keys L \<and> space c) \<and> rep c' (if ok then L @ [(k, it)] else L)"
begin

lemma find_after_app:
  assumes "rep c L" and "app it k c = (ok, c')"
  shows "find k' c' = (if k' = k \<and> ok then Some it else find k' c)"
proof -
  have r: "ok = (k \<notin> keys L \<and> space c)" "rep c' (if ok then L @ [(k, it)] else L)" using rep_app [OF assms] by blast+
  show ?thesis
  proof (cases ok)
    case True
    then have "map_of L k = None" using r(1) by (simp add: map_of_eq_None_iff)
    then show ?thesis using True r(2) rep_find [OF assms(1)] rep_find [of c' "L @ [(k, it)]"]
      by (auto simp: map_add_def split: option.splits)
  next
    case False
    then show ?thesis using r(2) rep_find [OF assms(1)] rep_find [of c' L] by simp
  qed
qed

end

locale rank_list = named_list rep find del after items space
  for rep :: "'c \<Rightarrow> (char list \<times> 'a) list \<Rightarrow> bool" and find del after items space +
  fixes front :: "'a \<Rightarrow> char list \<Rightarrow> 'c \<Rightarrow> bool \<times> 'c" and backwards :: "'c \<Rightarrow> 'a list option"
  assumes rep_front: "rep c L \<Longrightarrow> k \<notin> keys L \<Longrightarrow> front it k c = (ok, c') \<Longrightarrow>
      ok = space c \<and> rep c' (if ok then (k, it) # L else L)"
    and rep_back: "rep c L \<Longrightarrow> backwards c = Some (rev (map snd L))"
begin

lemma find_after_front:
  assumes "rep c L" and "find k c = None" and "front it k c = (True, c')"
  shows "find k' c' = (if k' = k then Some it else find k' c)"
proof -
  have n: "k \<notin> keys L" using assms(2) rep_find [OF assms(1)] by (simp add: map_of_eq_None_iff)
  from rep_front [OF assms(1) n assms(3)] show ?thesis
    using rep_find [OF assms(1)] rep_find [of c' "(k, it) # L"] by simp
qed

end

interpretation al: append_list "holds True" cfind cremove "insert_after heap" "walk_all False" "room heap"
    "\<lambda>it k. cinsert heap it k False" for heap
  by unfold_locales
    (blast intro: holds_distinct holds_find holds_walk holds_remove holds_after holds_append
      dest: holds_remove holds_after holds_append)+

interpretation rk: rank_list "holds False" cfind cremove "insert_after heap" "walk_all False" "room heap"
    "insert_first heap" "walk_all True" for heap
  by unfold_locales
    (blast intro: holds_distinct holds_find holds_walk holds_back dest: holds_remove holds_after
      holds_first [where ap = False, simplified])+

end
