(* ===== verification/Container_Props.thy ===== *)
theory Container_Props
  imports Container_Laws
begin

text \<open>
  Properties of the containers: every sequence of operations that fits one of the two uses refines the
  same operations on a list, and what happens outside these uses.
\<close>

section \<open>Sequences of operations\<close>

datatype 'a cop =
    Append "char list" 'a
  | First "char list" 'a
  | After "char list" "char list" 'a
  | Remove "char list"

fun run_op :: "(nat \<Rightarrow> bool) \<Rightarrow> 'a cop \<Rightarrow> 'a item_container \<Rightarrow> 'a item_container" where
  "run_op heap (Append k it) c = snd (cinsert heap it k False c)"
| "run_op heap (First k it) c = snd (insert_first heap it k c)"
| "run_op heap (After loc k it) c = snd (insert_after heap loc it k c)"
| "run_op heap (Remove k) c = snd (cremove k c)"

fun run_ops :: "(nat \<Rightarrow> bool) \<Rightarrow> 'a cop list \<Rightarrow> 'a item_container \<Rightarrow> 'a item_container" where
  "run_ops heap [] c = c"
| "run_ops heap (p # ps) c = run_ops heap ps (run_op heap p c)"

fun spec_cop :: "'a cop \<Rightarrow> (char list \<times> 'a) list \<Rightarrow> (char list \<times> 'a) list" where
  "spec_cop (Append k it) L = (if k \<in> keys L then L else L @ [(k, it)])"
| "spec_cop (First k it) L = (k, it) # L"
| "spec_cop (After loc k it) L = (if loc \<in> keys L then list_after loc (k, it) L else L)"
| "spec_cop (Remove k) L = list_remove k L"

fun spec_cops :: "'a cop list \<Rightarrow> (char list \<times> 'a) list \<Rightarrow> (char list \<times> 'a) list" where
  "spec_cops [] L = L"
| "spec_cops (p # ps) L = spec_cops ps (spec_cop p L)"

text \<open>
  The operations of the list of all jobs (\<open>appending\<close>) are \<open>insert\<close>, \<open>insert_after\<close> and \<open>remove\<close>; those of
  a queue are \<open>insert_first\<close>, \<open>insert_after\<close> and \<open>remove\<close>.  Except for \<open>insert\<close>, which checks it, the new
  name must not be in the list.
\<close>

fun cop_fits :: "bool \<Rightarrow> 'a cop \<Rightarrow> (char list \<times> 'a) list \<Rightarrow> bool" where
  "cop_fits appending (Append k it) L = appending"
| "cop_fits appending (First k it) L = ((appending \<longrightarrow> L \<noteq> []) \<and> k \<notin> keys L)"
| "cop_fits appending (After loc k it) L = (k \<notin> keys L)"
| "cop_fits appending (Remove k) L = True"

fun cops_fit :: "bool \<Rightarrow> 'a cop list \<Rightarrow> (char list \<times> 'a) list \<Rightarrow> bool" where
  "cops_fit appending [] L = True"
| "cops_fit appending (p # ps) L = (cop_fits appending p L \<and> cops_fit appending ps (spec_cop p L))"

lemma room_always: "room (\<lambda>n. True) c"
  by (simp add: room_def)

lemma run_op_holds:
  assumes "holds ap c L" and "cop_fits ap p L"
  shows "holds ap (run_op (\<lambda>n. True) p c) (spec_cop p L)"
proof (cases p)
  case (Append k it)
  then show ?thesis using assms holds_append [of c L "\<lambda>n. True" it k] room_always
    by (cases "cinsert (\<lambda>n. True) it k False c") (auto split: if_splits)
next
  case (First k it)
  then show ?thesis using assms holds_first [OF assms(1), of k "\<lambda>n. True" it]
    by (cases "insert_first (\<lambda>n. True) it k c") (auto simp: room_always)
next
  case (After loc k it)
  then show ?thesis using assms holds_after [OF assms(1), of k "\<lambda>n. True" loc it] room_always
    by (cases "insert_after (\<lambda>n. True) loc it k c") (auto split: if_splits)
next
  case (Remove k)
  then show ?thesis using holds_remove [OF assms(1), of k] by (cases "cremove k c") auto
qed

lemma run_ops_holds:
  assumes "holds ap c L" and "cops_fit ap ps L"
  shows "holds ap (run_ops (\<lambda>n. True) ps c) (spec_cops ps L)"
  using assms by (induction ps arbitrary: c L) (auto intro: run_op_holds)

text \<open>
  C3: a container is a list of named items.  After any sequence of operations that fits its use, from
  the empty container and while memory lasts, an iterator returns the items of the list that the same
  operations build, in order and each once; a queue can also be read backwards; a lookup finds what
  the list holds and the count is its length.
\<close>

theorem container_refines_list:
  assumes "cops_fit appending ps []"
  shows "walk_all False (run_ops (\<lambda>n. True) ps new_container) = Some (map snd (spec_cops ps [])) \<and>
    (\<not> appending \<longrightarrow> walk_all True (run_ops (\<lambda>n. True) ps new_container) = Some (rev (map snd (spec_cops ps [])))) \<and>
    cfind k (run_ops (\<lambda>n. True) ps new_container) = map_of (spec_cops ps []) k \<and>
    ccount (run_ops (\<lambda>n. True) ps new_container) = length (spec_cops ps []) \<and>
    distinct (map fst (spec_cops ps []))"
proof -
  have h: "holds appending (run_ops (\<lambda>n. True) ps new_container) (spec_cops ps [])"
    by (rule run_ops_holds [OF holds_new assms])
  show ?thesis
    using holds_walk [OF h] holds_back holds_find [OF h] holds_count [OF h] holds_distinct [OF h] h by auto
qed

theorem container_refines_list_witness:
  "walk_all True (run_ops (\<lambda>n. True) [First ''a'' (1::nat), After ''a'' ''c'' 3, After ''a'' ''b'' 2, Remove ''c''] new_container)
     = Some [2, 1]"
  using container_refines_list [of False "[First ''a'' (1::nat), After ''a'' ''c'' 3, After ''a'' ''b'' 2, Remove ''c'']"]
  by (simp add: list_remove_def)

section \<open>Outside the two uses\<close>

text \<open>
  \<open>insert_before\<close> reports failure when it succeeds.  The item is linked in before its neighbour, but
  the slot number that the private operation returns is compared with 0, so that the caller is always
  told that nothing was inserted.
\<close>

theorem insert_before_reports_failure:
  assumes "holds appending c L" and "k \<notin> keys L" and "loc \<in> keys L" and "room heap c"
  shows "\<exists>c'. insert_before heap loc it k c = (False, c') \<and> holds appending c' (list_before loc (k, it) L) \<and>
    cfind k c' = Some it"
proof -
  obtain xs where x: "ring_ok c xs" "tail_ok appending c xs" "L = contents c xs" by (rule holdsE [OF assms(1)])
  have k0: "cmap c k = 0" and l0: "cmap c loc \<noteq> 0" using ring_keys(1) [OF x(1)] x(3) assms(2,3) by blast+
  obtain us v vs where s: "xs = us @ cmap c loc # vs" "item_at c (cmap c loc) = Some (loc, v)"
    "contents c xs = contents c us @ (loc, v) # contents c vs" "loc \<notin> keys (contents c us)"
    using ring_split [OF x(1) l0] by metis
  let ?vs = "cmap c loc # vs"
  obtain rc c' where e: "insert_thing_before heap (k, it) (hd (?vs @ [0])) c = (rc, c')" by (metis prod.exhaust)
  have rc: "rc = int (next_slot c)" using insert_results(3) [of heap "(k, it)" "hd (?vs @ [0])" c] e assms(4) by simp
  then have rc0: "0 \<le> rc" "rc \<noteq> 0" using x(1) by (simp_all add: ring_ok_def free_ok_def)
  have ring: "ring_ok c (us @ ?vs)" using x(1) s(1) by simp
  then have p: "prev_at c (hd (?vs @ [0])) = last (0 # us)" by (simp add: ring_ok_def seg_append)
  obtain n where n: "ring_ok c' (us @ n # ?vs)" "contents c' (us @ n # ?vs) = contents c us @ (k, it) # contents c ?vs"
    "clast c' = clast c" "prev_at c' 0 = prev_at c 0"
    using insert_thing_before_ring [OF ring p _ e rc0(1)] k0 by auto
  have "tail_ok appending c' (us @ n # ?vs)" using x(2) n(3,4) unfolding tail_ok_def s(1) by simp
  then have h: "holds appending c' (list_before loc (k, it) L)"
    unfolding holds_def using n(1,2) x(3) s(2,3) list_ops_at(2) [OF s(4)] by (intro exI [of _ "us @ n # ?vs"]) simp
  moreover have "insert_before heap loc it k c = (False, c')"
    using e l0 rc0 by (simp add: insert_before_def ALWAYS_EMPTY_INDEX_def)
  moreover have "map_of (list_before loc (k, it) L) k = Some it"
  proof -
    have "map_of (contents c us) k = None" using assms(2) x(3) s(3) by (auto simp: map_of_eq_None_iff)
    then show ?thesis using x(3) s(3) list_ops_at(2) [OF s(4)] by (simp add: map_add_def)
  qed
  ultimately show ?thesis using holds_find [OF h] by auto
qed

text \<open>
  Removing the last item blinds the reverse iterator.  When the item that was appended last is
  removed from the list of all jobs, slot 0 still points back to its slot: a reverse iterator returns
  nothing, however many items there are, and \<open>pop_back\<close> follows the null pointer of the emptied slot.
\<close>

theorem remove_last_blinds_reverse:
  assumes "holds True c L" and "cinsert heap it k False c = (True, c1)" and "cremove k c1 = (True, c2)"
  shows "walk_all True c2 = Some [] \<and> pop_back c2 = None \<and> walk_all False c2 = Some (map snd L)"
proof -
  obtain xs where x: "ring_ok c xs" "tail_ok True c xs" "L = contents c xs" by (rule holdsE [OF assms(1)])
  have new: "k \<notin> keys L" and h1: "holds True c1 (L @ [(k, it)])" using holds_append [OF assms(1,2)] by auto
  have k0: "cmap c k = 0" using ring_keys(1) [OF x(1)] x(3) new by blast
  obtain rc where e: "insert_thing heap (k, it) c = (rc, c1)" "0 \<le> rc"
    using assms(2) k0 by (auto simp: cinsert_def ALWAYS_EMPTY_INDEX_def Let_def split: prod.splits)
  have l: "clast c = last (0 # xs)" using x(2) by (simp add: tail_ok_def)
  obtain n where n: "ring_ok c1 (xs @ [n])" "contents c1 (xs @ [n]) = contents c xs @ [(k, it)]" "clast c1 = n" "prev_at c1 0 = n"
    using insert_thing_ring [OF x(1) l _ e] k0 by auto
  have it: "item_at c1 n = Some (k, it)" "n \<noteq> 0" "cmap c1 k = n"
  proof -
    show "n \<noteq> 0" using n(1) by (simp add: ring_ok_def slots_ok_def)
    have "item_at c1 n \<noteq> None" using n(1) by (simp add: ring_ok_def slots_ok_def)
    moreover have "the (item_at c1 n) = (k, it)" using n(2) by simp
    ultimately show t: "item_at c1 n = Some (k, it)" by force
    show "cmap c1 k = n" using n(1) t by (auto simp: ring_ok_def map_ok_def)
  qed
  have c2: "c2 = take_out n (k, it) c1"
    using assms(3) it by (simp add: cremove_def remove_thing_from_index_def ALWAYS_EMPTY_INDEX_def)
  note t = take_out_ring [OF n(1) it(1)]
  have p: "prev_at c2 0 = n" using t(4) n(3,4) unfolding c2 by simp
  have "slots_ok c2 xs" "n < cmax c1" "n \<notin> set xs"
    using t(1) n(1) unfolding c2 by (simp_all add: ring_ok_def slots_ok_def)
  moreover have "cmax c2 = cmax c1" unfolding c2 by (simp add: take_out_def unlink_slot_def Let_def)
  ultimately have i: "item_at c2 n = None" unfolding slots_ok_def by metis
  have "walk c2 True n = Some []" using i it(2) by (subst walk.simps) (simp add: next_thing_from_back_def ALWAYS_EMPTY_INDEX_def)
  moreover have "holds True c2 L"
  proof -
    have "list_remove k (L @ [(k, it)]) = L" using list_ops_at(3) [OF new, of "[]" it] by simp
    then show ?thesis using holds_remove [OF h1 assms(3)] by simp
  qed
  ultimately show ?thesis using p i it(2) holds_walk
    by (auto simp: walk_all_def initialize_ra_iterator_def ALWAYS_EMPTY_INDEX_def pop_back_def pop_at_def)
qed

theorem remove_last_blinds_reverse_witness:
  "\<exists>c1 c2. cinsert (\<lambda>n. True) (2::nat) ''b'' False (run_ops (\<lambda>n. True) [Append ''a'' 1] new_container) = (True, c1) \<and>
     cremove ''b'' c1 = (True, c2) \<and> walk_all True c2 = Some [] \<and> walk_all False c2 = Some [1] \<and> pop_back c2 = None"
proof -
  let ?c = "run_ops (\<lambda>n. True) [Append ''a'' (1::nat)] new_container"
  have h: "holds True ?c [(''a'', 1)]" using run_ops_holds [OF holds_new, of True "[Append ''a'' (1::nat)]"] by simp
  obtain ok c1 where c1: "cinsert (\<lambda>n. True) 2 ''b'' False ?c = (ok, c1)" by (metis prod.exhaust)
  have ok: "ok" "holds True c1 [(''a'', 1), (''b'', 2)]" using holds_append [OF h c1] by (auto simp: room_always)
  obtain ok2 c2 where c2: "cremove ''b'' c1 = (ok2, c2)" by (metis prod.exhaust)
  have "ok2" using holds_remove [OF ok(2) c2] by simp
  then show ?thesis using remove_last_blinds_reverse [OF h _ ] c1 c2 ok(1) by auto
qed

text \<open>
  C40: \<open>insert\<close> hides a queue.  In a container that has grown by \<open>insert_first\<close> and \<open>insert_after\<close>, as the
  job list of a queue does, \<open>last\<close> is 0; one \<open>insert\<close> then overwrites the link to the first item.  The
  items are counted and found by name, but an iterator returns the new one only.
\<close>

theorem insert_hides_queue:
  assumes "holds False c L" and "k \<notin> keys L" and "room heap c"
  shows "\<exists>c'. cinsert heap it k False c = (True, c') \<and> walk_all False c' = Some [it] \<and> ccount c' = length L + 1 \<and>
    (\<forall>k' v. map_of L k' = Some v \<longrightarrow> cfind k' c' = Some v)"
proof -
  obtain xs where x: "ring_ok c xs" "tail_ok False c xs" "L = contents c xs" by (rule holdsE [OF assms(1)])
  have k0: "cmap c k = 0" using ring_keys(1) [OF x(1)] x(3) assms(2) by blast
  obtain c0 where r: "check_and_resize heap c = (True, c0)" using assms(3) by (cases "check_and_resize heap c") (simp add: room_resize)
  note z = resize_ready [OF r x(1)]
  let ?r = "next_slot c0"
  define c1 where "c1 = (set_next ?r 0 (set_prev 0 ?r ((set_next 0 ?r (set_next 0 ?r (set_prev ?r 0 (place_item (k, it) c0))))\<lparr>clast := ?r\<rparr>)))\<lparr>cnum := cnum c0 + 1\<rparr>"
  have cl: "clast c0 = 0" using z(4) x(2) by (simp add: tail_ok_def)
  obtain n where u: "update_next_slot c1 = c1\<lparr>next_slot := n\<rparr>" by (rule update_next_slot_spec [of c1])
  have i: "insert_thing heap (k, it) c = (int ?r, c1\<lparr>next_slot := n\<rparr>)"
    using r cl u by (simp add: insert_thing_def c1_def Let_def ALWAYS_EMPTY_INDEX_def)
  let ?c = "c1\<lparr>next_slot := n\<rparr>"
  have f: "next_at ?c 0 = ?r" "next_at ?c ?r = 0" "item_at ?c ?r = Some (k, it)" "cnum ?c = cnum c0 + 1" "?r \<noteq> 0"
    "cmap ?c = (cmap c)(k := ?r)" "\<And>j. j \<noteq> ?r \<Longrightarrow> item_at ?c j = item_at c0 j"
    unfolding c1_def using z(5,6,7,8,10) by (simp_all del: length_greater_0_conv)
  have w: "walk ?c False ?r = Some [it]"
    using f by (subst walk.simps, subst walk.simps) (simp add: next_thing_def ALWAYS_EMPTY_INDEX_def)
  have num: "cnum ?c = length L + 1"
    using f(4) ring_num [OF z(1)] x(3) by (simp add: contents_def)
  have fnd: "cfind k' ?c = Some v" if "map_of L k' = Some v" for k' v
  proof -
    have c0: "cfind k' c0 = Some v" using cfind_ring [OF z(1)] z(2) x(3) that by simp
    have "k' \<noteq> k" using that assms(2) by (metis map_of_eq_None_iff option.distinct(1))
    moreover have "cmap c0 k' \<noteq> 0" using c0 by (auto simp: cfind_def ALWAYS_EMPTY_INDEX_def Let_def split: if_splits)
    moreover have "cmap c0 k' \<in> set xs" using z(1) calculation(2) by (auto simp: ring_ok_def map_ok_def)
    moreover have "item_at ?c (cmap c0 k') = item_at c0 (cmap c0 k')"
      by (rule f(7)) (use calculation(3) z(9) in auto)
    ultimately show ?thesis using c0 f(6) z(5) by (simp add: cfind_def Let_def ALWAYS_EMPTY_INDEX_def)
  qed
  have "cinsert heap it k False c = (True, ?c)"
    using i k0 by (simp add: cinsert_def ALWAYS_EMPTY_INDEX_def)
  then show ?thesis using w f(1) num fnd
    by (intro exI [of _ ?c]) (auto simp: walk_all_def initialize_ra_iterator_def ALWAYS_EMPTY_INDEX_def ccount_def)
qed

theorem insert_hides_queue_witness:
  "\<exists>c'. cinsert (\<lambda>n. True) (3::nat) ''c'' False (run_ops (\<lambda>n. True) [First ''a'' 1, After ''a'' ''b'' 2] new_container) = (True, c') \<and>
     walk_all False c' = Some [3] \<and> ccount c' = 3 \<and> cfind ''a'' c' = Some 1"
proof -
  have h: "holds False (run_ops (\<lambda>n. True) [First ''a'' (1::nat), After ''a'' ''b'' 2] new_container) [(''a'', 1), (''b'', 2)]"
    using run_ops_holds [OF holds_new, of False "[First ''a'' (1::nat), After ''a'' ''b'' 2]"] by simp
  show ?thesis using insert_hides_queue [OF h _ room_always, of "''c''" 3] by fastforce
qed

theorem insert_before_reports_failure_witness:
  "\<exists>c'. insert_before (\<lambda>n. True) ''b'' (9::nat) ''x'' (run_ops (\<lambda>n. True) [Append ''a'' 1, Append ''b'' 2] new_container) = (False, c') \<and>
     cfind ''x'' c' = Some 9"
proof -
  have h: "holds True (run_ops (\<lambda>n. True) [Append ''a'' (1::nat), Append ''b'' 2] new_container) [(''a'', 1), (''b'', 2)]"
    using run_ops_holds [OF holds_new, of True "[Append ''a'' (1::nat), Append ''b'' 2]"] by simp
  show ?thesis using insert_before_reports_failure [OF h _ _ room_always, of "''x''" "''b''" 9] by auto
qed

end
