(* ===== verification/Job_Names.thy ===== *)
theory Job_Names
  imports C_Text
begin

text \<open>
  Names of jobs: \<open>get_correct_jobname\<close> of \<^verbatim>\<open>server/job_container.c\<close>, which completes a job id with the server
  name and the alias of the server before a lookup, and the start of \<open>svr_find_job\<close>, which takes the
  name of the server and the mark of a sub-job off the id.
\<close>

section \<open>Definitions\<close>

text \<open>The two server attributes, \<open>None\<close> when they are not set, and the name of the server.\<close>

record name_cfg =
  display_job_server_suffix :: "bool option"
  job_suffix_alias :: "char list option"
  server_name :: "char list"

definition get_correct_jobname :: "name_cfg \<Rightarrow> char list \<Rightarrow> char list" where
  "get_correct_jobname cfg jobid =
     (let server_suffix = (case display_job_server_suffix cfg of None \<Rightarrow> True | Some b \<Rightarrow> b);
          (head, first_suffix) = strchr_cut (CHR ''.'') jobid;
          second_suffix = (case first_suffix of None \<Rightarrow> None | Some f \<Rightarrow> snd (strchr_cut (CHR ''.'') f))
      in case job_suffix_alias cfg of
           Some alias \<Rightarrow>
             (if server_suffix then
                (case second_suffix of
                   Some s \<Rightarrow> (if s = alias then jobid else [])
                 | None \<Rightarrow>
                     (case first_suffix of
                        None \<Rightarrow> jobid @ ''.'' @ server_name cfg @ ''.'' @ alias
                      | Some _ \<Rightarrow> jobid @ ''.'' @ alias))
              else head @ ''.'' @ alias)
         | None \<Rightarrow>
             (if server_suffix then
                (case first_suffix of Some _ \<Rightarrow> jobid | None \<Rightarrow> jobid @ ''.'' @ server_name cfg)
              else head))"

text \<open>
  The key under which \<open>svr_find_job\<close> looks, the id before completion, and whether the id names the
  external sub-job (\<open>dash\<close> is not null).
\<close>

definition find_job_key :: "name_cfg \<Rightarrow> char list \<Rightarrow> bool \<Rightarrow> char list \<times> char list \<times> bool" where
  "find_job_key cfg jobid get_subjob =
     (let work_jobid = fst (strchr_cut (CHR ''@'') (snprintf_text (PBS_MAXSVRJOBID + 1) jobid));
          (before_dash, after_dash) = strchr_cut (CHR ''-'') work_jobid;
          (before_dot, after_dot) = strchr_cut (CHR ''.'') work_jobid;
          dash = (get_subjob \<and> after_dash \<noteq> None \<and> after_dot \<noteq> None \<and> length before_dash < length before_dot);
          jid = (if dash then snprintf_text (PBS_MAXSVRJOBID + 1) (before_dash @ tl (the after_dash)) else work_jobid);
          comp = (if display_job_server_suffix cfg \<noteq> None \<or> job_suffix_alias cfg \<noteq> None
                  then get_correct_jobname cfg jid else jid)
      in (comp, jid, dash))"

section \<open>Completed names\<close>

text \<open>
  Completing the name of a job is idempotent where the name of the server and the alias have no
  dot: the id under which a job is found is the id that every later lookup uses.
\<close>

theorem jobname_idempotent:
  assumes "CHR ''.'' \<notin> set (server_name cfg)" and "\<forall>a \<in> set_option (job_suffix_alias cfg). CHR ''.'' \<notin> set a"
    and "get_correct_jobname cfg jobid \<noteq> []"
  shows "get_correct_jobname cfg (get_correct_jobname cfg jobid) = get_correct_jobname cfg jobid"
proof (cases "strchr_cut (CHR ''.'') jobid")
  case (Pair head first)
  show ?thesis
  proof (cases first)
    case None
    then have h: "CHR ''.'' \<notin> set jobid" "head = jobid" using Pair by (cases rule: cut_cases [of "CHR ''.''" jobid]; simp)+
    have c: "strchr_cut (CHR ''.'') (jobid @ CHR ''.'' # t) = (jobid, Some t)" for t using cut_present h(1) by metis
    have s: "strchr_cut (CHR ''.'') (server_name cfg @ CHR ''.'' # t) = (server_name cfg, Some t)" for t using cut_present assms(1) by metis
    show ?thesis using assms Pair None h c s cut_absent
      by (auto simp: get_correct_jobname_def split: option.splits)
  next
    case (Some f)
    then obtain a where a: "jobid = a @ CHR ''.'' # f" "CHR ''.'' \<notin> set a" "head = a"
      using Pair by (cases rule: cut_cases [of "CHR ''.''" jobid]) auto
    have c: "strchr_cut (CHR ''.'') (a @ CHR ''.'' # t) = (a, Some t)" for t using cut_present a(2) by metis
    obtain f1 g where f: "strchr_cut (CHR ''.'') f = (f1, g)" by (metis prod.exhaust)
    have n: "g = None \<Longrightarrow> strchr_cut (CHR ''.'') (f @ CHR ''.'' # t) = (f, Some t)" for t
      using f cut_present by (cases rule: cut_cases [of "CHR ''.''" f]) auto
    show ?thesis using assms a c f n cut_absent
      by (auto simp: get_correct_jobname_def split: option.splits if_splits)
  qed
qed

theorem jobname_idempotent_witness:
  "get_correct_jobname \<lparr>display_job_server_suffix = Some True, job_suffix_alias = Some ''dev'', server_name = ''head''\<rparr> ''12'' = ''12.head.dev'' \<and>
   get_correct_jobname \<lparr>display_job_server_suffix = Some True, job_suffix_alias = Some ''dev'', server_name = ''head''\<rparr> ''12.head.dev'' = ''12.head.dev''"
proof -
  let ?cfg = "\<lparr>display_job_server_suffix = Some True, job_suffix_alias = Some ''dev'', server_name = ''head''\<rparr>"
  have "get_correct_jobname ?cfg ''12'' = ''12.head.dev''" by (simp add: get_correct_jobname_def)
  then show ?thesis using jobname_idempotent [of ?cfg "''12''"] by simp
qed

text \<open>
  With an alias, no job of a server whose name has a dot can be found.  The part of the id behind
  its second dot is taken for the alias; as it is not, the completed name stays empty, and the lookup
  searches for the job without a name.
\<close>

theorem alias_loses_dotted_server:
  assumes "CHR ''.'' \<notin> set num" and "server_name cfg = host @ ''.'' @ domain" and "CHR ''.'' \<notin> set host"
    and "job_suffix_alias cfg = Some alias" and "display_job_server_suffix cfg \<noteq> Some False" and "domain \<noteq> alias"
  shows "get_correct_jobname cfg (num @ ''.'' @ server_name cfg) = []"
proof -
  have a: "strchr_cut (CHR ''.'') (num @ CHR ''.'' # t) = (num, Some t)" for t using cut_present assms(1) by metis
  have b: "strchr_cut (CHR ''.'') (host @ CHR ''.'' # t) = (host, Some t)" for t using cut_present assms(3) by metis
  show ?thesis using assms a b by (auto simp: get_correct_jobname_def split: option.splits)
qed

theorem alias_loses_dotted_server_witness:
  "get_correct_jobname \<lparr>display_job_server_suffix = None, job_suffix_alias = Some ''dev'', server_name = ''head.org''\<rparr> ''12.head.org'' = []"
  using alias_loses_dotted_server [of "''12''" "\<lparr>display_job_server_suffix = None, job_suffix_alias = Some ''dev'', server_name = ''head.org''\<rparr>"
    "''head''" "''org''" "''dev''"] by simp

end
