(* ===== verification/Csv.thy ===== *)
theory Csv
  imports C_Text
begin

text \<open>
  Comma separated lists, \<^verbatim>\<open>lib/Libcsv/csv.c\<close>, as checkpoint attributes are.  \<open>csv_nth\<close> copies an entry into a
  buffer of 128 characters; an entry of exactly 128 leaves the buffer without a NUL, and reading it
  runs into the memory behind: the outer \<open>None\<close>.  A null pointer is the inner \<open>None\<close>.
\<close>

section \<open>Definitions\<close>

fun commas :: "char list \<Rightarrow> nat" where
  "commas [] = 0"
| "commas (c # cs) = (if c = CHR '','' then Suc (commas cs) else commas cs)"

definition csv_length :: "char list option \<Rightarrow> nat" where
  "csv_length csv_str = (case csv_str of None \<Rightarrow> 0 | Some s \<Rightarrow> if s = [] then 0 else Suc (commas s))"

text \<open>The pointer behind the \<open>n\<close>-th comma.\<close>

fun csv_skip :: "nat \<Rightarrow> char list \<Rightarrow> char list option" where
  "csv_skip 0 cp = Some cp"
| "csv_skip (Suc n) cp = (case strchr_cut (CHR '','') cp of (_, None) \<Rightarrow> None | (_, Some r) \<Rightarrow> csv_skip n r)"

definition csv_nth :: "char list option \<Rightarrow> nat \<Rightarrow> char list option option" where
  "csv_nth csv_str n =
     (case csv_str of
        None \<Rightarrow> Some None
      | Some s \<Rightarrow>
          (if s = [] then Some None
           else case csv_skip n s of
                  None \<Rightarrow> Some None
                | Some cp \<Rightarrow>
                    (case strchr_cut (CHR '','') cp of
                       (entry, Some _) \<Rightarrow>
                         (if length entry > 128 then Some None
                          else if length entry = 128 then None
                          else Some (Some entry))
                     | (entry, None) \<Rightarrow> Some (Some (snprintf_text 128 entry)))))"

definition is_alpha :: "char \<Rightarrow> bool" where
  "is_alpha c \<longleftrightarrow> (let n = (of_char c :: nat) in 65 \<le> n \<and> n \<le> 90 \<or> 97 \<le> n \<and> n \<le> 122)"

definition csv_matches :: "char list \<Rightarrow> char list \<Rightarrow> bool" where
  "csv_matches search cp \<longleftrightarrow>
     length search \<le> length cp \<and> \<not> (length search < length cp \<and> is_alpha (cp ! length search)) \<and> take (length search) cp = search"

text \<open>The loop of \<open>csv_find_string\<close> over the entries from \<open>i\<close> on, of which \<open>n\<close> are left.\<close>

fun csv_find_loop :: "nat \<Rightarrow> nat \<Rightarrow> char list option \<Rightarrow> char list \<Rightarrow> char list option option" where
  "csv_find_loop 0 i csv_str search = Some None"
| "csv_find_loop (Suc n) i csv_str search =
     (case csv_nth csv_str i of
        None \<Rightarrow> None
      | Some None \<Rightarrow> csv_find_loop n (Suc i) csv_str search
      | Some (Some entry) \<Rightarrow>
          (let cp = dropWhile isspace entry
           in if csv_matches search cp then Some (Some cp) else csv_find_loop n (Suc i) csv_str search))"

definition csv_find_string :: "char list option \<Rightarrow> char list option \<Rightarrow> char list option option" where
  "csv_find_string csv_str search_str =
     (case search_str of None \<Rightarrow> Some None | Some search \<Rightarrow> csv_find_loop (csv_length csv_str) 0 csv_str search)"

definition csv_find_value :: "char list option \<Rightarrow> char list option \<Rightarrow> char list option option" where
  "csv_find_value csv_str search_str =
     (case csv_find_string csv_str search_str of
        None \<Rightarrow> None
      | Some None \<Rightarrow> Some None
      | Some (Some cp) \<Rightarrow> Some (snd (strchr_cut (CHR ''='') cp)))"

section \<open>Lists of entries\<close>

text \<open>The text of a list of entries without commas.\<close>

fun csv_join :: "char list list \<Rightarrow> char list" where
  "csv_join [] = []"
| "csv_join [e] = e"
| "csv_join (e # es) = e @ CHR '','' # csv_join es"

definition entry_ok :: "char list \<Rightarrow> bool" where
  "entry_ok e \<longleftrightarrow> CHR '','' \<notin> set e \<and> length e < 128"

lemma commas_append: "commas (a @ b) = commas a + commas b"
  by (induction a) auto

lemma commas_none: "CHR '','' \<notin> set a \<Longrightarrow> commas a = 0"
  by (induction a) auto

lemma commas_join: "\<forall>e \<in> set es. CHR '','' \<notin> set e \<Longrightarrow> commas (csv_join es) = length es - 1"
  by (induction es rule: csv_join.induct) (auto simp: commas_append commas_none)

lemma csv_skip_join:
  assumes "\<forall>e \<in> set es. CHR '','' \<notin> set e" and "n < length es"
  shows "csv_skip n (csv_join es) = Some (csv_join (drop n es))"
  using assms
proof (induction es arbitrary: n rule: csv_join.induct)
  case (3 e e' es)
  show ?case
  proof (cases n)
    case (Suc m)
    have "strchr_cut (CHR '','') (csv_join (e # e' # es)) = (e, Some (csv_join (e' # es)))"
      using 3(2) cut_present by auto
    then show ?thesis using Suc 3 by simp
  qed simp
qed auto

lemma csv_nth_join:
  assumes "\<forall>e \<in> set es. entry_ok e" and "n < length es" and "csv_join es \<noteq> []"
  shows "csv_nth (Some (csv_join es)) n = Some (Some (es ! n))"
proof -
  have c: "\<forall>e \<in> set es. CHR '','' \<notin> set e" using assms(1) by (simp add: entry_ok_def)
  have n: "entry_ok (es ! n)" using assms(1,2) by simp
  obtain t where d: "drop n es = es ! n # t" using assms(2) by (metis Cons_nth_drop_Suc)
  show ?thesis
  proof (cases t)
    case Nil
    then have "strchr_cut (CHR '','') (csv_join (drop n es)) = (es ! n, None)"
      using d n cut_absent by (simp add: entry_ok_def)
    then show ?thesis using assms(3) csv_skip_join [OF c assms(2)] n
      by (simp add: csv_nth_def entry_ok_def snprintf_text_def)
  next
    case (Cons e' t')
    then have "strchr_cut (CHR '','') (csv_join (drop n es)) = (es ! n, Some (csv_join t))"
      using d n cut_present by (simp add: entry_ok_def)
    then show ?thesis using assms(3) csv_skip_join [OF c assms(2)] n
      by (simp add: csv_nth_def entry_ok_def)
  qed
qed

lemma csv_length_join:
  assumes "\<forall>e \<in> set es. CHR '','' \<notin> set e" and "csv_join es \<noteq> []"
  shows "csv_length (Some (csv_join es)) = length es"
  using assms commas_join [OF assms(1)] by (cases es) (simp_all add: csv_length_def)

lemma csv_find_loop_join:
  assumes "\<forall>e \<in> set es. entry_ok e" and "csv_join es \<noteq> []" and "i + n = length es"
  shows "csv_find_loop n i (Some (csv_join es)) s = Some (find (csv_matches s) (map (dropWhile isspace) (drop i es)))"
  using assms(3)
proof (induction n arbitrary: i)
  case (Suc n)
  then have i: "i < length es" by simp
  then have "drop i es = es ! i # drop (Suc i) es" by (rule Cons_nth_drop_Suc [symmetric])
  then show ?case using Suc csv_nth_join [OF assms(1) i assms(2)] by (simp add: Let_def)
qed simp

text \<open>
  The search of a comma separated list is the search of its entries.  For entries shorter than the
  buffer, \<open>csv_length\<close> counts them, \<open>csv_nth\<close> returns the one asked for, and \<open>csv_find_string\<close> the first one
  that begins, after blanks, with the key and does not go on with a letter.
\<close>

theorem csv_search:
  assumes "\<forall>e \<in> set es. entry_ok e" and "csv_join es \<noteq> []"
  shows "csv_length (Some (csv_join es)) = length es \<and>
    (\<forall>n < length es. csv_nth (Some (csv_join es)) n = Some (Some (es ! n))) \<and>
    csv_find_string (Some (csv_join es)) (Some key) = Some (find (csv_matches key) (map (dropWhile isspace) es))"
proof (intro conjI allI impI)
  show l: "csv_length (Some (csv_join es)) = length es"
    by (rule csv_length_join) (use assms in \<open>auto simp: entry_ok_def\<close>)
  show "csv_nth (Some (csv_join es)) n = Some (Some (es ! n))" if "n < length es" for n
    by (rule csv_nth_join [OF assms(1) that assms(2)])
  show "csv_find_string (Some (csv_join es)) (Some key) = Some (find (csv_matches key) (map (dropWhile isspace) es))"
    using csv_find_loop_join [OF assms, of 0 "length es" key] l by (simp add: csv_find_string_def)
qed

theorem csv_search_witness:
  "csv_find_string (Some ''enabled, c=10,depth=2'') (Some ''c'') = Some (Some ''c=10'') \<and> csv_length (Some ''enabled, c=10,depth=2'') = 3"
  using csv_search [of "[''enabled'', '' c=10'', ''depth=2'']" "''c''"]
  by (simp add: entry_ok_def csv_matches_def isspace_def is_alpha_def)

text \<open>
  An entry of exactly 128 characters is read past its buffer: the test for a long entry is \<open>> 128\<close>, so
  that it is copied without a NUL behind it.
\<close>

lemma csv_nth_128: "CHR '','' \<notin> set e \<Longrightarrow> length e = 128 \<Longrightarrow> csv_nth (Some (e @ CHR '','' # r)) 0 = None"
  using cut_present [of "CHR '',''" e r] by (simp add: csv_nth_def)

end
