(* ===== verification/Job_State.thy ===== *)
theory Job_State
  imports Container_Laws Exec_Host Job_Names
begin

text \<open>
  Jobs, queues and the server's counts, and the operations that change the state of a job:
  \<^verbatim>\<open>server/user_info.c\<close>, and \<open>svr_setjobstate\<close>, \<open>svr_evaljobstate\<close> and their helpers of
  \<^verbatim>\<open>server/svr_jobfunc.c\<close>.  A job pointer is an address, and the server's memory maps addresses to jobs.  A
  pointer to a queue is the name of the queue.  The list of resources of a job is not part of its
  record.
\<close>

section \<open>Data\<close>

abbreviation (input) "JOB_STATE_TRANSIT \<equiv> (0::nat)"
abbreviation (input) "JOB_STATE_QUEUED \<equiv> (1::nat)"
abbreviation (input) "JOB_STATE_HELD \<equiv> (2::nat)"
abbreviation (input) "JOB_STATE_WAITING \<equiv> (3::nat)"
abbreviation (input) "JOB_STATE_RUNNING \<equiv> (4::nat)"
abbreviation (input) "JOB_STATE_EXITING \<equiv> (5::nat)"
abbreviation (input) "JOB_STATE_COMPLETE \<equiv> (6::nat)"

abbreviation (input) "JOB_SUBSTATE_TRANSICM \<equiv> (1::nat)"
abbreviation (input) "JOB_SUBSTATE_QUEUED \<equiv> (10::nat)"
abbreviation (input) "JOB_SUBSTATE_PRESTAGEIN \<equiv> (11::nat)"
abbreviation (input) "JOB_SUBSTATE_STAGECMP \<equiv> (16::nat)"
abbreviation (input) "JOB_SUBSTATE_HELD \<equiv> (20::nat)"
abbreviation (input) "JOB_SUBSTATE_SYNCHOLD \<equiv> (21::nat)"
abbreviation (input) "JOB_SUBSTATE_DEPNHOLD \<equiv> (22::nat)"
abbreviation (input) "JOB_SUBSTATE_WAITING \<equiv> (30::nat)"
abbreviation (input) "JOB_SUBSTATE_ABORT \<equiv> (55::nat)"
abbreviation (input) "JOB_SUBSTATE_COMPLETE \<equiv> (59::nat)"
abbreviation (input) "JOB_SUBSTATE_RERUN \<equiv> (60::nat)"
abbreviation (input) "JOB_SUBSTATE_RERUN1 \<equiv> (61::nat)"
abbreviation (input) "JOB_SUBSTATE_RERUN2 \<equiv> (62::nat)"
abbreviation (input) "JOB_SUBSTATE_RERUN3 \<equiv> (63::nat)"

definition PBS_NUMJOBSTATE :: nat where "PBS_NUMJOBSTATE = 7"

datatype queue_type = QTYPE_Unset | QTYPE_Execution | QTYPE_RoutePush

datatype un_type = JOB_UNION_TYPE_NEW | JOB_UNION_TYPE_EXEC | JOB_UNION_TYPE_ROUTE

datatype sch_cmd = SCH_SCHEDULE_NULL | SCH_SCHEDULE_NEW | SCH_SCHEDULE_TERM

text \<open>
  The parts of \<open>struct job\<close> that the operations read or write.  The two bits of \<open>ji_queue_counted\<close> are
  two fields, and an attribute whose flag says whether it is set is an option.
\<close>

record svr_job = run_job +
  ji_jobid :: "char list"
  ji_state :: nat
  ji_substate :: nat
  ji_queue :: "char list"
  ji_qhdr :: "char list option"
  ji_is_array_template :: bool
  ji_arraystructid :: "char list"
  ji_being_recycled :: bool
  ji_modified :: bool
  ji_mod_time :: int
  ji_un_type :: un_type
  ji_parent_job :: "nat option"
  ji_cray_clone :: "nat option"
  ji_external_clone :: "nat option"
  counted_globally :: bool
  counted_in_queue :: bool
  svflg_staged_in :: bool
  svflg_checkpoint_file :: bool
  svflg_suspend :: bool
  atr_qrank :: int
  atr_job_owner :: "char list"
  atr_job_array_request :: "char list option"
  atr_hold :: int
  atr_exectime :: int
  atr_stagein :: bool
  atr_checkpoint :: "char list option"
  atr_depend :: bool
  atr_state :: char
  atr_substate :: nat
  atr_qtime :: "int option"
  atr_etime :: "int option"
  atr_in_queue :: "char list"
  atr_queuetype :: char

text \<open>\<open>user_info_holder\<close>: a container of users by name, read and written by name only.\<close>

type_synonym user_info_holder = "char list \<rightharpoonup> 32 word"

record pbs_queue =
  qu_type :: queue_type
  q_being_recycled :: bool
  qu_qtype_str :: "char list"
  qu_jobs :: "nat item_container"
  qu_jobs_array_sum :: "nat item_container"
  qu_numjobs :: int
  qu_njstate :: "int list"
  qu_reserved_jobs :: int
  qu_uih :: user_info_holder
  qa_GhostQueue :: bool
  qa_MaxJobs :: "int option"
  qa_MaxUserJobs :: "int option"
  qe_checkpoint_min :: "int option"
  qe_checkpoint_defaults :: "char list option"

record svr =
  sv_mem :: "nat \<Rightarrow> svr_job"
  alljobs :: "nat item_container"
  array_summary :: "nat item_container"
  svr_queues :: "(char list \<times> pbs_queue) list"
  sv_numjobs :: int
  sv_jobstates :: "int list"
  users :: user_info_holder
  svr_do_schedule :: sch_cmd
  sv_names :: name_cfg
  sv_cluster :: cluster

text \<open>
  What comes from outside: the clock, whether memory for so many slots, or for
  one more user, can be had, the result of
  writing the job file (completely, or its fixed part only), and the dependencies of a job.
\<close>

record svr_env =
  time_now :: int
  heap_has :: "nat \<Rightarrow> bool"
  user_space :: bool
  job_save :: "svr_job \<Rightarrow> bool \<Rightarrow> pbse"
  depend_on_que :: "svr_job \<Rightarrow> pbse \<times> svr_job"

definition upd_job :: "nat \<Rightarrow> (svr_job \<Rightarrow> svr_job) \<Rightarrow> svr \<Rightarrow> svr" where
  "upd_job p f st = st\<lparr>sv_mem := (sv_mem st)(p := f (sv_mem st p))\<rparr>"

fun upd_named :: "char list \<Rightarrow> ('q \<Rightarrow> 'q) \<Rightarrow> (char list \<times> 'q) list \<Rightarrow> (char list \<times> 'q) list" where
  "upd_named n f [] = []"
| "upd_named n f (x # xs) = (if fst x = n then (n, f (snd x)) # xs else x # upd_named n f xs)"

definition upd_queue :: "char list \<Rightarrow> (pbs_queue \<Rightarrow> pbs_queue) \<Rightarrow> svr \<Rightarrow> svr" where
  "upd_queue n f st = st\<lparr>svr_queues := upd_named n f (svr_queues st)\<rparr>"

definition add_at :: "nat \<Rightarrow> int \<Rightarrow> int list \<Rightarrow> int list" where
  "add_at i d xs = xs[i := xs ! i + d]"

section \<open>Finding a job: \<^verbatim>\<open>job_container.c\<close>\<close>

definition find_job_by_array :: "svr \<Rightarrow> nat item_container \<Rightarrow> char list \<Rightarrow> bool \<Rightarrow> nat option" where
  "find_job_by_array st aj job_id get_subjob =
     (case cfind job_id aj of
        None \<Rightarrow> None
      | Some pj \<Rightarrow>
          (let pj = (if get_subjob then (case ji_cray_clone (sv_mem st pj) of None \<Rightarrow> pj | Some c \<Rightarrow> c) else pj)
           in if ji_being_recycled (sv_mem st pj) then None else Some pj))"

text \<open>\<open>strstr (s, "[]")\<close>.\<close>

fun has_brackets :: "char list \<Rightarrow> bool" where
  "has_brackets (a # b # s) = (a = CHR ''['' \<and> b = CHR '']'' \<or> has_brackets (b # s))"
| "has_brackets s = False"

definition svr_find_job :: "svr \<Rightarrow> char list \<Rightarrow> bool \<Rightarrow> nat option" where
  "svr_find_job st jobid get_subjob =
     (let (comp, jid, dash) = find_job_key (sv_names st) jobid get_subjob;
          sub = (if dash then False else get_subjob);
          pj = (if \<not> has_brackets jid then find_job_by_array st (alljobs st) comp sub else None);
          pj = (if pj = None then find_job_by_array st (array_summary st) comp sub else pj)
      in case pj of
           None \<Rightarrow> None
         | Some p \<Rightarrow>
             (if get_subjob \<and> dash then
                (case ji_external_clone (sv_mem st p) of
                   None \<Rightarrow> None
                 | Some e \<Rightarrow> if ji_being_recycled (sv_mem st e) then None else Some e)
              else Some p))"

section \<open>Users: \<^verbatim>\<open>user_info.c\<close>\<close>

definition remove_server_suffix :: "char list \<Rightarrow> char list" where
  "remove_server_suffix user_name = fst (strchr_cut (CHR ''@'') user_name)"

definition get_num_queued :: "user_info_holder \<Rightarrow> char list \<Rightarrow> 32 word" where
  "get_num_queued uih user_name = (case uih user_name of None \<Rightarrow> 0 | Some n \<Rightarrow> n)"

text \<open>The tokens that \<open>threadsafe_tokenizer\<close> takes off a string one after the other.\<close>

function tokens :: "char \<Rightarrow> char list \<Rightarrow> char list list" where
  "tokens d s =
     (if s = [] then []
      else case strchr_cut d s of (t, None) \<Rightarrow> [t] | (t, Some r) \<Rightarrow> t # tokens d r)"
  by pat_completeness auto
lemma strchr_cut_shorter: "(t, Some r) = strchr_cut d s \<Longrightarrow> length r < length s"
  by (cases rule: cut_cases [of d s]) auto

termination tokens
  by (relation "measure (\<lambda>(d, s). length s)") (auto intro: strchr_cut_shorter)

declare tokens.simps [simp del]

text \<open>\<open>int\<close> sums are reduced to 32 bits.\<close>

fun count_ranges :: "int \<Rightarrow> char list list \<Rightarrow> int" where
  "count_ranges num_jobs [] = num_jobs"
| "count_ranges num_jobs (ptr # ps) =
     (case strchr_cut (CHR ''-'') ptr of
        (_, Some after) \<Rightarrow>
          (let start = fst (strtol_int ptr); stop = fst (strtol_int after)
           in if stop < start then - 1 else count_ranges (to_int (num_jobs + (stop - start + 1))) ps)
      | (_, None) \<Rightarrow> count_ranges (to_int (num_jobs + 1)) ps)"

definition num_array_jobs :: "char list option \<Rightarrow> int" where
  "num_array_jobs req_str =
     (case req_str of
        None \<Rightarrow> - 1
      | Some s \<Rightarrow> count_ranges 0 (tokens (CHR '','') (snprintf_text 4096 s)))"

definition count_jobs_submitted :: "svr_job \<Rightarrow> 32 word" where
  "count_jobs_submitted pjob =
     (if atr_job_array_request pjob \<noteq> None then word_of_int (num_array_jobs (atr_job_array_request pjob)) else 1)"

definition can_queue_new_job :: "int \<Rightarrow> user_info_holder \<Rightarrow> char list \<Rightarrow> svr_job \<Rightarrow> bool" where
  "can_queue_new_job max_queuable us user_name pjob =
     (if max_queuable \<ge> 0 then
        \<not> get_num_queued us (remove_server_suffix user_name) + count_jobs_submitted pjob > word_of_int max_queuable
      else True)"

text \<open>
  \<open>globally\<close> says that the holder is the server's.  \<open>mem\<close> is whether a new user can be stored.
\<close>

definition increment_queued_jobs :: "bool \<Rightarrow> bool \<Rightarrow> user_info_holder \<Rightarrow> svr_job \<Rightarrow> pbse \<times> user_info_holder \<times> svr_job" where
  "increment_queued_jobs mem globally uih pjob =
     (if ji_state pjob = JOB_STATE_COMPLETE then (PBSE_NONE, uih, pjob)
      else if (if globally then counted_globally pjob else counted_in_queue pjob) then (PBSE_NONE, uih, pjob)
      else
        (let num_submitted = count_jobs_submitted pjob;
             uname = remove_server_suffix (atr_job_owner pjob);
             (rc, uih') =
               (case uih uname of
                  Some n \<Rightarrow> (PBSE_NONE, uih(uname \<mapsto> n + num_submitted))
                | None \<Rightarrow> if mem then (PBSE_NONE, uih(uname \<mapsto> num_submitted)) else (ENOMEM, uih))
         in (rc, uih', if globally then pjob\<lparr>counted_globally := True\<rparr> else pjob\<lparr>counted_in_queue := True\<rparr>)))"

definition decrement_queued_jobs :: "bool \<Rightarrow> user_info_holder \<Rightarrow> svr_job \<Rightarrow> pbse \<times> user_info_holder \<times> svr_job" where
  "decrement_queued_jobs globally uih pjob =
     (if \<not> (if globally then counted_globally pjob else counted_in_queue pjob) then (PBSE_NONE, uih, pjob)
      else
        (let uname = remove_server_suffix (atr_job_owner pjob);
             (rc, uih') =
               (case uih uname of
                  Some n \<Rightarrow> (PBSE_NONE, if n = 0 then uih else uih(uname \<mapsto> n - 1))
                | None \<Rightarrow> (THING_NOT_FOUND, uih))
         in (rc, uih', if globally then pjob\<lparr>counted_globally := False\<rparr> else pjob\<lparr>counted_in_queue := False\<rparr>)))"

section \<open>The state of a job: \<^verbatim>\<open>svr_jobfunc.c\<close>\<close>

definition release_node_allocation :: "svr_job \<Rightarrow> cluster \<Rightarrow> svr_job \<times> cluster" where
  "release_node_allocation pjob cl =
     (let (rj, cl') = free_nodes (run_job.truncate pjob) None cl;
          pjob = pjob\<lparr>svflg_has_nodes := svflg_has_nodes rj\<rparr>
      in if (case atr_checkpoint pjob of None \<Rightarrow> False | Some s \<Rightarrow> take 7 s = ''enabled'') \<and> svflg_checkpoint_file pjob
         then (pjob, cl')
         else (pjob\<lparr>atr_exec_host := None, svflg_staged_in := False\<rparr>, cl'))"

definition release_node_allocation_if_needed :: "nat \<Rightarrow> svr_job \<Rightarrow> cluster \<Rightarrow> svr_job \<times> cluster" where
  "release_node_allocation_if_needed newstate pjob cl =
     (if newstate = JOB_STATE_QUEUED \<and> atr_exec_host pjob \<noteq> None then release_node_allocation pjob cl else (pjob, cl))"

definition set_statechar :: "svr_job \<Rightarrow> svr_job" where
  "set_statechar pjob =
     (if ji_state pjob = JOB_STATE_RUNNING \<and> svflg_suspend pjob then pjob\<lparr>atr_state := CHR ''S''\<rparr>
      else if ji_state pjob < length ''TQHWREC'' then pjob\<lparr>atr_state := ''TQHWREC'' ! ji_state pjob\<rparr>
      else pjob\<lparr>atr_state := CHR ''U''\<rparr>)"

definition set_jobstate_basic :: "nat \<Rightarrow> nat \<Rightarrow> svr_job \<Rightarrow> svr_job" where
  "set_jobstate_basic newstate newsubstate pjob =
     set_statechar (pjob\<lparr>ji_state := newstate, ji_substate := newsubstate, atr_substate := newsubstate\<rparr>)"

definition is_valid_state_transition :: "svr_job \<Rightarrow> nat \<Rightarrow> nat \<Rightarrow> bool" where
  "is_valid_state_transition pjob newstate newsubstate =
     (if ji_state pjob = JOB_STATE_COMPLETE \<and> newstate = JOB_STATE_EXITING then False
      else if ji_substate pjob = JOB_SUBSTATE_COMPLETE \<and> newsubstate = JOB_SUBSTATE_ABORT then False
      else True)"

definition svr_evaljobstate :: "svr_env \<Rightarrow> svr_job \<Rightarrow> bool \<Rightarrow> nat \<times> nat" where
  "svr_evaljobstate env pjob forceeval =
     (if ji_state pjob \<ge> JOB_STATE_EXITING \<and> ji_substate pjob \<noteq> JOB_SUBSTATE_RERUN \<and> ji_substate pjob \<noteq> JOB_SUBSTATE_RERUN1 \<and>
         ji_substate pjob \<noteq> JOB_SUBSTATE_RERUN2 \<and> ji_substate pjob \<noteq> JOB_SUBSTATE_RERUN3
        then (ji_state pjob, ji_substate pjob)
      else if \<not> forceeval \<and> (ji_state pjob = JOB_STATE_RUNNING \<or> ji_state pjob = JOB_STATE_TRANSIT)
        then (ji_state pjob, ji_substate pjob)
      else if atr_hold pjob \<noteq> 0
        then (JOB_STATE_HELD,
              if ji_substate pjob = JOB_SUBSTATE_SYNCHOLD \<or> ji_substate pjob = JOB_SUBSTATE_DEPNHOLD
              then ji_substate pjob else JOB_SUBSTATE_HELD)
      else if atr_exectime pjob > time_now env then (JOB_STATE_WAITING, JOB_SUBSTATE_WAITING)
      else if atr_stagein pjob
        then (JOB_STATE_QUEUED, if svflg_staged_in pjob then JOB_SUBSTATE_STAGECMP else JOB_SUBSTATE_PRESTAGEIN)
      else (JOB_STATE_QUEUED, JOB_SUBSTATE_QUEUED))"

text \<open>
  \<open>svr_setjobstate\<close> of a job that is not a sub-job, in the two parts between which \<open>get_jobs_queue\<close> may
  let the job's lock go.  The first part releases the nodes and updates the server's counts.
\<close>

definition setjobstate_counts :: "nat \<Rightarrow> nat \<Rightarrow> svr \<Rightarrow> svr" where
  "setjobstate_counts p newstate st =
     (let oldstate = ji_state (sv_mem st p);
          (pjob, cl) = release_node_allocation_if_needed newstate (sv_mem st p) (sv_cluster st);
          st = (upd_job p (\<lambda>_. pjob) st)\<lparr>sv_cluster := cl\<rparr>
      in if ji_is_array_template pjob then st
         else st\<lparr>sv_jobstates := add_at newstate 1 (add_at oldstate (- 1) (sv_jobstates st))\<rparr>)"

text \<open>The update of the queue's counts and of the eligible time, when the job is in the queue \<open>qn\<close>.\<close>

definition setjobstate_queue :: "svr_env \<Rightarrow> nat \<Rightarrow> nat \<Rightarrow> char list \<Rightarrow> svr \<Rightarrow> svr" where
  "setjobstate_queue env p newstate qn st =
     (let oldstate = ji_state (sv_mem st p);
          st =
            (if ji_is_array_template (sv_mem st p) then st
             else
               (let st = upd_queue qn (\<lambda>q. q\<lparr>qu_njstate := add_at newstate 1 (add_at oldstate (- 1) (qu_njstate q))\<rparr>) st
                in if oldstate \<noteq> JOB_STATE_TRANSIT \<and> oldstate \<noteq> JOB_STATE_COMPLETE \<and> newstate = JOB_STATE_COMPLETE then
                     (case map_of (svr_queues st) qn of
                        None \<Rightarrow> st
                      | Some q \<Rightarrow>
                          (case decrement_queued_jobs False (qu_uih q) (sv_mem st p) of
                             (rc, uih, pjob) \<Rightarrow> upd_job p (\<lambda>_. pjob) (upd_queue qn (\<lambda>q. q\<lparr>qu_uih := uih\<rparr>) st)))
                   else st))
      in if map_option qu_type (map_of (svr_queues st) qn) = Some QTYPE_Execution \<and> newstate = JOB_STATE_QUEUED then
           (upd_job p (\<lambda>j. if atr_etime j = None then j\<lparr>atr_etime := Some (time_now env)\<rparr> else j) st)\<lparr>svr_do_schedule := SCH_SCHEDULE_NEW\<rparr>
         else if newstate = JOB_STATE_HELD \<or> newstate = JOB_STATE_WAITING then upd_job p (\<lambda>j. j\<lparr>atr_etime := None\<rparr>) st
         else st)"

text \<open>The second part: the state is read again, and the queue's counts follow it.\<close>

definition setjobstate_recheck :: "svr_env \<Rightarrow> nat \<Rightarrow> nat \<Rightarrow> nat \<Rightarrow> svr \<Rightarrow> bool \<times> svr" where
  "setjobstate_recheck env p newstate newsubstate st =
     (let pjob = sv_mem st p;
          changed = (ji_substate pjob \<noteq> newsubstate)
      in if ji_state pjob \<noteq> newstate then
           (let st =
                  (if \<not> ji_is_array_template pjob \<and> newstate = JOB_STATE_COMPLETE then
                     (case decrement_queued_jobs True (users st) pjob of
                        (rc, us, pjob) \<Rightarrow> (upd_job p (\<lambda>_. pjob) st)\<lparr>users := us\<rparr>)
                   else st)
            in (True, case ji_qhdr pjob of None \<Rightarrow> st | Some qn \<Rightarrow> setjobstate_queue env p newstate qn st))
         else (changed, st))"

definition setjobstate_finish :: "svr_env \<Rightarrow> nat \<Rightarrow> nat \<Rightarrow> nat \<Rightarrow> bool \<Rightarrow> svr \<Rightarrow> pbse \<times> svr" where
  "setjobstate_finish env p newstate newsubstate changed st =
     (let st = upd_job p (set_jobstate_basic newstate newsubstate) st;
          st = (if changed then upd_job p (\<lambda>j. j\<lparr>ji_mod_time := time_now env\<rparr>) st else st)
      in if ji_modified (sv_mem st p) then (job_save env (sv_mem st p) True, st)
         else if changed then (job_save env (sv_mem st p) False, st)
         else (PBSE_NONE, st))"

text \<open>
  The queue of a job whose \<open>ji_qhdr\<close> is not null is found: a queue that holds jobs is not deleted.
\<close>

definition setjobstate_plain :: "svr_env \<Rightarrow> nat \<Rightarrow> nat \<Rightarrow> nat \<Rightarrow> svr \<Rightarrow> pbse \<times> svr" where
  "setjobstate_plain env p newstate newsubstate st =
     (let pjob = sv_mem st p in
      if ji_substate pjob \<noteq> JOB_SUBSTATE_TRANSICM then
        (if ji_state pjob \<noteq> newstate then
           (case setjobstate_recheck env p newstate newsubstate (setjobstate_counts p newstate st) of
              (changed, st) \<Rightarrow> setjobstate_finish env p newstate newsubstate changed st)
         else setjobstate_finish env p newstate newsubstate (ji_substate pjob \<noteq> newsubstate) st)
      else setjobstate_finish env p newstate newsubstate False st)"

text \<open>What \<open>set_subjob_state\<close> does once the parent has changed its state: the sub-job is looked up again.\<close>

definition set_subjob_state_own :: "nat \<Rightarrow> nat \<Rightarrow> char list \<Rightarrow> svr \<Rightarrow> pbse \<times> svr" where
  "set_subjob_state_own newstate newsubstate jobid st =
     (case svr_find_job st jobid True of
        None \<Rightarrow> (PBSE_JOB_RECYCLED, st)
      | Some p \<Rightarrow>
          (case release_node_allocation_if_needed newstate (sv_mem st p) (sv_cluster st) of
             (pjob, cl) \<Rightarrow>
               (PBSE_NONE, (upd_job p (\<lambda>_. set_jobstate_basic newstate newsubstate pjob) st)\<lparr>sv_cluster := cl\<rparr>)))"

text \<open>A sub-job passes the change on to its parent first; a chain of parents that never ends is \<open>None\<close>.\<close>

partial_function (option) svr_setjobstate :: "svr_env \<Rightarrow> nat \<Rightarrow> nat \<Rightarrow> nat \<Rightarrow> svr \<Rightarrow> (pbse \<times> svr) option" where
  "svr_setjobstate env p newstate newsubstate st =
     (if \<not> is_valid_state_transition (sv_mem st p) newstate newsubstate then Some (PBSE_BAD_JOB_STATE_TRANSITION, st)
      else case ji_parent_job (sv_mem st p) of
             None \<Rightarrow> Some (setjobstate_plain env p newstate newsubstate st)
           | Some parent \<Rightarrow>
               Option.bind (svr_setjobstate env parent newstate newsubstate st) (\<lambda>r.
                 Some (set_subjob_state_own newstate newsubstate (ji_jobid (sv_mem st p)) (snd r))))"

end
