(* ===== verification/Job_Queue.thy ===== *)
theory Job_Queue
  imports Job_State Csv
begin

text \<open>
  Entering and leaving a queue: the job lists of \<^verbatim>\<open>server/job_container.c\<close>, and
  \<open>insert_into_alljobs_by_rank\<close>, \<open>svr_enquejob\<close>, \<open>svr_dequejob\<close> and \<open>correct_ct\<close> of \<^verbatim>\<open>server/svr_jobfunc.c\<close>.  The
  operations run with their locks held; an iterator that would not end is the value \<open>None\<close>.
\<close>

section \<open>Job lists: \<^verbatim>\<open>job_container.c\<close>\<close>

definition insert_job :: "svr_env \<Rightarrow> svr \<Rightarrow> nat \<Rightarrow> nat item_container \<Rightarrow> pbse \<times> nat item_container" where
  "insert_job env st p aj =
     (case cinsert (heap_has env) p (ji_jobid (sv_mem st p)) False aj of
        (ok, aj) \<Rightarrow> (if ok then PBSE_NONE else ENOMEM, aj))"

definition insert_job_after :: "svr_env \<Rightarrow> svr \<Rightarrow> nat \<Rightarrow> nat \<Rightarrow> nat item_container \<Rightarrow> pbse \<times> nat item_container" where
  "insert_job_after env st already_in p aj =
     (if cfind (ji_jobid (sv_mem st already_in)) aj = None then (THING_NOT_FOUND, aj)
      else if ji_jobid (sv_mem st already_in) = ji_jobid (sv_mem st p) then (PBSE_NONE, aj)
      else
        (case insert_after (heap_has env) (ji_jobid (sv_mem st already_in)) p (ji_jobid (sv_mem st p)) aj of
           (ok, aj) \<Rightarrow> (if ok then PBSE_NONE else ENOMEM, aj)))"

definition insert_job_after_id :: "svr_env \<Rightarrow> svr \<Rightarrow> char list \<Rightarrow> nat \<Rightarrow> nat item_container \<Rightarrow> pbse \<times> nat item_container" where
  "insert_job_after_id env st after_id p aj =
     (case (if cfind after_id aj \<noteq> None
            then insert_after (heap_has env) after_id p (ji_jobid (sv_mem st p)) aj
            else cinsert (heap_has env) p (ji_jobid (sv_mem st p)) False aj) of
        (ok, aj) \<Rightarrow> (if ok then PBSE_NONE else ENOMEM, aj))"

definition insert_job_first :: "svr_env \<Rightarrow> svr \<Rightarrow> nat \<Rightarrow> nat item_container \<Rightarrow> pbse \<times> nat item_container" where
  "insert_job_first env st p aj =
     (case insert_first (heap_has env) p (ji_jobid (sv_mem st p)) aj of
        (ok, aj) \<Rightarrow> (if ok then PBSE_NONE else ENOMEM, aj))"

definition has_job :: "svr \<Rightarrow> nat \<Rightarrow> nat item_container \<Rightarrow> bool" where
  "has_job st p aj = (cfind (ji_jobid (sv_mem st p)) aj \<noteq> None)"

definition remove_job :: "svr \<Rightarrow> nat \<Rightarrow> nat item_container \<Rightarrow> pbse \<times> nat item_container" where
  "remove_job st p aj =
     (case cremove (ji_jobid (sv_mem st p)) aj of (ok, aj) \<Rightarrow> (if ok then PBSE_NONE else THING_NOT_FOUND, aj))"

definition swap_jobs :: "svr \<Rightarrow> nat \<Rightarrow> nat \<Rightarrow> nat item_container \<Rightarrow> pbse \<times> nat item_container" where
  "swap_jobs st job1 job2 aj =
     (case cswap (ji_jobid (sv_mem st job1)) (ji_jobid (sv_mem st job2)) aj of
        (ok, aj) \<Rightarrow> (if ok then PBSE_NONE else THING_NOT_FOUND, aj))"

section \<open>The place of a job in its queue\<close>

text \<open>The search from the end of the list for the first job with a smaller rank.\<close>

datatype scan = Already | Behind nat | Front

fun rank_scan :: "(nat \<Rightarrow> svr_job) \<Rightarrow> int \<Rightarrow> char list \<Rightarrow> nat list \<Rightarrow> scan" where
  "rank_scan mem job_qrank jobid [] = Front"
| "rank_scan mem job_qrank jobid (pjcur # ps) =
     (if job_qrank > atr_qrank (mem pjcur) then Behind pjcur
      else if jobid = ji_jobid (mem pjcur) then Already
      else rank_scan mem job_qrank jobid ps)"

text \<open>
  The list is unlocked between the search and the insertion, so that these are two definitions: \<open>curJobid\<close>
  is what the search hands over, and the job is looked up again before it is linked in.
\<close>

definition by_rank_search :: "svr \<Rightarrow> nat item_container \<Rightarrow> int \<Rightarrow> char list \<Rightarrow> (pbse \<times> char list) option" where
  "by_rank_search st aj job_qrank jobid =
     (case walk_all True aj of
        None \<Rightarrow> None
      | Some ps \<Rightarrow>
          (case rank_scan (sv_mem st) job_qrank jobid ps of
             Already \<Rightarrow> Some (ALREADY_IN_LIST, [])
           | Front \<Rightarrow> Some (PBSE_NONE, [])
           | Behind cur \<Rightarrow>
               Some (PBSE_NONE, if cfind (ji_jobid (sv_mem st cur)) aj \<noteq> None then ji_jobid (sv_mem st cur) else [])))"

definition by_rank_link :: "svr_env \<Rightarrow> svr \<Rightarrow> char list \<Rightarrow> char list \<Rightarrow> nat item_container \<Rightarrow> pbse \<times> nat item_container" where
  "by_rank_link env st curJobid jobid aj =
     (case svr_find_job st jobid False of
        None \<Rightarrow> (PBSE_JOBNOTFOUND, aj)
      | Some pjob \<Rightarrow>
          (PBSE_NONE,
           snd (if curJobid = [] then insert_first (heap_has env) pjob (ji_jobid (sv_mem st pjob)) aj
                else insert_after (heap_has env) curJobid pjob (ji_jobid (sv_mem st pjob)) aj)))"

definition insert_into_alljobs_by_rank :: "svr_env \<Rightarrow> svr \<Rightarrow> nat \<Rightarrow> char list \<Rightarrow> nat item_container \<Rightarrow> (pbse \<times> nat item_container) option" where
  "insert_into_alljobs_by_rank env st p jobid aj =
     (case by_rank_search st aj (atr_qrank (sv_mem st p)) jobid of
        None \<Rightarrow> None
      | Some (rc, curJobid) \<Rightarrow>
          if rc = ALREADY_IN_LIST then Some (ALREADY_IN_LIST, aj) else Some (by_rank_link env st curJobid jobid aj))"

section \<open>Entering a queue\<close>

definition find_queuebyname :: "svr \<Rightarrow> char list \<Rightarrow> char list option" where
  "find_queuebyname st quename =
     (let qname = fst (strchr_cut (CHR ''@'') (snprintf_text (PBS_MAXDEST + 1) quename)) in
      case map_of (svr_queues st) qname of
        None \<Rightarrow> None
      | Some q \<Rightarrow> if q_being_recycled q then None else Some qname)"

definition count_queued_jobs :: "pbs_queue \<Rightarrow> char list option \<Rightarrow> int" where
  "count_queued_jobs q user =
     (case user of
        None \<Rightarrow> qu_numjobs q - qu_njstate q ! JOB_STATE_COMPLETE
      | Some u \<Rightarrow> sint (get_num_queued (qu_uih q) u))"

definition enque_limit :: "pbs_queue \<Rightarrow> svr_job \<Rightarrow> pbse option" where
  "enque_limit q pjob =
     (let array_jobs = (if ji_is_array_template pjob then num_array_jobs (atr_job_array_request pjob) else 0);
          array_jobs = (if ji_is_array_template pjob \<and> array_jobs > 0 then array_jobs - 1 else array_jobs)
      in if (case qa_MaxJobs q of None \<Rightarrow> False | Some m \<Rightarrow> count_queued_jobs q None + array_jobs + qu_reserved_jobs q \<ge> m)
           then Some PBSE_MAXQUED
         else if (case qa_MaxUserJobs q of
                    None \<Rightarrow> False
                  | Some m \<Rightarrow> count_queued_jobs q (Some (remove_server_suffix (atr_job_owner pjob))) + qu_reserved_jobs q \<ge> m)
           then Some PBSE_MAXUSERQUED
         else None)"

text \<open>The job joins the list of all jobs and is counted; whether the insertion succeeds is not asked.\<close>

definition enque_alljobs :: "svr_env \<Rightarrow> nat \<Rightarrow> char list option \<Rightarrow> svr \<Rightarrow> svr" where
  "enque_alljobs env p prev_job_id st =
     (let pjob = sv_mem st p in
      if ji_is_array_template pjob then st
      else
        st\<lparr>alljobs :=
             snd (if prev_job_id = None \<or> prev_job_id = Some []
                  then cinsert (heap_has env) p (ji_jobid pjob) False (alljobs st)
                  else insert_after (heap_has env) (the prev_job_id) p (ji_jobid pjob) (alljobs st)),
           sv_numjobs := sv_numjobs st + 1,
           sv_jobstates := add_at (ji_state pjob) 1 (sv_jobstates st)\<rparr>)"

definition enque_summary :: "svr_env \<Rightarrow> nat \<Rightarrow> svr \<Rightarrow> svr" where
  "enque_summary env p st =
     (if (ji_is_array_template (sv_mem st p) \<or> ji_arraystructid (sv_mem st p) = []) \<and> \<not> has_job st p (array_summary st)
      then st\<lparr>array_summary := snd (insert_job env st p (array_summary st))\<rparr> else st)"

text \<open>The job joins the list of its queue, and the counts of the queue and of the users go up.\<close>

definition enque_count_queue :: "svr_env \<Rightarrow> nat \<Rightarrow> char list \<Rightarrow> nat item_container \<Rightarrow> svr \<Rightarrow> svr" where
  "enque_count_queue env p qn aj st =
     (case map_of (svr_queues st) qn of
        None \<Rightarrow> st
      | Some q \<Rightarrow>
          (case increment_queued_jobs (user_space env) False (qu_uih q) (sv_mem st p) of
             (_, uih, pjob) \<Rightarrow>
               (case increment_queued_jobs (user_space env) True (users st) pjob of
                  (_, us, pjob) \<Rightarrow>
                    (upd_job p (\<lambda>_. pjob)
                      (upd_queue qn (\<lambda>q. q\<lparr>qu_jobs := aj, qu_numjobs := qu_numjobs q + 1,
                         qu_njstate := add_at (ji_state pjob) 1 (qu_njstate q), qu_uih := uih\<rparr>) st))\<lparr>users := us\<rparr>)))"

definition set_chkpt_deflt :: "pbs_queue \<Rightarrow> svr_job \<Rightarrow> svr_job option" where
  "set_chkpt_deflt q pjob =
     (case qe_checkpoint_defaults q of
        None \<Rightarrow> Some pjob
      | Some d \<Rightarrow>
          (if qu_type q \<noteq> QTYPE_Execution then Some pjob
           else if atr_checkpoint pjob = None then Some (pjob\<lparr>atr_checkpoint := Some d\<rparr>)
           else
             (case csv_find_string (atr_checkpoint pjob) (Some ''u'') of
                None \<Rightarrow> None
              | Some None \<Rightarrow> Some pjob
              | Some (Some _) \<Rightarrow> Some (pjob\<lparr>atr_checkpoint := Some d\<rparr>))))"

definition eval_checkpoint :: "int option \<Rightarrow> char list option \<Rightarrow> char list option" where
  "eval_checkpoint queckp jobckp =
     (case (jobckp, queckp) of
        (Some s, Some m) \<Rightarrow>
          (if s \<noteq> [] \<and> hd s = CHR ''c'' then
             (let pv = tl s;
                  pv = (if pv \<noteq> [] \<and> hd pv = CHR ''='' then tl pv else pv)
              in if fst (strtol_int pv) < m then Some (''c='' @ int_text m) else jobckp)
           else jobckp)
      | _ \<Rightarrow> jobckp)"

text \<open>
  The attributes that a job gets from its queue.  Its resources get their defaults here as well.  In an
  execution queue its dependencies are looked at, by \<open>depend_on_que\<close>.
\<close>

definition enque_typed :: "svr_env \<Rightarrow> nat \<Rightarrow> pbs_queue \<Rightarrow> svr_job \<Rightarrow> svr \<Rightarrow> pbse \<times> svr" where
  "enque_typed env p q pjob st =
     (if qu_type q = QTYPE_Execution then
        (let pjob = pjob\<lparr>ji_un_type := JOB_UNION_TYPE_EXEC,
               atr_checkpoint := eval_checkpoint (qe_checkpoint_min q) (atr_checkpoint pjob)\<rparr>;
             (rc, pjob) =
               (if ji_state pjob \<noteq> JOB_STATE_COMPLETE \<and> ji_substate pjob \<noteq> JOB_SUBSTATE_COMPLETE \<and> atr_depend pjob
                then depend_on_que env pjob else (PBSE_NONE, pjob))
         in if rc = PBSE_JOBNOTFOUND then (rc, upd_job p (\<lambda>_. pjob) st)
            else
              (let pjob = (if atr_etime pjob = None \<and> ji_state pjob = JOB_STATE_QUEUED
                           then pjob\<lparr>atr_etime := Some (time_now env)\<rparr> else pjob)
               in (if rc \<noteq> PBSE_NONE then PBSE_BADDEPEND else PBSE_NONE,
                   (upd_job p (\<lambda>_. pjob) st)\<lparr>svr_do_schedule := SCH_SCHEDULE_NEW\<rparr>)))
      else if qu_type q = QTYPE_RoutePush
        then (PBSE_NONE, upd_job p (\<lambda>_. pjob\<lparr>ji_un_type := JOB_UNION_TYPE_ROUTE\<rparr>) st)
      else (PBSE_NONE, upd_job p (\<lambda>_. pjob) st))"

definition enque_attrs :: "svr_env \<Rightarrow> nat \<Rightarrow> char list \<Rightarrow> svr \<Rightarrow> (pbse \<times> svr) option" where
  "enque_attrs env p qn st =
     (case map_of (svr_queues st) qn of
        None \<Rightarrow> Some (PBSE_NONE, st)
      | Some q \<Rightarrow>
          (let pjob = (sv_mem st p)\<lparr>atr_in_queue := qn,
                 atr_queuetype := (if qu_qtype_str q = [] then NUL else hd (qu_qtype_str q))\<rparr>;
               pjob = (if atr_qtime pjob = None \<and> \<not> ji_is_array_template pjob then pjob\<lparr>atr_qtime := Some (time_now env)\<rparr> else pjob)
           in case set_chkpt_deflt q pjob of
                None \<Rightarrow> None
              | Some pjob \<Rightarrow> Some (enque_typed env p q pjob st)))"

definition enque_array_sum :: "svr_env \<Rightarrow> nat \<Rightarrow> char list \<Rightarrow> char list \<Rightarrow> svr \<Rightarrow> (pbse \<times> svr) option" where
  "enque_array_sum env p job_id qn st =
     (if ji_is_array_template (sv_mem st p) \<or> ji_arraystructid (sv_mem st p) = [] then
        (case map_of (svr_queues st) qn of
           None \<Rightarrow> Some (PBSE_NONE, st)
         | Some q \<Rightarrow>
             (case insert_into_alljobs_by_rank env st p job_id (qu_jobs_array_sum q) of
                None \<Rightarrow> None
              | Some (rc, aj) \<Rightarrow>
                  if rc = ALREADY_IN_LIST then Some (PBSE_NONE, st)
                  else if rc = PBSE_JOBNOTFOUND then Some (rc, st)
                  else enque_attrs env p qn (upd_queue qn (\<lambda>q. q\<lparr>qu_jobs_array_sum := aj\<rparr>) st)))
      else enque_attrs env p qn st)"

definition enque_link :: "svr_env \<Rightarrow> nat \<Rightarrow> char list \<Rightarrow> char list option \<Rightarrow> char list \<Rightarrow> svr \<Rightarrow> (pbse \<times> svr) option" where
  "enque_link env p job_id prev_job_id qn st =
     (let st = enque_alljobs env p prev_job_id st;
          st = enque_summary env p st;
          st = upd_job p (\<lambda>j. j\<lparr>ji_qhdr := Some qn\<rparr>) st
      in if ji_is_array_template (sv_mem st p) then enque_array_sum env p job_id qn st
         else
           (case map_of (svr_queues st) qn of
              None \<Rightarrow> Some (PBSE_NONE, st)
            | Some q \<Rightarrow>
                (case insert_into_alljobs_by_rank env st p job_id (qu_jobs q) of
                   None \<Rightarrow> None
                 | Some (rc, aj) \<Rightarrow>
                     if rc = ALREADY_IN_LIST then Some (PBSE_NONE, st)
                     else if rc = PBSE_JOBNOTFOUND then Some (rc, st)
                     else enque_array_sum env p job_id qn (enque_count_queue env p qn aj st))))"

definition svr_enquejob :: "svr_env \<Rightarrow> nat \<Rightarrow> char list option \<Rightarrow> bool \<Rightarrow> bool \<Rightarrow> svr \<Rightarrow> (pbse \<times> svr) option" where
  "svr_enquejob env p prev_job_id have_reservation being_recovered st =
     (let pjob = sv_mem st p in
      case find_queuebyname st (ji_queue pjob) of
        None \<Rightarrow> Some (if ji_being_recycled pjob then PBSE_JOB_RECYCLED else PBSE_UNKQUE, st)
      | Some qn \<Rightarrow>
          (if map_option qa_GhostQueue (map_of (svr_queues st) qn) = Some True \<and> \<not> being_recovered then Some (PBSE_GHOSTQUEUE, st)
           else
             (let st = (if have_reservation then upd_queue qn (\<lambda>q. q\<lparr>qu_reserved_jobs := qu_reserved_jobs q - 1\<rparr>) st else st)
              in if ji_being_recycled pjob then Some (PBSE_JOB_RECYCLED, st)
                 else case Option.bind (map_of (svr_queues st) qn) (\<lambda>q. enque_limit q pjob) of
                        Some rc \<Rightarrow> Some (rc, st)
                      | None \<Rightarrow> enque_link env p (ji_jobid pjob) prev_job_id qn st)))"

section \<open>Counting again\<close>

text \<open>\<open>correct_ct\<close>: all counts are computed again from the job lists of the queues.\<close>

definition count_states :: "svr \<Rightarrow> nat list \<Rightarrow> int list \<Rightarrow> int list" where
  "count_states st ps counts = fold (\<lambda>p. add_at (ji_state (sv_mem st p)) 1) ps counts"

text \<open>\<open>next_job\<close> passes over jobs that are being recycled.\<close>

definition next_jobs :: "svr \<Rightarrow> nat list \<Rightarrow> nat list" where
  "next_jobs st ps = filter (\<lambda>p. \<not> ji_being_recycled (sv_mem st p)) ps"

fun recount :: "svr \<Rightarrow> (char list \<times> pbs_queue) list \<Rightarrow> int \<Rightarrow> int list \<Rightarrow> ((char list \<times> pbs_queue) list \<times> int \<times> int list) option" where
  "recount st [] num_jobs job_counts = Some ([], num_jobs, job_counts)"
| "recount st ((n, q) # qs) num_jobs job_counts =
     (case walk_all False (qu_jobs q) of
        None \<Rightarrow> None
      | Some ps \<Rightarrow>
          (let ps = next_jobs st ps in
           case recount st qs (num_jobs + int (length ps)) (count_states st ps job_counts) of
             None \<Rightarrow> None
           | Some (qs', num, counts) \<Rightarrow>
               Some ((n, q\<lparr>qu_numjobs := int (length ps), qu_njstate := count_states st ps (replicate PBS_NUMJOBSTATE 0)\<rparr>) # qs',
                     num, counts)))"

definition correct_ct :: "svr \<Rightarrow> svr option" where
  "correct_ct st =
     (case recount st (svr_queues st) 0 (replicate PBS_NUMJOBSTATE 0) of
        None \<Rightarrow> None
      | Some (qs, num, counts) \<Rightarrow> Some (st\<lparr>svr_queues := qs, sv_numjobs := num, sv_jobstates := counts\<rparr>))"

section \<open>Leaving a queue\<close>

text \<open>The part that concerns the queue \<open>qn\<close>; the flag says that a count has become negative.\<close>

definition deque_queue :: "nat \<Rightarrow> char list \<Rightarrow> svr \<Rightarrow> bool \<times> svr" where
  "deque_queue p qn st =
     (case map_of (svr_queues st) qn of
        None \<Rightarrow> (False, st)
      | Some q \<Rightarrow>
          (let complete = (ji_state (sv_mem st p) = JOB_STATE_COMPLETE);
               st =
                 (if qu_type q = QTYPE_RoutePush \<or> \<not> complete then
                    (let st = (if \<not> complete then
                                 (case decrement_queued_jobs True (users st) (sv_mem st p) of
                                    (_, us, pjob) \<Rightarrow> (upd_job p (\<lambda>_. pjob) st)\<lparr>users := us\<rparr>)
                               else st)
                     in case decrement_queued_jobs False (qu_uih q) (sv_mem st p) of
                          (_, uih, pjob) \<Rightarrow> upd_job p (\<lambda>_. pjob) (upd_queue qn (\<lambda>q. q\<lparr>qu_uih := uih\<rparr>) st))
                  else st);
               (rc, aj) = remove_job st p (qu_jobs q);
               num = qu_numjobs q - 1;
               njstate = add_at (ji_state (sv_mem st p)) (- 1) (qu_njstate q);
               bad_ct = (rc = PBSE_NONE \<and> (num < 0 \<or> njstate ! ji_state (sv_mem st p) < 0));
               st = (if rc = PBSE_NONE
                     then upd_queue qn (\<lambda>q. q\<lparr>qu_jobs := aj, qu_numjobs := num, qu_njstate := njstate\<rparr>) st else st);
               st = upd_queue qn (\<lambda>q. q\<lparr>qu_jobs_array_sum := snd (remove_job st p (qu_jobs_array_sum q))\<rparr>) st
           in (bad_ct, upd_job p (\<lambda>j. j\<lparr>ji_qhdr := None\<rparr>) st)))"

definition deque_alljobs :: "nat \<Rightarrow> svr \<Rightarrow> bool \<times> svr" where
  "deque_alljobs p st =
     (case remove_job st p (alljobs st) of
        (rc, aj) \<Rightarrow>
          (if rc = PBSE_NONE then
             (let st = st\<lparr>alljobs := aj\<rparr>;
                  s = ji_state (sv_mem st p)
              in if ji_is_array_template (sv_mem st p) then (False, st)
                 else
                   (let st = st\<lparr>sv_numjobs := sv_numjobs st - 1, sv_jobstates := add_at s (- 1) (sv_jobstates st)\<rparr>
                    in (sv_numjobs st < 0 \<or> sv_jobstates st ! s < 0, st)))
           else (False, st)))"

definition svr_dequejob :: "nat \<Rightarrow> bool \<Rightarrow> svr \<Rightarrow> (pbse \<times> svr) option" where
  "svr_dequejob p parent_queue_mutex_held st =
     (let pjob = sv_mem st p in
      if ji_state pjob = JOB_STATE_RUNNING \<and> \<not> ji_is_array_template pjob then Some (PBSE_BADSTATE, st)
      else if \<not> parent_queue_mutex_held \<and> ji_qhdr pjob = None then Some (PBSE_JOB_NOT_IN_QUEUE, st)
      else
        (let (bad1, st) = (case ji_qhdr pjob of None \<Rightarrow> (False, st) | Some qn \<Rightarrow> deque_queue p qn st);
             st = upd_job p (\<lambda>j. j\<lparr>atr_qtime := None\<rparr>) st;
             (bad2, st) = deque_alljobs p st
         in if bad1 \<or> bad2 then
              (case correct_ct st of
                 None \<Rightarrow> None
               | Some st \<Rightarrow>
                   (case svr_find_job st (ji_jobid pjob) False of
                      None \<Rightarrow> Some (PBSE_JOBNOTFOUND, st)
                    | Some _ \<Rightarrow> Some (PBSE_NONE, st\<lparr>svr_do_schedule := SCH_SCHEDULE_TERM\<rparr>)))
            else Some (PBSE_NONE, st\<lparr>svr_do_schedule := SCH_SCHEDULE_TERM\<rparr>)))"

end
