(* ===== verification/Job_Inv.thy ===== *)
theory Job_Inv
  imports Job_Queue
begin

text \<open>
  The invariant of the job lists and the counts.  It is stated for two state functions, one for the
  server's counts and one for the queues': between the two halves of \<open>svr_setjobstate\<close> they differ for
  the job that is changing its state.
\<close>

section \<open>Counting by state\<close>

definition tally :: "(nat \<Rightarrow> nat) \<Rightarrow> nat list \<Rightarrow> nat \<Rightarrow> int" where
  "tally f ps s = int (length (filter (\<lambda>p. f p = s) ps))"

definition tallies :: "(nat \<Rightarrow> nat) \<Rightarrow> nat list \<Rightarrow> int list" where
  "tallies f ps = map (tally f ps) [0..<PBS_NUMJOBSTATE]"

lemma length_tallies [simp]: "length (tallies f ps) = PBS_NUMJOBSTATE"
  by (simp add: tallies_def)

lemma nth_tallies [simp]: "s < PBS_NUMJOBSTATE \<Longrightarrow> tallies f ps ! s = tally f ps s"
  by (simp add: tallies_def)

lemma length_add_at [simp]: "length (add_at i d xs) = length xs"
  by (simp add: add_at_def)

lemma nth_add_at: "i < length xs \<Longrightarrow> add_at i d xs ! j = (if j = i then xs ! i + d else xs ! j)"
  by (simp add: add_at_def nth_list_update)

lemma tally_cong: "(\<And>p. p \<in> set ps \<Longrightarrow> f p = g p) \<Longrightarrow> tally f ps s = tally g ps s"
  unfolding tally_def by (simp cong: filter_cong)

lemma tallies_cong: "(\<And>p. p \<in> set ps \<Longrightarrow> f p = g p) \<Longrightarrow> tallies f ps = tallies g ps"
  unfolding tallies_def by (rule map_cong [OF refl], rule tally_cong)

lemma tally_Cons: "tally f (p # ps) s = tally f ps s + (if f p = s then 1 else 0)"
  by (simp add: tally_def)

lemma tally_append: "tally f (ps @ qs) s = tally f ps s + tally f qs s"
  by (simp add: tally_def)

lemma tally_remove1: "p \<in> set ps \<Longrightarrow> tally f (remove1 p ps) s = tally f ps s - (if f p = s then 1 else 0)"
  by (induction ps) (auto simp: tally_def)

lemma tally_upd:
  assumes "distinct ps" and "p \<in> set ps"
  shows "tally (f(p := n)) ps s = tally f ps s - (if f p = s then 1 else 0) + (if n = s then 1 else 0)"
  using assms
proof (induction ps)
  case (Cons x ps)
  show ?case
  proof (cases "x = p")
    case True
    then have "tally (f(p := n)) ps s = tally f ps s" using Cons.prems(1) by (intro tally_cong) auto
    then show ?thesis using True by (simp add: tally_Cons fun_upd_def)
  next
    case False
    then show ?thesis using Cons by (simp add: tally_Cons)
  qed
qed simp

lemma tallies_eqI: "length xs = PBS_NUMJOBSTATE \<Longrightarrow> (\<And>s. s < PBS_NUMJOBSTATE \<Longrightarrow> xs ! s = tally f ps s) \<Longrightarrow> xs = tallies f ps"
  by (rule nth_equalityI) simp_all

lemma tallies_upd:
  assumes "distinct ps" and "p \<in> set ps" and "f p < PBS_NUMJOBSTATE" and "n < PBS_NUMJOBSTATE"
  shows "add_at n 1 (add_at (f p) (- 1) (tallies f ps)) = tallies (f(p := n)) ps"
  by (rule tallies_eqI) (use assms in \<open>auto simp: nth_add_at tally_upd\<close>)

lemma tallies_more:
  assumes "f p < PBS_NUMJOBSTATE" and "\<And>s. tally f ps' s = tally f ps s + (if f p = s then 1 else 0)"
  shows "add_at (f p) 1 (tallies f ps) = tallies f ps'"
  by (rule tallies_eqI) (use assms in \<open>auto simp: nth_add_at\<close>)

lemma tallies_less:
  assumes "f p < PBS_NUMJOBSTATE" and "\<And>s. tally f ps' s = tally f ps s - (if f p = s then 1 else 0)"
  shows "add_at (f p) (- 1) (tallies f ps) = tallies f ps'"
  by (rule tallies_eqI) (use assms in \<open>auto simp: nth_add_at\<close>)

lemma tallies_Nil: "tallies f [] = replicate PBS_NUMJOBSTATE 0"
  by (rule tallies_eqI [symmetric]) (simp_all add: tally_def)

section \<open>The invariant\<close>

definition jobs_in :: "nat item_container \<Rightarrow> nat list" where
  "jobs_in c = (case walk_all False c of None \<Rightarrow> [] | Some ps \<Rightarrow> ps)"

abbreviation named :: "(nat \<Rightarrow> svr_job) \<Rightarrow> nat list \<Rightarrow> (char list \<times> nat) list" where
  "named mem ps \<equiv> map (\<lambda>p. (ji_jobid (mem p), p)) ps"

definition list_ok :: "bool \<Rightarrow> (nat \<Rightarrow> svr_job) \<Rightarrow> nat item_container \<Rightarrow> bool" where
  "list_ok ap mem c \<longleftrightarrow> holds ap c (named mem (jobs_in c))"

definition queue_ok :: "(nat \<Rightarrow> svr_job) \<Rightarrow> (nat \<Rightarrow> nat) \<Rightarrow> nat list \<Rightarrow> char list \<Rightarrow> pbs_queue \<Rightarrow> bool" where
  "queue_ok mem qs alls n q \<longleftrightarrow>
     list_ok False mem (qu_jobs q) \<and> qu_numjobs q = int (length (jobs_in (qu_jobs q))) \<and>
     qu_njstate q = tallies qs (jobs_in (qu_jobs q)) \<and>
     sorted (map (\<lambda>p. atr_qrank (mem p)) (jobs_in (qu_jobs q))) \<and>
     (\<forall>p \<in> set (jobs_in (qu_jobs q)). p \<in> set alls \<and> ji_qhdr (mem p) = Some n)"

definition svr_inv :: "(nat \<Rightarrow> nat) \<Rightarrow> (nat \<Rightarrow> nat) \<Rightarrow> svr \<Rightarrow> bool" where
  "svr_inv ss qs st \<longleftrightarrow>
     list_ok True (sv_mem st) (alljobs st) \<and>
     sv_numjobs st = int (length (jobs_in (alljobs st))) \<and> sv_jobstates st = tallies ss (jobs_in (alljobs st)) \<and>
     distinct (map fst (svr_queues st)) \<and>
     (\<forall>n q. map_of (svr_queues st) n = Some q \<longrightarrow> queue_ok (sv_mem st) qs (jobs_in (alljobs st)) n q) \<and>
     (\<forall>p \<in> set (jobs_in (alljobs st)). ss p < PBS_NUMJOBSTATE \<and> qs p < PBS_NUMJOBSTATE \<and>
        \<not> ji_is_array_template (sv_mem st p) \<and>
        (\<forall>n. ji_qhdr (sv_mem st p) = Some n \<longrightarrow>
           (\<exists>q. map_of (svr_queues st) n = Some q \<and> p \<in> set (jobs_in (qu_jobs q)))))"

abbreviation states :: "svr \<Rightarrow> nat \<Rightarrow> nat" where
  "states st \<equiv> \<lambda>p. ji_state (sv_mem st p)"

definition svr_ok :: "svr \<Rightarrow> bool" where
  "svr_ok st \<longleftrightarrow> svr_inv (states st) (states st) st"

lemma jobs_in_holds: "holds ap c L \<Longrightarrow> jobs_in c = map snd L"
  by (simp add: jobs_in_def holds_walk)

lemma list_ok_distinct: "list_ok ap mem c \<Longrightarrow> distinct (jobs_in c)"
  unfolding list_ok_def by (drule holds_distinct) (simp add: distinct_map comp_def)

lemma map_of_upd_named: "map_of (upd_named n f qs) m = (if m = n then map_option f (map_of qs n) else map_of qs m)"
  by (induction qs) auto

lemma names_upd_named [simp]: "map fst (upd_named n f qs) = map fst qs"
  by (induction qs) auto

text \<open>Changes of a job that do not concern the lists.\<close>

definition same_place :: "svr_job \<Rightarrow> svr_job \<Rightarrow> bool" where
  "same_place j j' \<longleftrightarrow> ji_jobid j' = ji_jobid j \<and> atr_qrank j' = atr_qrank j \<and> ji_qhdr j' = ji_qhdr j \<and>
     ji_is_array_template j' = ji_is_array_template j"

lemma same_place_refl [simp]: "same_place j j"
  by (simp add: same_place_def)

lemma svr_inv_mem:
  assumes "\<And>x. same_place (sv_mem st x) (mem x)"
  shows "svr_inv ss qs (st\<lparr>sv_mem := mem\<rparr>) = svr_inv ss qs st"
proof -
  have m: "ji_jobid (mem x) = ji_jobid (sv_mem st x)" "atr_qrank (mem x) = atr_qrank (sv_mem st x)"
    "ji_qhdr (mem x) = ji_qhdr (sv_mem st x)" "ji_is_array_template (mem x) = ji_is_array_template (sv_mem st x)" for x
    using assms by (auto simp: same_place_def)
  show ?thesis by (simp add: svr_inv_def list_ok_def queue_ok_def m)
qed

lemma svr_inv_upd_job:
  assumes "svr_inv ss qs st" and "same_place (sv_mem st p) (f (sv_mem st p))"
  shows "svr_inv ss qs (upd_job p f st)"
  unfolding upd_job_def using assms by (subst svr_inv_mem) simp_all

lemma svr_inv_frame [simp]:
  "svr_inv ss qs (st\<lparr>sv_cluster := cl\<rparr>) = svr_inv ss qs st"
  "svr_inv ss qs (st\<lparr>users := us\<rparr>) = svr_inv ss qs st"
  "svr_inv ss qs (st\<lparr>svr_do_schedule := d\<rparr>) = svr_inv ss qs st"
  "svr_inv ss qs (st\<lparr>array_summary := a\<rparr>) = svr_inv ss qs st"
  by (simp_all add: svr_inv_def)

lemma svr_inv_upd_queue:
  assumes "svr_inv ss qs st"
    and "\<And>q. qu_jobs (f q) = qu_jobs q \<and> qu_numjobs (f q) = qu_numjobs q \<and> qu_njstate (f q) = qu_njstate q"
  shows "svr_inv ss qs (upd_queue n f st)"
proof -
  have q: "queue_ok (sv_mem st) qs alls m (f q) = queue_ok (sv_mem st) qs alls m q" for m q alls
    by (simp add: queue_ok_def assms(2))
  have "(\<exists>q. map_of (upd_named n f (svr_queues st)) m = Some q \<and> p \<in> set (jobs_in (qu_jobs q))) \<longleftrightarrow>
    (\<exists>q. map_of (svr_queues st) m = Some q \<and> p \<in> set (jobs_in (qu_jobs q)))" for m p
    by (auto simp: map_of_upd_named assms(2))
  then show ?thesis using assms(1) q by (auto simp: svr_inv_def upd_queue_def map_of_upd_named)
qed

end
