(* ===== verification/Job_Demo.thy ===== *)
theory Job_Demo
  imports Job_Inv Restart
begin

text \<open>
  A small server on which the theorems about jobs are applied: the queue \<^verbatim>\<open>batch\<close> holds the queued job 1,
  and job 2, with a smaller rank, is not yet in a list.
\<close>

declare map_of_eq_Some_iff [simp del] Some_eq_map_of_iff [simp del]

definition demo_job :: "char list \<Rightarrow> char list option \<Rightarrow> int \<Rightarrow> svr_job" where
  "demo_job jobid qhdr rank =
     \<lparr>ji_internal_id = 0, atr_node_exclusive = 0, atr_exec_host = None, atr_exec_gpus = None, atr_login_node_id = None,
      svflg_has_nodes = False, ji_jobid = jobid, ji_state = JOB_STATE_QUEUED, ji_substate = JOB_SUBSTATE_QUEUED, ji_queue = ''batch'',
      ji_qhdr = qhdr, ji_is_array_template = False, ji_arraystructid = [], ji_being_recycled = False, ji_modified = False,
      ji_mod_time = 0, ji_un_type = JOB_UNION_TYPE_NEW, ji_parent_job = None, ji_cray_clone = None, ji_external_clone = None,
      counted_globally = False, counted_in_queue = False, svflg_staged_in = False, svflg_checkpoint_file = False,
      svflg_suspend = False, atr_qrank = rank, atr_job_owner = ''u@h'', atr_job_array_request = None, atr_hold = 0, atr_exectime = 0,
      atr_stagein = False, atr_checkpoint = None, atr_depend = False, atr_state = CHR ''Q'', atr_substate = JOB_SUBSTATE_QUEUED,
      atr_qtime = None, atr_etime = None, atr_in_queue = ''batch'', atr_queuetype = CHR ''E''\<rparr>"

definition demo_mem :: "nat \<Rightarrow> svr_job" where
  "demo_mem p = (if p = 1 then demo_job ''1.a'' (Some ''batch'') 5 else demo_job ''2.a'' None 4)"

definition demo_queue :: pbs_queue where
  "demo_queue =
     \<lparr>qu_type = QTYPE_Execution, q_being_recycled = False, qu_qtype_str = ''Execution'',
      qu_jobs = snd (insert_first (\<lambda>n. True) 1 ''1.a'' new_container), qu_jobs_array_sum = new_container, qu_numjobs = 1,
      qu_njstate = [0, 1, 0, 0, 0, 0, 0], qu_reserved_jobs = 0, qu_uih = Map.empty, qa_GhostQueue = False, qa_MaxJobs = Some 10,
      qa_MaxUserJobs = None, qe_checkpoint_min = None, qe_checkpoint_defaults = None\<rparr>"

definition demo_svr :: svr where
  "demo_svr =
     \<lparr>sv_mem = demo_mem, alljobs = snd (cinsert (\<lambda>n. True) 1 ''1.a'' False new_container), array_summary = new_container,
      svr_queues = [(''batch'', demo_queue)], sv_numjobs = 1, sv_jobstates = [0, 1, 0, 0, 0, 0, 0], users = Map.empty,
      svr_do_schedule = SCH_SCHEDULE_NULL,
      sv_names = \<lparr>display_job_server_suffix = None, job_suffix_alias = None, server_name = ''a''\<rparr>, sv_cluster = demo_cluster\<rparr>"

definition demo_env :: svr_env where
  "demo_env = \<lparr>time_now = 100, heap_has = (\<lambda>n. True), user_space = True, job_save = (\<lambda>j b. PBSE_NONE),
     depend_on_que = (\<lambda>j. (PBSE_NONE, j))\<rparr>"

lemma demo_alljobs: "holds True (alljobs demo_svr) [(''1.a'', 1)]"
proof -
  obtain ok c where e: "cinsert (\<lambda>n. True) (1::nat) ''1.a'' False new_container = (ok, c)" by (metis prod.exhaust)
  from holds_append [OF holds_new e] show ?thesis using e by (auto simp: demo_svr_def room_def)
qed

lemma demo_queued: "holds False (qu_jobs demo_queue) [(''1.a'', 1)]"
proof -
  obtain ok c where e: "insert_first (\<lambda>n. True) (1::nat) ''1.a'' new_container = (ok, c)" by (metis prod.exhaust)
  from holds_first [OF holds_new [of False] _ _ e] show ?thesis using e by (auto simp: demo_queue_def room_def)
qed

lemma demo_jobs_in [simp]: "jobs_in (alljobs demo_svr) = [1]" "jobs_in (qu_jobs demo_queue) = [1]"
  using jobs_in_holds [OF demo_alljobs] jobs_in_holds [OF demo_queued] by simp_all

lemma demo_fields [simp]:
  "sv_mem demo_svr = demo_mem" "svr_queues demo_svr = [(''batch'', demo_queue)]" "sv_numjobs demo_svr = 1"
  "sv_jobstates demo_svr = [0, 1, 0, 0, 0, 0, 0]" "demo_mem (Suc 0) = demo_job ''1.a'' (Some ''batch'') 5"
  "demo_mem 1 = demo_job ''1.a'' (Some ''batch'') 5" "demo_mem 2 = demo_job ''2.a'' None 4"
  "ji_jobid (demo_job i h r) = i" "ji_qhdr (demo_job i h r) = h" "atr_qrank (demo_job i h r) = r" "ji_state (demo_job i h r) = 1"
  "ji_substate (demo_job i h r) = 10" "ji_is_array_template (demo_job i h r) = False" "ji_being_recycled (demo_job i h r) = False"
  "ji_parent_job (demo_job i h r) = None"
  by (simp_all add: demo_svr_def demo_mem_def demo_job_def)

lemma demo_ok: "svr_ok demo_svr"
proof -
  have t: "tallies (\<lambda>p. ji_state (demo_mem p)) [1] = [0, 1, 0, 0, 0, 0, 0]"
    by (simp add: tallies_def PBS_NUMJOBSTATE_def tally_def upt_rec)
  have "queue_ok demo_mem (\<lambda>p. ji_state (demo_mem p)) [1] ''batch'' demo_queue"
    unfolding queue_ok_def list_ok_def demo_jobs_in t using demo_queued by simp (simp add: demo_queue_def)
  then show ?thesis
    unfolding svr_ok_def svr_inv_def list_ok_def demo_jobs_in demo_fields(1-4) t using demo_alljobs
    by (simp add: PBS_NUMJOBSTATE_def)
qed

end
