(* ===== verification/Job_Props.thy ===== *)
theory Job_Props
  imports Job_Demo
begin

text \<open>
  The operations keep the lists and the counts: changing the state of a job, entering a queue, leaving
  it and counting again; and the interleaving that makes the counts wrong.
\<close>

declare map_of_eq_Some_iff [simp del] Some_eq_map_of_iff [simp del]

section \<open>Changing the state\<close>

definition same_job :: "svr_job \<Rightarrow> svr_job \<Rightarrow> bool" where
  "same_job j j' \<longleftrightarrow> same_place j j' \<and> ji_state j' = ji_state j \<and> ji_substate j' = ji_substate j"

lemma same_job_refl [simp]: "same_job j j"
  by (simp add: same_job_def)

lemma same_job_trans: "same_job a b \<Longrightarrow> same_job b c \<Longrightarrow> same_job a c"
  by (simp add: same_job_def same_place_def)

lemma release_same_job: "release_node_allocation_if_needed new j cl = (j', cl') \<Longrightarrow> same_job j j'"
  by (auto simp: release_node_allocation_if_needed_def release_node_allocation_def same_job_def same_place_def Let_def
      split: if_splits prod.splits)

lemma decrement_same_job: "decrement_queued_jobs g uih j = (rc, uih', j') \<Longrightarrow> same_job j j'"
  by (auto simp: decrement_queued_jobs_def same_job_def same_place_def Let_def split: if_splits option.splits prod.splits)

lemma increment_same_job: "increment_queued_jobs m g uih j = (rc, uih', j') \<Longrightarrow> same_job j j'"
  by (auto simp: increment_queued_jobs_def same_job_def same_place_def Let_def split: if_splits option.splits prod.splits)

text \<open>The lists stay, the memory keeps the places and states of the jobs.\<close>

definition quiet :: "svr \<Rightarrow> svr \<Rightarrow> bool" where
  "quiet st st' \<longleftrightarrow> alljobs st' = alljobs st \<and> array_summary st' = array_summary st \<and> sv_names st' = sv_names st \<and>
     (\<forall>x. same_job (sv_mem st x) (sv_mem st' x))"

lemma quiet_refl [simp]: "quiet st st"
  by (simp add: quiet_def)

lemma quiet_trans: "quiet a b \<Longrightarrow> quiet b c \<Longrightarrow> quiet a c"
  unfolding quiet_def by (metis same_job_trans)

lemma quiet_states: "quiet st st' \<Longrightarrow> states st' = states st"
  by (auto simp: quiet_def same_job_def)

lemma quiet_upd_job: "same_job (sv_mem st p) (f (sv_mem st p)) \<Longrightarrow> quiet st (upd_job p f st)"
  by (auto simp: quiet_def upd_job_def)

lemma quiet_upd_queue [simp]: "quiet st (upd_queue n f st)"
  by (simp add: quiet_def upd_queue_def)

lemma quiet_fields [simp]:
  "quiet st (st\<lparr>sv_cluster := cl\<rparr>)" "quiet st (st\<lparr>users := us\<rparr>)" "quiet st (st\<lparr>svr_do_schedule := d\<rparr>)"
  "quiet st (st\<lparr>sv_jobstates := js\<rparr>)"
  by (simp_all add: quiet_def)

text \<open>As before, and the server's counts stay.\<close>

definition still :: "svr \<Rightarrow> svr \<Rightarrow> bool" where
  "still st st' \<longleftrightarrow> quiet st st' \<and> sv_jobstates st' = sv_jobstates st"

lemma still_refl [simp]: "still st st"
  by (simp add: still_def)

lemma still_trans: "still a b \<Longrightarrow> still b c \<Longrightarrow> still a c"
  unfolding still_def using quiet_trans by metis

lemma still_upd_job: "same_job (sv_mem st p) (f (sv_mem st p)) \<Longrightarrow> still st (upd_job p f st)"
  by (simp add: still_def quiet_upd_job) (simp add: upd_job_def)

lemma still_upd_queue: "still st (upd_queue n f st)"
  by (simp add: still_def) (simp add: upd_queue_def)

lemma still_fields: "still st (st\<lparr>users := us\<rparr>)" "still st (st\<lparr>svr_do_schedule := d\<rparr>)"
  by (simp_all add: still_def)

lemma still_if: "still st a \<Longrightarrow> still st b \<Longrightarrow> still st (if c then a else b)"
  by simp

lemma still_option: "still st a \<Longrightarrow> (\<And>x. still st (f x)) \<Longrightarrow> still st (case_option a f v)"
  by (cases v) simp_all

lemma svr_inv_server:
  assumes "svr_inv ss qs st" and "js = tallies ss' (jobs_in (alljobs st))"
    and "\<And>p. p \<in> set (jobs_in (alljobs st)) \<Longrightarrow> ss' p < PBS_NUMJOBSTATE"
  shows "svr_inv ss' qs (st\<lparr>sv_jobstates := js\<rparr>)"
  using assms by (simp add: svr_inv_def)

lemma counts_effect:
  assumes "\<not> ji_is_array_template (sv_mem st p)"
  shows "sv_jobstates (setjobstate_counts p new st) = add_at new 1 (add_at (ji_state (sv_mem st p)) (- 1) (sv_jobstates st))"
    "quiet st (setjobstate_counts p new st)"
proof -
  obtain j cl where r: "release_node_allocation_if_needed new (sv_mem st p) (sv_cluster st) = (j, cl)" by (metis prod.exhaust)
  have j: "same_job (sv_mem st p) j" by (rule release_same_job [OF r])
  then have t: "\<not> ji_is_array_template j" using assms by (simp add: same_job_def same_place_def)
  show "sv_jobstates (setjobstate_counts p new st) = add_at new 1 (add_at (ji_state (sv_mem st p)) (- 1) (sv_jobstates st))"
    using t by (simp add: setjobstate_counts_def Let_def r upd_job_def)
  show "quiet st (setjobstate_counts p new st)"
    using t j by (auto simp: setjobstate_counts_def Let_def r upd_job_def quiet_def)
qed

lemma inv_counts:
  assumes inv: "svr_inv ss qs st" and p: "p \<in> set (jobs_in (alljobs st))" and s: "ss p = ji_state (sv_mem st p)"
    and new: "new < PBS_NUMJOBSTATE"
  shows "svr_inv (ss(p := new)) qs (setjobstate_counts p new st)" "quiet st (setjobstate_counts p new st)"
proof -
  obtain j cl where r: "release_node_allocation_if_needed new (sv_mem st p) (sv_cluster st) = (j, cl)" by (metis prod.exhaust)
  have j: "same_job (sv_mem st p) j" by (rule release_same_job [OF r])
  let ?st = "(upd_job p (\<lambda>_. j) st)\<lparr>sv_cluster := cl\<rparr>"
  have q: "quiet st ?st" using quiet_upd_job [of st p "\<lambda>_. j"] j quiet_trans quiet_fields(1) by blast
  have i: "svr_inv ss qs ?st" using svr_inv_upd_job [OF inv, of p "\<lambda>_. j"] j by (simp add: same_job_def)
  have t: "\<not> ji_is_array_template j" using inv p j by (auto simp: svr_inv_def same_job_def same_place_def)
  have e: "setjobstate_counts p new st =
    ?st\<lparr>sv_jobstates := add_at new 1 (add_at (ji_state (sv_mem st p)) (- 1) (sv_jobstates st))\<rparr>"
    using t by (simp add: setjobstate_counts_def Let_def r upd_job_def)
  have a: "alljobs ?st = alljobs st" by (simp add: upd_job_def)
  have d: "distinct (jobs_in (alljobs st))" using inv list_ok_distinct by (auto simp: svr_inv_def)
  have b: "ss x < PBS_NUMJOBSTATE" if "x \<in> set (jobs_in (alljobs st))" for x using inv that by (simp add: svr_inv_def)
  have "sv_jobstates st = tallies ss (jobs_in (alljobs st))" using inv by (simp add: svr_inv_def)
  then have "add_at new 1 (add_at (ji_state (sv_mem st p)) (- 1) (sv_jobstates st)) = tallies (ss(p := new)) (jobs_in (alljobs ?st))"
    unfolding a s [symmetric] using tallies_upd [where f = ss, OF d p b [OF p] new] by simp
  then show "svr_inv (ss(p := new)) qs (setjobstate_counts p new st)"
    unfolding e by (rule svr_inv_server [OF i]) (use b new a in auto)
  show "quiet st (setjobstate_counts p new st)" unfolding e using q quiet_trans quiet_fields(4) by blast
qed

lemma inv_queue_states:
  assumes inv: "svr_inv ss qs st" and p: "p \<in> set (jobs_in (alljobs st))" and h: "ji_qhdr (sv_mem st p) = Some n"
    and new: "new < PBS_NUMJOBSTATE"
  shows "svr_inv ss (qs(p := new)) (upd_queue n (\<lambda>q. q\<lparr>qu_njstate := add_at new 1 (add_at (qs p) (- 1) (qu_njstate q))\<rparr>) st)"
proof -
  let ?f = "\<lambda>q. q\<lparr>qu_njstate := add_at new 1 (add_at (qs p) (- 1) (qu_njstate q))\<rparr>"
  obtain q0 where q0: "map_of (svr_queues st) n = Some q0" "p \<in> set (jobs_in (qu_jobs q0))"
    using inv p h unfolding svr_inv_def by blast
  have Q: "queue_ok (sv_mem st) qs (jobs_in (alljobs st)) m q" if "map_of (svr_queues st) m = Some q" for m q
    using inv that by (simp add: svr_inv_def)
  have b: "qs p < PBS_NUMJOBSTATE" using inv p by (simp add: svr_inv_def)
  have d: "distinct (jobs_in (qu_jobs q0))" using Q [OF q0(1)] list_ok_distinct by (auto simp: queue_ok_def)
  have "queue_ok (sv_mem st) (qs(p := new)) (jobs_in (alljobs st)) n (?f q0)"
    using Q [OF q0(1)] tallies_upd [where f = qs, OF d q0(2) b new] by (simp add: queue_ok_def)
  moreover have "queue_ok (sv_mem st) (qs(p := new)) (jobs_in (alljobs st)) m q"
    if m: "map_of (svr_queues st) m = Some q" "m \<noteq> n" for m q
  proof -
    have "p \<notin> set (jobs_in (qu_jobs q))" using Q [OF m(1)] h m(2) by (auto simp: queue_ok_def)
    then have "tallies (qs(p := new)) (jobs_in (qu_jobs q)) = tallies qs (jobs_in (qu_jobs q))" by (intro tallies_cong) auto
    then show ?thesis using Q [OF m(1)] by (simp add: queue_ok_def)
  qed
  moreover have "(\<exists>q. map_of (upd_named n ?f (svr_queues st)) m = Some q \<and> x \<in> set (jobs_in (qu_jobs q))) \<longleftrightarrow>
    (\<exists>q. map_of (svr_queues st) m = Some q \<and> x \<in> set (jobs_in (qu_jobs q)))" for m x
    by (auto simp: map_of_upd_named)
  ultimately show ?thesis using inv q0 new
    by (auto simp: svr_inv_def upd_queue_def map_of_upd_named)
qed

lemma inv_no_queue:
  assumes inv: "svr_inv ss qs st" and h: "ji_qhdr (sv_mem st p) = None" and new: "new < PBS_NUMJOBSTATE"
  shows "svr_inv ss (qs(p := new)) st"
proof -
  have "queue_ok (sv_mem st) (qs(p := new)) (jobs_in (alljobs st)) m q" if m: "map_of (svr_queues st) m = Some q" for m q
  proof -
    have Q: "queue_ok (sv_mem st) qs (jobs_in (alljobs st)) m q" using inv m by (simp add: svr_inv_def)
    then have "p \<notin> set (jobs_in (qu_jobs q))" using h by (auto simp: queue_ok_def)
    then have "tallies (qs(p := new)) (jobs_in (qu_jobs q)) = tallies qs (jobs_in (qu_jobs q))" by (intro tallies_cong) auto
    then show ?thesis using Q by (simp add: queue_ok_def)
  qed
  then show ?thesis using inv new by (auto simp: svr_inv_def)
qed


lemma inv_queue:
  assumes inv: "svr_inv ss qs st" and p: "p \<in> set (jobs_in (alljobs st))" and h: "ji_qhdr (sv_mem st p) = Some n"
    and s: "qs p = ji_state (sv_mem st p)" and new: "new < PBS_NUMJOBSTATE"
  shows "svr_inv ss (qs(p := new)) (setjobstate_queue env p new n st)" "quiet st (setjobstate_queue env p new n st)"
proof -
  have t: "\<not> ji_is_array_template (sv_mem st p)" using inv p by (simp add: svr_inv_def)
  let ?st1 = "upd_queue n (\<lambda>q. q\<lparr>qu_njstate := add_at new 1 (add_at (ji_state (sv_mem st p)) (- 1) (qu_njstate q))\<rparr>) st"
  have i1: "svr_inv ss (qs(p := new)) ?st1" using inv_queue_states [OF inv p h new] s by simp
  have m1: "sv_mem ?st1 = sv_mem st" by (simp add: upd_queue_def)
  define st2 where "st2 = (if ji_state (sv_mem st p) \<noteq> JOB_STATE_TRANSIT \<and> ji_state (sv_mem st p) \<noteq> JOB_STATE_COMPLETE \<and> new = JOB_STATE_COMPLETE then
     (case map_of (svr_queues ?st1) n of
        None \<Rightarrow> ?st1
      | Some q \<Rightarrow>
          (case decrement_queued_jobs False (qu_uih q) (sv_mem ?st1 p) of
             (rc, uih, pjob) \<Rightarrow> upd_job p (\<lambda>_. pjob) (upd_queue n (\<lambda>q. q\<lparr>qu_uih := uih\<rparr>) ?st1)))
     else ?st1)"
  have 2: "svr_inv ss (qs(p := new)) st2 \<and> quiet ?st1 st2"
  proof (cases "(ji_state (sv_mem st p) \<noteq> JOB_STATE_TRANSIT \<and> ji_state (sv_mem st p) \<noteq> JOB_STATE_COMPLETE \<and> new = JOB_STATE_COMPLETE) \<and> map_of (svr_queues ?st1) n \<noteq> None")
    case True
    then obtain q where q: "map_of (svr_queues ?st1) n = Some q" by blast
    obtain rc uih j where d: "decrement_queued_jobs False (qu_uih q) (sv_mem ?st1 p) = (rc, uih, j)" by (rule prod_cases3)
    have j: "same_job (sv_mem ?st1 p) j" by (rule decrement_same_job [OF d])
    let ?q = "upd_queue n (\<lambda>q. q\<lparr>qu_uih := uih\<rparr>) ?st1"
    have mq: "sv_mem ?q = sv_mem ?st1" by (simp add: upd_queue_def)
    have e: "st2 = upd_job p (\<lambda>_. j) ?q" using True q d by (simp add: st2_def)
    have "svr_inv ss (qs(p := new)) ?q" by (rule svr_inv_upd_queue [OF i1]) simp
    then have "svr_inv ss (qs(p := new)) st2" unfolding e
      by (rule svr_inv_upd_job) (use j mq in \<open>simp add: same_job_def\<close>)
    moreover have "quiet ?st1 st2" unfolding e using quiet_upd_job [of ?q p "\<lambda>_. j"] j mq quiet_trans [OF quiet_upd_queue] by simp
    ultimately show ?thesis by simp
  next
    case False
    then have "st2 = ?st1" by (auto simp: st2_def split: option.splits)
    then show ?thesis using i1 by simp
  qed
  have q2: "quiet st st2" using 2 quiet_trans [OF quiet_upd_queue] by blast
  define f :: "svr_job \<Rightarrow> svr_job" where "f = (\<lambda>j. if atr_etime j = None then j\<lparr>atr_etime := Some (time_now env)\<rparr> else j)"
  have f: "same_job j (f j)" "same_job j (j\<lparr>atr_etime := None\<rparr>)" for j by (simp_all add: f_def same_job_def same_place_def)
  have e: "setjobstate_queue env p new n st =
    (if map_option qu_type (map_of (svr_queues st2) n) = Some QTYPE_Execution \<and> new = JOB_STATE_QUEUED
     then (upd_job p f st2)\<lparr>svr_do_schedule := SCH_SCHEDULE_NEW\<rparr>
     else if new = JOB_STATE_HELD \<or> new = JOB_STATE_WAITING then upd_job p (\<lambda>j. j\<lparr>atr_etime := None\<rparr>) st2
     else st2)"
    unfolding setjobstate_queue_def Let_def if_not_P [OF t] st2_def [symmetric] f_def [symmetric] ..
  have u: "svr_inv ss (qs(p := new)) (upd_job p g st2) \<and> quiet st (upd_job p g st2)" if g: "same_job (sv_mem st2 p) (g (sv_mem st2 p))" for g
  proof
    show "svr_inv ss (qs(p := new)) (upd_job p g st2)"
      by (rule svr_inv_upd_job) (use 2 g in \<open>simp_all add: same_job_def\<close>)
    show "quiet st (upd_job p g st2)" by (rule quiet_trans [OF q2 quiet_upd_job [of st2 p g, OF g]])
  qed
  note uf = u [of f, OF f(1)] and un = u [of "\<lambda>j. j\<lparr>atr_etime := None\<rparr>", OF f(2)]
  have us: "quiet st ((upd_job p f st2)\<lparr>svr_do_schedule := SCH_SCHEDULE_NEW\<rparr>)"
    by (rule quiet_trans [OF conjunct2 [OF uf] quiet_fields(3)])
  show "svr_inv ss (qs(p := new)) (setjobstate_queue env p new n st)"
    unfolding e using conjunct1 [OF uf] conjunct1 [OF un] conjunct1 [OF 2] by (simp only: svr_inv_frame split: if_split) blast
  show "quiet st (setjobstate_queue env p new n st)"
    unfolding e using us un q2 by simp
qed

lemma inv_recheck:
  assumes inv: "svr_inv ss qs st" and p: "p \<in> set (jobs_in (alljobs st))"
    and s: "qs p = ji_state (sv_mem st p)" and new: "new < PBS_NUMJOBSTATE" and r: "setjobstate_recheck env p new sub st = (ch, st')"
  shows "svr_inv ss (qs(p := new)) st'" "quiet st st'"
proof -
  show "svr_inv ss (qs(p := new)) st'" "quiet st st'"
  proof (atomize (full), cases "ji_state (sv_mem st p) = new")
    case True
    then have "st' = st" "qs(p := new) = qs" using r s by (auto simp: setjobstate_recheck_def)
    then show "svr_inv ss (qs(p := new)) st' \<and> quiet st st'" using inv by simp
  next
    case False
    obtain rc us j where d: "decrement_queued_jobs True (users st) (sv_mem st p) = (rc, us, j)" by (rule prod_cases3)
    have j: "same_job (sv_mem st p) j" by (rule decrement_same_job [OF d])
    define st1 where "st1 = (if \<not> ji_is_array_template (sv_mem st p) \<and> new = JOB_STATE_COMPLETE
       then (upd_job p (\<lambda>_. j) st)\<lparr>users := us\<rparr> else st)"
    have st1: "(if \<not> ji_is_array_template (sv_mem st p) \<and> new = JOB_STATE_COMPLETE
       then (case decrement_queued_jobs True (users st) (sv_mem st p) of (rc, us, j) \<Rightarrow> (upd_job p (\<lambda>_. j) st)\<lparr>users := us\<rparr>) else st) = st1"
      by (simp add: st1_def d)
    have q1: "quiet st st1" and i1: "svr_inv ss qs st1"
      using inv svr_inv_upd_job [OF inv, of p "\<lambda>_. j"] j quiet_trans [OF quiet_upd_job [of st p "\<lambda>_. j"] quiet_fields(2)]
      by (auto simp: st1_def same_job_def)
    have a: "p \<in> set (jobs_in (alljobs st1))" "qs p = ji_state (sv_mem st1 p)" "ji_qhdr (sv_mem st1 p) = ji_qhdr (sv_mem st p)"
      using q1 p s by (auto simp: quiet_def same_job_def same_place_def)
    have e: "st' = (case ji_qhdr (sv_mem st p) of None \<Rightarrow> st1 | Some n \<Rightarrow> setjobstate_queue env p new n st1)"
      using r False unfolding setjobstate_recheck_def Let_def st1 by simp
    show "svr_inv ss (qs(p := new)) st' \<and> quiet st st'"
    proof (cases "ji_qhdr (sv_mem st p)")
      case None
      then show ?thesis using inv_no_queue [OF i1 _ new] a(3) q1 e by simp
    next
      case (Some n)
      then show ?thesis using inv_queue [OF i1 a(1) _ a(2) new] a(3) quiet_trans [OF q1] e by simp
    qed
  qed
qed

lemma inv_finish:
  assumes inv: "svr_inv ss qs st" and f: "setjobstate_finish env p new sub ch st = (rc, st')"
  shows "svr_inv ss qs st'" "states st' = (states st)(p := new)" "alljobs st' = alljobs st" "sv_jobstates st' = sv_jobstates st"
proof -
  define j where "j = set_jobstate_basic new sub (sv_mem st p)"
  have b: "same_place (sv_mem st p) j" "ji_state j = new"
    by (simp_all add: j_def set_jobstate_basic_def set_statechar_def same_place_def)
  define st1 where "st1 = upd_job p (set_jobstate_basic new sub) st"
  define st2 where "st2 = (if ch then upd_job p (\<lambda>j. j\<lparr>ji_mod_time := time_now env\<rparr>) st1 else st1)"
  have 1: "svr_inv ss qs st1" unfolding st1_def by (rule svr_inv_upd_job [OF inv]) (use b in \<open>simp add: j_def\<close>)
  have m1: "sv_mem st1 = (sv_mem st)(p := j)" by (simp add: st1_def upd_job_def j_def)
  have 2: "svr_inv ss qs st2" unfolding st2_def using svr_inv_upd_job [OF 1] 1 by (simp add: same_place_def)
  have e: "st' = st2" using f by (auto simp: setjobstate_finish_def st1_def st2_def Let_def split: if_splits)
  show "svr_inv ss qs st'" using 2 e by simp
  show "states st' = (states st)(p := new)" unfolding e st2_def using m1 b by (auto simp: upd_job_def)
  show "alljobs st' = alljobs st" "sv_jobstates st' = sv_jobstates st" unfolding e st2_def st1_def by (simp_all add: upd_job_def)
qed


lemma queue_still: "still st (setjobstate_queue env p new n st)"
proof -
  let ?st1 = "upd_queue n (\<lambda>q. q\<lparr>qu_njstate := add_at new 1 (add_at (ji_state (sv_mem st p)) (- 1) (qu_njstate q))\<rparr>) st"
  define st2 where "st2 = (if ji_is_array_template (sv_mem st p) then st
     else if ji_state (sv_mem st p) \<noteq> JOB_STATE_TRANSIT \<and> ji_state (sv_mem st p) \<noteq> JOB_STATE_COMPLETE \<and> new = JOB_STATE_COMPLETE then
         (case map_of (svr_queues ?st1) n of
            None \<Rightarrow> ?st1
          | Some q \<Rightarrow>
              (case decrement_queued_jobs False (qu_uih q) (sv_mem ?st1 p) of
                 (rc, uih, pjob) \<Rightarrow> upd_job p (\<lambda>_. pjob) (upd_queue n (\<lambda>q. q\<lparr>qu_uih := uih\<rparr>) ?st1)))
         else ?st1)"
  have d: "still st (case decrement_queued_jobs False uih0 (sv_mem ?st1 p) of
      (rc, uih, pjob) \<Rightarrow> upd_job p (\<lambda>_. pjob) (upd_queue n (\<lambda>q. q\<lparr>qu_uih := uih\<rparr>) ?st1))" for uih0
  proof -
    obtain rc uih j where d: "decrement_queued_jobs False uih0 (sv_mem ?st1 p) = (rc, uih, j)" by (rule prod_cases3)
    let ?q = "upd_queue n (\<lambda>q. q\<lparr>qu_uih := uih\<rparr>) ?st1"
    have "same_job (sv_mem ?q p) j" using decrement_same_job [OF d] by (simp add: upd_queue_def)
    from still_upd_job [of ?q p "\<lambda>_. j", OF this] show ?thesis
      unfolding d by (simp add: still_trans [OF still_trans [OF still_upd_queue still_upd_queue]])
  qed
  have q: "still st st2" unfolding st2_def by (intro still_if still_option d still_refl still_upd_queue)
  have u: "still st (upd_job p g st2)" if "same_job (sv_mem st2 p) (g (sv_mem st2 p))" for g
    by (rule still_trans [OF q still_upd_job [of st2 p g, OF that]])
  have e: "still st (if c then (upd_job p (\<lambda>j. if atr_etime j = None then j\<lparr>atr_etime := t\<rparr> else j) st2)\<lparr>svr_do_schedule := m\<rparr>
     else if c' then upd_job p (\<lambda>j. j\<lparr>atr_etime := None\<rparr>) st2 else st2)" for c c' t m
    using u [of "\<lambda>j. if atr_etime j = None then j\<lparr>atr_etime := t\<rparr> else j"] u [of "\<lambda>j. j\<lparr>atr_etime := None\<rparr>"] q
    by (auto simp: same_job_def same_place_def intro: still_trans [OF _ still_fields(2)])
  show ?thesis unfolding setjobstate_queue_def Let_def st2_def [symmetric] by (rule e)
qed

lemma recheck_still: "setjobstate_recheck env p new sub st = (ch, st') \<Longrightarrow> still st st'"
proof -
  assume r: "setjobstate_recheck env p new sub st = (ch, st')"
  obtain rc us j where d: "decrement_queued_jobs True (users st) (sv_mem st p) = (rc, us, j)" by (rule prod_cases3)
  have j: "still st ((upd_job p (\<lambda>_. j) st)\<lparr>users := us\<rparr>)"
    using still_trans [OF still_upd_job [of st p "\<lambda>_. j"] still_fields(1)] decrement_same_job [OF d] by simp
  show ?thesis using r j queue_still still_trans d
    unfolding setjobstate_recheck_def Let_def by (auto split: if_splits option.splits)
qed

lemma finish_effect:
  assumes f: "setjobstate_finish env p new sub ch st = (rc, st')"
  shows "states st' = (states st)(p := new)" "alljobs st' = alljobs st" "sv_jobstates st' = sv_jobstates st"
  using f by (auto simp: setjobstate_finish_def upd_job_def Let_def set_jobstate_basic_def set_statechar_def split: if_splits)

text \<open>
  C8: changing the state of a job keeps the counts.  For every job in the server's list that has been
  committed, \<open>svr_setjobstate\<close> returns, the job has the new state when the transition is allowed, and the
  counts of the server and of every queue are again the numbers of jobs in each state.
\<close>

theorem setjobstate_keeps_counts:
  assumes "svr_ok st" and "p \<in> set (jobs_in (alljobs st))" and "ji_parent_job (sv_mem st p) = None"
    and "newstate < PBS_NUMJOBSTATE" and "ji_substate (sv_mem st p) \<noteq> JOB_SUBSTATE_TRANSICM"
  shows "\<exists>rc st'. svr_setjobstate env p newstate newsubstate st = Some (rc, st') \<and> svr_ok st' \<and> alljobs st' = alljobs st \<and>
    (is_valid_state_transition (sv_mem st p) newstate newsubstate \<longrightarrow> ji_state (sv_mem st' p) = newstate)"
proof (cases "is_valid_state_transition (sv_mem st p) newstate newsubstate")
  case False
  then have "svr_setjobstate env p newstate newsubstate st = Some (PBSE_BAD_JOB_STATE_TRANSITION, st)"
    by (subst svr_setjobstate.simps) simp
  then show ?thesis using assms(1) False by simp
next
  case True
  have e: "svr_setjobstate env p newstate newsubstate st = Some (setjobstate_plain env p newstate newsubstate st)"
    using True assms(3) by (subst svr_setjobstate.simps) simp
  have i: "svr_inv (states st) (states st) st" using assms(1) by (simp add: svr_ok_def)
  obtain rc st' where f: "setjobstate_plain env p newstate newsubstate st = (rc, st')" by (metis prod.exhaust)
  have "svr_ok st' \<and> alljobs st' = alljobs st \<and> ji_state (sv_mem st' p) = newstate"
  proof (cases "ji_state (sv_mem st p) = newstate")
    case True
    then have s: "setjobstate_finish env p newstate newsubstate (ji_substate (sv_mem st p) \<noteq> newsubstate) st = (rc, st')"
      using f assms(5) by (simp add: setjobstate_plain_def)
    have "(states st)(p := newstate) = states st" using True by auto
    then show ?thesis using inv_finish [OF i s] True fun_cong [OF inv_finish(2) [OF i s], of p] by (simp add: svr_ok_def)
  next
    case False
    let ?c = "setjobstate_counts p newstate st"
    obtain ch st2 where r: "setjobstate_recheck env p newstate newsubstate ?c = (ch, st2)" by (metis prod.exhaust)
    have s: "setjobstate_finish env p newstate newsubstate ch st2 = (rc, st')"
      using f False assms(5) r by (simp add: setjobstate_plain_def)
    note c = inv_counts [OF i assms(2) refl assms(4)]
    have a: "p \<in> set (jobs_in (alljobs ?c))" "states st p = ji_state (sv_mem ?c p)" "states ?c = states st" "alljobs ?c = alljobs st"
      using c(2) assms(2) by (auto simp: quiet_def same_job_def)
    note k = inv_recheck [OF c(1) a(1,2) assms(4) r]
    have st2: "states st2 = states st" "alljobs st2 = alljobs st" using quiet_states [OF k(2)] k(2) a(3,4) by (auto simp: quiet_def)
    note n = inv_finish [OF k(1) s]
    have "svr_ok st'" unfolding svr_ok_def n(2) st2(1) by (rule n(1))
    moreover have "ji_state (sv_mem st' p) = newstate" using fun_cong [OF n(2), of p] by simp
    ultimately show ?thesis using n(3) st2(2) by simp
  qed
  then show ?thesis using e f by auto
qed

section \<open>Two threads at once\<close>

theorem setjobstate_keeps_counts_witness:
  "\<exists>rc st'. svr_setjobstate demo_env 1 JOB_STATE_HELD JOB_SUBSTATE_HELD demo_svr = Some (rc, st') \<and> svr_ok st' \<and>
     alljobs st' = alljobs demo_svr \<and> ji_state (sv_mem st' 1) = JOB_STATE_HELD"
proof -
  have "is_valid_state_transition (sv_mem demo_svr 1) JOB_STATE_HELD JOB_SUBSTATE_HELD"
    by (simp add: is_valid_state_transition_def)
  then show ?thesis
    using setjobstate_keeps_counts [OF demo_ok, of 1 JOB_STATE_HELD demo_env JOB_SUBSTATE_HELD]
    by (simp add: PBS_NUMJOBSTATE_def)
qed

text \<open>
  C18: two threads make the counts wrong.  \<open>svr_setjobstate\<close> updates the server's counts before
  \<open>get_jobs_queue\<close> lets the lock of the job go; what it checks again afterwards are the counts of the
  queue only.  When two threads change the state of the same job at once, both take the job off the
  count of its old state: the server counts one job too few there, and one too many in the state that
  was overwritten.
\<close>

theorem setjobstate_race:
  assumes "svr_ok st" and "p \<in> set (jobs_in (alljobs st))" and "a < PBS_NUMJOBSTATE" and "b < PBS_NUMJOBSTATE"
    and "ji_state (sv_mem st p) = old" and "a \<noteq> old" and "b \<noteq> old" and "a \<noteq> b"
    and "setjobstate_recheck env p b sb (setjobstate_counts p b (setjobstate_counts p a st)) = (chb, st1)"
    and "setjobstate_finish env p b sb chb st1 = (rcb, st2)"
    and "setjobstate_recheck env p a sa st2 = (cha, st3)" and "setjobstate_finish env p a sa cha st3 = (rca, st4)"
  shows "sv_jobstates st4 ! old = tally (states st4) (jobs_in (alljobs st4)) old - 1 \<and>
    sv_jobstates st4 ! b = tally (states st4) (jobs_in (alljobs st4)) b + 1 \<and> \<not> svr_ok st4"
proof -
  have i: "svr_inv (states st) (states st) st" using assms(1) by (simp add: svr_ok_def)
  let ?c = "setjobstate_counts p a st" and ?jobs = "jobs_in (alljobs st)"
  note c = inv_counts [OF i assms(2) refl assms(3)]
  have old: "old < PBS_NUMJOBSTATE" using i assms(2,5) by (auto simp: svr_inv_def)
  have d: "distinct ?jobs" using i list_ok_distinct by (auto simp: svr_inv_def)
  have js: "sv_jobstates ?c = tallies ((states st)(p := a)) ?jobs"
    using c by (simp add: svr_inv_def quiet_def)
  have t: "\<not> ji_is_array_template (sv_mem ?c p)" "ji_state (sv_mem ?c p) = old"
    using i assms(2,5) c(2) by (auto simp: svr_inv_def quiet_def same_job_def same_place_def)
  let ?d = "setjobstate_counts p b ?c"
  have dj: "sv_jobstates ?d = add_at b 1 (add_at old (- 1) (sv_jobstates ?c))" using counts_effect(1) [OF t(1)] t(2) by simp
  have "quiet ?c ?d" by (rule counts_effect(2) [OF t(1)])
  then have q: "quiet st ?d" using c(2) quiet_trans by blast
  have s1: "states st1 = states st" "alljobs st1 = alljobs st" and j1: "sv_jobstates st1 = sv_jobstates ?d"
    using recheck_still [OF assms(9)] q quiet_states [of st st1] quiet_trans [of st ?d st1] by (auto simp: still_def quiet_def)
  note f1 = finish_effect [OF assms(10)]
  have s3: "states st3 = states st2" "alljobs st3 = alljobs st2" and j3: "sv_jobstates st3 = sv_jobstates st2"
    using recheck_still [OF assms(11)] quiet_states [of st2 st3] by (auto simp: still_def quiet_def)
  note f2 = finish_effect [OF assms(12)]
  have fs: "states st4 = (states st)(p := a)" and fa: "alljobs st4 = alljobs st"
    and fj: "sv_jobstates st4 = add_at b 1 (add_at old (- 1) (tallies ((states st)(p := a)) ?jobs))"
    using f1 f2 s1 s3 j1 j3 dj js by auto
  have v: "sv_jobstates st4 ! old = tally (states st4) (jobs_in (alljobs st4)) old - 1"
    "sv_jobstates st4 ! b = tally (states st4) (jobs_in (alljobs st4)) b + 1"
    unfolding fj fs fa using old assms(4,7) by (simp_all add: nth_add_at)
  have "\<not> svr_ok st4"
  proof
    assume "svr_ok st4"
    then have "sv_jobstates st4 = tallies (states st4) (jobs_in (alljobs st4))" by (simp add: svr_ok_def svr_inv_def)
    then show False using v(1) old by simp
  qed
  then show ?thesis using v by simp
qed

text \<open>Job 1 of the example: one thread holds it, the other one lets it wait.\<close>

definition demo_race :: svr where
  "demo_race =
     (case setjobstate_recheck demo_env 1 3 30 (setjobstate_counts 1 3 (setjobstate_counts 1 2 demo_svr)) of
        (chb, st1) \<Rightarrow>
          (case setjobstate_finish demo_env 1 3 30 chb st1 of
             (rcb, st2) \<Rightarrow>
               (case setjobstate_recheck demo_env 1 2 20 st2 of
                  (cha, st3) \<Rightarrow> (case setjobstate_finish demo_env 1 2 20 cha st3 of (rca, st4) \<Rightarrow> st4))))"

theorem setjobstate_race_witness:
  "sv_jobstates demo_race ! 1 = tally (states demo_race) (jobs_in (alljobs demo_race)) 1 - 1 \<and>
   sv_jobstates demo_race ! 3 = tally (states demo_race) (jobs_in (alljobs demo_race)) 3 + 1 \<and> \<not> svr_ok demo_race"
proof -
  obtain chb st1 where 1: "setjobstate_recheck demo_env 1 3 30 (setjobstate_counts 1 3 (setjobstate_counts 1 2 demo_svr)) = (chb, st1)"
    by (metis prod.exhaust)
  obtain rcb st2 where 2: "setjobstate_finish demo_env 1 3 30 chb st1 = (rcb, st2)" by (metis prod.exhaust)
  obtain cha st3 where 3: "setjobstate_recheck demo_env 1 2 20 st2 = (cha, st3)" by (metis prod.exhaust)
  obtain rca st4 where 4: "setjobstate_finish demo_env 1 2 20 cha st3 = (rca, st4)" by (metis prod.exhaust)
  have "demo_race = st4" unfolding demo_race_def 1 2 3 4 prod.case by (simp only: 2 3 4 prod.case)
  then show ?thesis
    using setjobstate_race [OF demo_ok _ _ _ refl _ _ _ 1 2 3 4] by (simp add: PBS_NUMJOBSTATE_def)
qed

section \<open>Sub-jobs\<close>

text \<open>The chain of parents of a job ends after at most \<open>k\<close> steps.\<close>

fun chain_ends :: "(nat \<Rightarrow> svr_job) \<Rightarrow> nat \<Rightarrow> nat \<Rightarrow> bool" where
  "chain_ends mem 0 p = (ji_parent_job (mem p) = None)"
| "chain_ends mem (Suc k) p = (case ji_parent_job (mem p) of None \<Rightarrow> True | Some parent \<Rightarrow> chain_ends mem k parent)"

lemma own_effect:
  assumes "set_subjob_state_own newstate newsubstate jobid st = (rc, st')"
  shows "case svr_find_job st jobid True of
      None \<Rightarrow> rc = PBSE_JOB_RECYCLED \<and> st' = st
    | Some sub \<Rightarrow> rc = PBSE_NONE \<and> ji_state (sv_mem st' sub) = newstate \<and> ji_substate (sv_mem st' sub) = newsubstate"
  using assms
  by (auto simp: set_subjob_state_own_def upd_job_def set_jobstate_basic_def set_statechar_def split: option.splits prod.splits)



end
