(* ===== verification/Job_Recount.thy ===== *)
theory Job_Recount
  imports Job_Props
begin

text \<open>Counting the jobs again: \<open>correct_ct\<close> restores the counts from the lists of the queues.\<close>

lemma tally_card: "distinct ps \<Longrightarrow> tally f ps s = int (card {p \<in> set ps. f p = s})"
  unfolding tally_def by (metis distinct_card distinct_filter set_filter)

lemma tallies_same_set: "distinct ps \<Longrightarrow> distinct qs \<Longrightarrow> set ps = set qs \<Longrightarrow> tallies f ps = tallies f qs"
  unfolding tallies_def by (simp add: tally_card)

lemma queue_ok_mem: "queue_ok mem ss alls n q \<Longrightarrow> p \<in> set (jobs_in (qu_jobs q)) \<Longrightarrow> p \<in> set alls \<and> ji_qhdr (mem p) = Some n"
  unfolding queue_ok_def by blast

lemma svr_inv_queues:
  assumes "svr_inv ss qs st"
  shows "\<forall>(n, q) \<in> set (svr_queues st). queue_ok (sv_mem st) qs (jobs_in (alljobs st)) n q"
proof safe
  fix n q
  assume "(n, q) \<in> set (svr_queues st)"
  moreover have "distinct (map fst (svr_queues st))" using assms by (simp add: svr_inv_def)
  ultimately have "map_of (svr_queues st) n = Some q" by (metis map_of_is_SomeI)
  then show "queue_ok (sv_mem st) qs (jobs_in (alljobs st)) n q" using assms unfolding svr_inv_def by blast
qed

lemma count_states_tallies:
  assumes "\<forall>p \<in> set ps. ji_state (sv_mem st p) < PBS_NUMJOBSTATE"
  shows "count_states st ps (tallies (states st) base) = tallies (states st) (base @ ps)"
  using assms
proof (induction ps arbitrary: base)
  case Nil
  then show ?case by (simp add: count_states_def)
next
  case (Cons p ps)
  have "add_at (states st p) 1 (tallies (states st) base) = tallies (states st) (base @ [p])"
    by (rule tallies_more) (use Cons.prems in \<open>simp_all add: tally_append tally_Cons tally_def\<close>)
  then show ?case using Cons.IH [of "base @ [p]"] Cons.prems by (simp add: count_states_def)
qed

definition spoil_queue :: "(char list \<Rightarrow> int \<times> int list) \<Rightarrow> char list \<times> pbs_queue \<Rightarrow> char list \<times> pbs_queue" where
  "spoil_queue g x = (fst x, (snd x)\<lparr>qu_numjobs := fst (g (fst x)), qu_njstate := snd (g (fst x))\<rparr>)"

text \<open>The server with other counts.\<close>

definition spoil :: "int \<Rightarrow> int list \<Rightarrow> (char list \<Rightarrow> int \<times> int list) \<Rightarrow> svr \<Rightarrow> svr" where
  "spoil n js g st = st\<lparr>sv_numjobs := n, sv_jobstates := js, svr_queues := map (spoil_queue g) (svr_queues st)\<rparr>"

definition lists_of :: "(char list \<times> pbs_queue) list \<Rightarrow> nat list" where
  "lists_of qs = concat (map (\<lambda>x. jobs_in (qu_jobs (snd x))) qs)"

lemma recount_spoiled:
  assumes "\<forall>(n, q) \<in> set qs. queue_ok (sv_mem st) (states st) alls n q"
    and "\<forall>p \<in> set alls. ji_state (sv_mem st p) < PBS_NUMJOBSTATE \<and> \<not> ji_being_recycled (sv_mem st p)"
    and "sv_mem st' = sv_mem st"
  shows "recount st' (map (spoil_queue g) qs) num (tallies (states st) base) =
    Some (qs, num + int (length (lists_of qs)), tallies (states st) (base @ lists_of qs))"
  using assms(1)
proof (induction qs arbitrary: num base)
  case Nil
  then show ?case by (simp add: lists_of_def)
next
  case (Cons x qs)
  obtain n q where x: "x = (n, q)" by (metis prod.exhaust)
  let ?ps = "jobs_in (qu_jobs q)"
  have q: "queue_ok (sv_mem st) (states st) alls n q" using Cons.prems x by simp
  then have w: "walk_all False (qu_jobs q) = Some ?ps"
    unfolding queue_ok_def list_ok_def by (metis (no_types, lifting) holds_walk jobs_in_holds)
  have p: "\<forall>p \<in> set ?ps. p \<in> set alls" using q by (simp add: queue_ok_def)
  then have nj: "next_jobs st' ?ps = ?ps" using assms(2,3) by (auto simp: next_jobs_def filter_id_conv)
  have s: "\<forall>p \<in> set ?ps. ji_state (sv_mem st p) < PBS_NUMJOBSTATE" using p assms(2) by blast
  have c: "count_states st' ps b = count_states st ps b" for ps b using assms(3) by (simp add: count_states_def)
  have "count_states st ?ps (replicate PBS_NUMJOBSTATE 0) = qu_njstate q"
    unfolding tallies_Nil [of "states st", symmetric] count_states_tallies [OF s] using q by (simp add: queue_ok_def)
  moreover have "int (length ?ps) = qu_numjobs q" using q by (simp add: queue_ok_def)
  moreover have "recount st' (map (spoil_queue g) qs) (num + int (length ?ps)) (tallies (states st) (base @ ?ps)) =
    Some (qs, num + int (length ?ps) + int (length (lists_of qs)), tallies (states st) ((base @ ?ps) @ lists_of qs))"
    by (rule Cons.IH) (use Cons.prems in auto)
  moreover have "spoil_queue g x = (n, q\<lparr>qu_numjobs := fst (g n), qu_njstate := snd (g n)\<rparr>)"
    by (simp add: spoil_queue_def x)
  moreover have "lists_of (x # qs) = ?ps @ lists_of qs" by (simp add: lists_of_def x)
  ultimately show ?case
    by (simp add: x w nj c count_states_tallies [OF s] Let_def)
qed

lemma distinct_lists_of:
  assumes "distinct (map fst qs)" and "\<forall>(n, q) \<in> set qs. queue_ok mem ss alls n q"
  shows "distinct (lists_of qs)"
  using assms
proof (induction qs)
  case Nil
  then show ?case by (simp add: lists_of_def)
next
  case (Cons x qs)
  obtain n q where x: "x = (n, q)" by (metis prod.exhaust)
  have q: "queue_ok mem ss alls n q" using Cons.prems x by simp
  have "distinct (jobs_in (qu_jobs q))" using q list_ok_distinct unfolding queue_ok_def by blast
  moreover have "distinct (lists_of qs)" by (rule Cons.IH) (use Cons.prems in auto)
  moreover have "p \<notin> set (lists_of qs)" if p: "p \<in> set (jobs_in (qu_jobs q))" for p
  proof
    assume "p \<in> set (lists_of qs)"
    then obtain m r where r: "(m, r) \<in> set qs" "p \<in> set (jobs_in (qu_jobs r))" by (auto simp: lists_of_def)
    then have "queue_ok mem ss alls m r" using Cons.prems(2) by auto
    then have "m = n" using queue_ok_mem [OF q p] queue_ok_mem [OF _ r(2)] by force
    then show False using r(1) Cons.prems(1) x by (force simp: image_iff)
  qed
  ultimately show ?case by (auto simp: lists_of_def x)
qed

lemma set_lists_of:
  assumes "svr_inv ss qs st" and "\<forall>p \<in> set (jobs_in (alljobs st)). ji_qhdr (sv_mem st p) \<noteq> None"
  shows "set (lists_of (svr_queues st)) = set (jobs_in (alljobs st))"
proof
  show "set (lists_of (svr_queues st)) \<subseteq> set (jobs_in (alljobs st))"
    using svr_inv_queues [OF assms(1)] queue_ok_mem by (force simp: lists_of_def)
  show "set (jobs_in (alljobs st)) \<subseteq> set (lists_of (svr_queues st))"
  proof
    fix p
    assume p: "p \<in> set (jobs_in (alljobs st))"
    then obtain n where "ji_qhdr (sv_mem st p) = Some n" using assms(2) by blast
    then obtain q where q: "map_of (svr_queues st) n = Some q" "p \<in> set (jobs_in (qu_jobs q))"
      using p assms(1) unfolding svr_inv_def by blast
    show "p \<in> set (lists_of (svr_queues st))"
      using map_of_SomeD [OF q(1)] q(2) by (force simp: lists_of_def)
  qed
qed



end
