(* ===== verification/Job_Deque.thy ===== *)
theory Job_Deque
  imports Job_Recount
begin

text \<open>
  Leaving a queue: \<open>svr_dequejob\<close> takes the job off the list of its queue and off the list of all jobs, and
  the counts follow.
\<close>

declare map_of_eq_Some_iff [simp del] Some_eq_map_of_iff [simp del]

lemma list_remove_named:
  assumes "distinct (map fst (named mem ps))" and "p \<in> set ps"
  shows "list_remove (ji_jobid (mem p)) (named mem ps) = named mem (remove1 p ps)"
  using assms
proof (induction ps)
  case (Cons x ps)
  show ?case
  proof (cases "x = p")
    case True
    then have "ji_jobid (mem p) \<notin> keys (named mem ps)" using Cons.prems(1) by (auto simp: comp_def)
    then show ?thesis using True list_absent(2) [of "ji_jobid (mem p)" "named mem ps"] by (simp add: list_remove_def)
  next
    case False
    then have "ji_jobid (mem x) \<noteq> ji_jobid (mem p)" using Cons.prems by (auto simp: comp_def)
    then show ?thesis using False Cons by (simp add: list_remove_def)
  qed
qed simp

lemma remove_job_effect:
  assumes "list_ok ap mem c" and "p \<in> set (jobs_in c)" and "ji_jobid (sv_mem st p) = ji_jobid (mem p)"
  obtains c' where "remove_job st p c = (PBSE_NONE, c')" "list_ok ap mem c'" "jobs_in c' = remove1 p (jobs_in c)"
proof -
  obtain ok c' where e: "cremove (ji_jobid (mem p)) c = (ok, c')" by (metis prod.exhaust)
  have h: "holds ap c (named mem (jobs_in c))" using assms(1) by (simp add: list_ok_def)
  note r = holds_remove [OF h e]
  have "ji_jobid (mem p) \<in> keys (named mem (jobs_in c))" using assms(2) by force
  then have "ok" using r by blast
  moreover have h': "holds ap c' (named mem (remove1 p (jobs_in c)))"
    using r list_remove_named [OF holds_distinct [OF h] assms(2)] by simp
  moreover have j: "jobs_in c' = remove1 p (jobs_in c)" using jobs_in_holds [OF h'] by (simp add: comp_def)
  ultimately show ?thesis using that [of c'] e assms(3) by (simp add: remove_job_def list_ok_def)
qed

lemma tally_ge_0 [simp]: "0 \<le> tally f ps s"
  by (simp add: tally_def)

lemma sorted_map_remove1: "sorted (map f ps) \<Longrightarrow> sorted (map f (remove1 p ps))"
  by (induction ps) (auto dest: notin_set_remove1)

lemma int_length_remove1: "p \<in> set ps \<Longrightarrow> int (length (remove1 p ps)) = int (length ps) - 1"
  by (induction ps) auto

lemma tallies_remove1: "f p < PBS_NUMJOBSTATE \<Longrightarrow> p \<in> set ps \<Longrightarrow> add_at (f p) (- 1) (tallies f ps) = tallies f (remove1 p ps)"
  by (rule tallies_less) (simp_all add: tally_remove1)

lemma queue_ok_leave:
  assumes "queue_ok mem qs alls n q" and "p \<in> set (jobs_in (qu_jobs q))" and "qs p < PBS_NUMJOBSTATE"
    and "list_ok False mem (qu_jobs q')" and "jobs_in (qu_jobs q') = remove1 p (jobs_in (qu_jobs q))"
    and "qu_numjobs q' = qu_numjobs q - 1" and "qu_njstate q' = add_at (qs p) (- 1) (qu_njstate q)"
  shows "queue_ok mem qs alls n q'"
proof -
  have "qu_numjobs q' = int (length (jobs_in (qu_jobs q')))"
    unfolding assms(5,6) int_length_remove1 [OF assms(2)] using assms(1) by (simp add: queue_ok_def)
  moreover have "qu_njstate q' = tallies qs (jobs_in (qu_jobs q'))"
    unfolding assms(5,7) using assms(1) tallies_remove1 [of qs, OF assms(3,2)] by (simp add: queue_ok_def)
  moreover have "sorted (map (\<lambda>x. atr_qrank (mem x)) (jobs_in (qu_jobs q')))"
    unfolding assms(5) by (rule sorted_map_remove1) (use assms(1) in \<open>simp add: queue_ok_def\<close>)
  moreover have "x \<in> set alls \<and> ji_qhdr (mem x) = Some n" if "x \<in> set (jobs_in (qu_jobs q'))" for x
    using queue_ok_mem [OF assms(1)] that assms(5) by (metis notin_set_remove1)
  ultimately show ?thesis using assms(4) unfolding queue_ok_def by blast
qed

lemma queue_ok_unlinked:
  assumes "queue_ok mem qs alls m q" and "p \<notin> set (jobs_in (qu_jobs q))"
  shows "queue_ok (mem(p := (mem p)\<lparr>ji_qhdr := h\<rparr>)) qs alls m q"
proof -
  let ?mem = "mem(p := (mem p)\<lparr>ji_qhdr := h\<rparr>)"
  have m: "ji_jobid (?mem x) = ji_jobid (mem x)" "atr_qrank (?mem x) = atr_qrank (mem x)" for x by simp_all
  have "ji_qhdr (?mem x) = ji_qhdr (mem x)" if "x \<in> set (jobs_in (qu_jobs q))" for x using that assms(2) by auto
  then show ?thesis using assms(1) by (simp add: queue_ok_def list_ok_def m del: fun_upd_apply)
qed

lemma svr_inv_leave:
  assumes "svr_inv ss qs st" and "map_of (svr_queues st) n = Some q" and "p \<in> set (jobs_in (qu_jobs q))"
    and "list_ok False (sv_mem st) (qu_jobs (f q))" and "jobs_in (qu_jobs (f q)) = remove1 p (jobs_in (qu_jobs q))"
    and "qu_numjobs (f q) = qu_numjobs q - 1" and "qu_njstate (f q) = add_at (qs p) (- 1) (qu_njstate q)"
  shows "svr_inv ss qs (upd_job p (\<lambda>j. j\<lparr>ji_qhdr := None\<rparr>) (upd_queue n f st))"
proof -
  let ?mem = "(sv_mem st)(p := (sv_mem st p)\<lparr>ji_qhdr := None\<rparr>)" and ?alls = "jobs_in (alljobs st)"
  have Q: "queue_ok (sv_mem st) qs ?alls m r" if "map_of (svr_queues st) m = Some r" for m r
    using assms(1) that unfolding svr_inv_def by blast
  have J: "qs p < PBS_NUMJOBSTATE" using assms(1) queue_ok_mem [OF Q [OF assms(2)] assms(3)] unfolding svr_inv_def by blast
  have d: "distinct (jobs_in (qu_jobs q))" using Q [OF assms(2)] list_ok_distinct by (auto simp: queue_ok_def)
  have new: "queue_ok (sv_mem st) qs ?alls n (f q)" by (rule queue_ok_leave [OF Q [OF assms(2)] assms(3) J assms(4-7)])
  have old: "p \<notin> set (jobs_in (qu_jobs r))" if "map_of (svr_queues st) m = Some r" "m \<noteq> n" for m r
    using queue_ok_mem [OF Q [OF that(1)], of p] queue_ok_mem [OF Q [OF assms(2)] assms(3)] that(2) by auto
  let ?st' = "upd_job p (\<lambda>j. j\<lparr>ji_qhdr := None\<rparr>) (upd_queue n f st)"
  have mem: "sv_mem ?st' = ?mem" by (simp add: upd_job_def upd_queue_def)
  have mo: "map_of (svr_queues ?st') m = (if m = n then Some (f q) else map_of (svr_queues st) m)" for m
    by (simp add: upd_job_def upd_queue_def map_of_upd_named assms(2))
  have same: "alljobs ?st' = alljobs st" "sv_numjobs ?st' = sv_numjobs st" "sv_jobstates ?st' = sv_jobstates st"
    "map fst (svr_queues ?st') = map fst (svr_queues st)" by (simp_all add: upd_job_def upd_queue_def)
  have q': "queue_ok ?mem qs ?alls m r" if "map_of (svr_queues ?st') m = Some r" for m r
  proof (cases "m = n")
    case True
    have "p \<notin> set (jobs_in (qu_jobs (f q)))" unfolding assms(5) using d by simp
    then show ?thesis using queue_ok_unlinked [OF new] True that unfolding mo by simp
  next
    case False
    then show ?thesis using that queue_ok_unlinked [OF Q old] unfolding mo by simp
  qed
  have l: "list_ok True ?mem (alljobs st)"
  proof -
    have "ji_jobid (?mem x) = ji_jobid (sv_mem st x)" for x by simp
    then show ?thesis using assms(1) by (simp add: svr_inv_def list_ok_def del: fun_upd_apply)
  qed
  have j: "\<exists>r. map_of (svr_queues ?st') m = Some r \<and> x \<in> set (jobs_in (qu_jobs r))"
    if "x \<in> set ?alls" "ji_qhdr (?mem x) = Some m" for x m
  proof -
    have x: "x \<noteq> p" "ji_qhdr (sv_mem st x) = Some m" "x \<in> set ?alls" using that by (auto split: if_splits)
    then obtain r where r: "map_of (svr_queues st) m = Some r" "x \<in> set (jobs_in (qu_jobs r))"
      using assms(1) unfolding svr_inv_def by blast
    show ?thesis
    proof (cases "m = n")
      case True
      then have "r = q" using r(1) assms(2) by simp
      then show ?thesis using True r(2) x(1) unfolding mo by (simp add: assms(5))
    next
      case False
      then show ?thesis using r unfolding mo by simp
    qed
  qed
  have t: "\<not> ji_is_array_template (?mem x)" if "x \<in> set ?alls" for x
    using assms(1) that unfolding svr_inv_def by (cases "x = p") auto
  have b: "\<forall>x \<in> set ?alls. ss x < PBS_NUMJOBSTATE \<and> qs x < PBS_NUMJOBSTATE" using assms(1) by (simp add: svr_inv_def)
  have c: "sv_numjobs st = int (length ?alls) \<and> sv_jobstates st = tallies ss ?alls \<and> distinct (map fst (svr_queues st))"
    using assms(1) by (simp add: svr_inv_def)
  show ?thesis unfolding svr_inv_def mem same using l c q' t b j by blast
qed

lemma svr_inv_gone:
  assumes "svr_inv ss qs st" and "p \<in> set (jobs_in (alljobs st))" and "ji_qhdr (sv_mem st p) = None"
    and "list_ok True (sv_mem st) aj" and "jobs_in aj = remove1 p (jobs_in (alljobs st))"
  shows "svr_inv ss qs (st\<lparr>alljobs := aj, sv_numjobs := sv_numjobs st - 1, sv_jobstates := add_at (ss p) (- 1) (sv_jobstates st)\<rparr>)"
proof -
  let ?alls = "jobs_in (alljobs st)" and ?alls' = "jobs_in aj"
  have b: "ss p < PBS_NUMJOBSTATE" using assms(1,2) by (simp add: svr_inv_def)
  have sub: "x \<in> set ?alls" if "x \<in> set ?alls'" for x using that unfolding assms(5) by (metis notin_set_remove1)
  have kept: "x \<in> set ?alls'" if "x \<in> set ?alls" "x \<noteq> p" for x using that by (simp add: assms(5))
  have "queue_ok (sv_mem st) qs ?alls' m r" if "map_of (svr_queues st) m = Some r" for m r
  proof -
    have q: "queue_ok (sv_mem st) qs ?alls m r" using assms(1) that unfolding svr_inv_def by blast
    have "x \<in> set ?alls' \<and> ji_qhdr (sv_mem st x) = Some m" if "x \<in> set (jobs_in (qu_jobs r))" for x
      using queue_ok_mem [OF q that] kept [of x] assms(3) by (cases "x = p") auto
    then show ?thesis using q unfolding queue_ok_def by blast
  qed
  moreover have "add_at (ss p) (- 1) (sv_jobstates st) = tallies ss ?alls'"
    unfolding assms(5) using assms(1) tallies_remove1 [of ss, OF b assms(2)] by (simp add: svr_inv_def)
  moreover have "sv_numjobs st - 1 = int (length ?alls')"
    unfolding assms(5) int_length_remove1 [OF assms(2)] using assms(1) by (simp add: svr_inv_def)
  ultimately show ?thesis using assms(1,4) sub unfolding svr_inv_def by simp
qed

lemma map_of_upd_queue: "map_of (svr_queues (upd_queue n f st)) m = (if m = n then map_option f (map_of (svr_queues st) n) else map_of (svr_queues st) m)"
  by (simp add: upd_queue_def map_of_upd_named)

lemma upd_fields [simp]:
  "svr_queues (upd_job p f st) = svr_queues st" "alljobs (upd_job p f st) = alljobs st" "alljobs (upd_queue n g st) = alljobs st"
  "sv_mem (upd_queue n g st) = sv_mem st" "sv_mem (upd_job p f st) = (sv_mem st)(p := f (sv_mem st p))"
  by (simp_all add: upd_job_def upd_queue_def)

lemma upd_job_queue: "upd_job p f (upd_queue n g st) = upd_queue n g (upd_job p f st)"
  by (simp add: upd_job_def upd_queue_def)

text \<open>The users' counts: the lists stay and so does what concerns the lists.\<close>

lemma deque_users:
  assumes "svr_inv ss qs st" and "map_of (svr_queues st) n = Some q"
    and "st' = (if b then
       (let st = (if c then
                    (case decrement_queued_jobs True (users st) (sv_mem st p) of
                       (_, us, pjob) \<Rightarrow> (upd_job p (\<lambda>_. pjob) st)\<lparr>users := us\<rparr>)
                  else st)
        in case decrement_queued_jobs False (qu_uih q) (sv_mem st p) of
             (_, uih, pjob) \<Rightarrow> upd_job p (\<lambda>_. pjob) (upd_queue n (\<lambda>q. q\<lparr>qu_uih := uih\<rparr>) st))
     else st)"
  shows "svr_inv ss qs st' \<and> quiet st st' \<and> (\<exists>uih. map_of (svr_queues st') n = Some (q\<lparr>qu_uih := uih\<rparr>))"
proof (cases b)
  case False
  then show ?thesis using assms by (intro conjI exI [of _ "qu_uih q"]) simp_all
next
  case True
  let ?st1 = "if c then (case decrement_queued_jobs True (users st) (sv_mem st p) of
     (_, us, pjob) \<Rightarrow> (upd_job p (\<lambda>_. pjob) st)\<lparr>users := us\<rparr>) else st"
  obtain rc us j where d: "decrement_queued_jobs True (users st) (sv_mem st p) = (rc, us, j)" by (rule prod_cases3)
  have s: "same_job (sv_mem st p) j" by (rule decrement_same_job [OF d])
  then have sp: "same_place (sv_mem st p) j" by (simp add: same_job_def)
  have 1: "svr_inv ss qs ?st1" "quiet st ?st1" "svr_queues ?st1 = svr_queues st"
    using svr_inv_upd_job [OF assms(1), of p "\<lambda>_. j"] sp quiet_trans [OF quiet_upd_job [of st p "\<lambda>_. j"]] s assms(1) d
    by auto
  obtain rc2 uih j2 where d2: "decrement_queued_jobs False (qu_uih q) (sv_mem ?st1 p) = (rc2, uih, j2)" by (rule prod_cases3)
  have s2: "same_job (sv_mem ?st1 p) j2" by (rule decrement_same_job [OF d2])
  let ?st2 = "upd_queue n (\<lambda>q. q\<lparr>qu_uih := uih\<rparr>) ?st1"
  have e: "st' = upd_job p (\<lambda>_. j2) ?st2" unfolding assms(3) Let_def using True d2 by simp
  have "svr_inv ss qs ?st2" by (rule svr_inv_upd_queue [OF 1(1)]) simp
  then have "svr_inv ss qs st'" unfolding e by (rule svr_inv_upd_job) (use s2 in \<open>simp add: same_job_def\<close>)
  moreover have "quiet ?st2 st'" unfolding e by (rule quiet_upd_job) (use s2 in simp)
  then have "quiet st st'" using quiet_trans [OF 1(2) quiet_upd_queue] quiet_trans by blast
  moreover have "map_of (svr_queues st') n = Some (q\<lparr>qu_uih := uih\<rparr>)"
    unfolding e using 1(3) by (simp add: map_of_upd_queue assms(2))
  ultimately show ?thesis by blast
qed

lemma quiet_job: "quiet st st' \<Longrightarrow> ji_jobid (sv_mem st' x) = ji_jobid (sv_mem st x) \<and> ji_state (sv_mem st' x) = ji_state (sv_mem st x)"
  by (simp add: quiet_def same_job_def same_place_def)

lemma deque_queue_effect:
  assumes "svr_ok st" and "map_of (svr_queues st) n = Some q" and "p \<in> set (jobs_in (qu_jobs q))"
  obtains st' where "deque_queue p n st = (False, st')" "svr_ok st'" "alljobs st' = alljobs st" "ji_qhdr (sv_mem st' p) = None"
    "ji_state (sv_mem st' p) = ji_state (sv_mem st p)" "ji_jobid (sv_mem st' p) = ji_jobid (sv_mem st p)"
proof -
  have i: "svr_inv (states st) (states st) st" using assms(1) by (simp add: svr_ok_def)
  have Q: "queue_ok (sv_mem st) (states st) (jobs_in (alljobs st)) n q" using i assms(2) unfolding svr_inv_def by blast
  let ?complete = "ji_state (sv_mem st p) = JOB_STATE_COMPLETE"
  define st1 where "st1 = (if qu_type q = QTYPE_RoutePush \<or> \<not> ?complete then
       (let st = (if \<not> ?complete then
                    (case decrement_queued_jobs True (users st) (sv_mem st p) of
                       (_, us, pjob) \<Rightarrow> (upd_job p (\<lambda>_. pjob) st)\<lparr>users := us\<rparr>)
                  else st)
        in case decrement_queued_jobs False (qu_uih q) (sv_mem st p) of
             (_, uih, pjob) \<Rightarrow> upd_job p (\<lambda>_. pjob) (upd_queue n (\<lambda>q. q\<lparr>qu_uih := uih\<rparr>) st))
     else st)"
  obtain uih where u: "svr_inv (states st) (states st) st1" "quiet st st1" "map_of (svr_queues st1) n = Some (q\<lparr>qu_uih := uih\<rparr>)"
    using deque_users [OF i assms(2) st1_def] by blast
  have Q1: "queue_ok (sv_mem st1) (states st) (jobs_in (alljobs st1)) n (q\<lparr>qu_uih := uih\<rparr>)"
    using u(1,3) unfolding svr_inv_def by blast
  then have l: "list_ok False (sv_mem st1) (qu_jobs q)" by (simp add: queue_ok_def)
  obtain aj where r: "remove_job st1 p (qu_jobs q) = (PBSE_NONE, aj)" "list_ok False (sv_mem st1) aj"
    "jobs_in aj = remove1 p (jobs_in (qu_jobs q))" by (rule remove_job_effect [OF l assms(3), of st1]) simp
  have js: "ji_state (sv_mem st1 p) = ji_state (sv_mem st p)" "ji_jobid (sv_mem st1 p) = ji_jobid (sv_mem st p)" using quiet_job [OF u(2)] by blast+
  let ?num = "qu_numjobs q - 1" and ?nj = "add_at (ji_state (sv_mem st p)) (- 1) (qu_njstate q)"
  let ?f = "\<lambda>q. q\<lparr>qu_jobs := aj, qu_numjobs := ?num, qu_njstate := ?nj\<rparr>"
  let ?st2 = "upd_queue n ?f st1"
  let ?g = "\<lambda>q. q\<lparr>qu_jobs_array_sum := snd (remove_job ?st2 p (qu_jobs_array_sum q))\<rparr>"
  let ?h = "\<lambda>j. j\<lparr>ji_qhdr := None\<rparr> :: svr_job"
  let ?st' = "upd_queue n ?g (upd_job p ?h ?st2)"
  have lt: "ji_state (sv_mem st p) < PBS_NUMJOBSTATE" using i queue_ok_mem [OF Q assms(3)] unfolding svr_inv_def by blast
  have nj: "?nj = tallies (states st) (remove1 p (jobs_in (qu_jobs q)))"
    using Q tallies_remove1 [of "states st", OF lt assms(3)] by (simp add: queue_ok_def)
  have "?nj ! ji_state (sv_mem st p) = tally (states st) (remove1 p (jobs_in (qu_jobs q))) (ji_state (sv_mem st p))"
    unfolding nj using lt by simp
  then have "\<not> ?nj ! ji_state (sv_mem st p) < 0" using tally_ge_0 by (metis not_le)
  moreover have "\<not> ?num < 0" using Q length_pos_if_in_set [OF assms(3)] by (simp add: queue_ok_def)
  ultimately have e: "deque_queue p n st = (False, ?st')"
    unfolding deque_queue_def assms(2) option.case st1_def [symmetric] Let_def [of ?complete] Let_def [of st1]
    by (simp add: r(1) js Let_def upd_job_queue [symmetric])
  have "svr_inv (states st) (states st) (upd_job p ?h ?st2)"
    by (rule svr_inv_leave [OF u(1,3)]) (use assms(3) r in simp_all)
  then have "svr_inv (states st) (states st) ?st'" by (rule svr_inv_upd_queue) simp
  moreover have "states ?st' = states st1" by auto
  then have "states ?st' = states st" using quiet_states [OF u(2)] by simp
  ultimately have "svr_ok ?st'" by (simp add: svr_ok_def)
  moreover have "alljobs ?st' = alljobs st" using u(2) by (simp add: quiet_def)
  ultimately show ?thesis using that [OF e] js by simp
qed

lemma deque_alljobs_effect:
  assumes "svr_ok st" and "p \<in> set (jobs_in (alljobs st))" and "ji_qhdr (sv_mem st p) = None"
  obtains st' where "deque_alljobs p st = (False, st')" "svr_ok st'" "jobs_in (alljobs st') = remove1 p (jobs_in (alljobs st))"
    "svr_queues st' = svr_queues st"
proof -
  have i: "svr_inv (states st) (states st) st" using assms(1) by (simp add: svr_ok_def)
  then have l: "list_ok True (sv_mem st) (alljobs st)" unfolding svr_inv_def by blast
  obtain aj where r: "remove_job st p (alljobs st) = (PBSE_NONE, aj)" "list_ok True (sv_mem st) aj"
    "jobs_in aj = remove1 p (jobs_in (alljobs st))" by (rule remove_job_effect [OF l assms(2), of st]) simp
  let ?s = "ji_state (sv_mem st p)"
  let ?st' = "st\<lparr>alljobs := aj, sv_numjobs := sv_numjobs st - 1, sv_jobstates := add_at ?s (- 1) (sv_jobstates st)\<rparr>"
  have i': "svr_inv (states st) (states st) ?st'" by (rule svr_inv_gone [OF i assms(2,3) r(2,3)])
  have t: "\<not> ji_is_array_template (sv_mem st p)" and lt: "?s < PBS_NUMJOBSTATE" using i assms(2) unfolding svr_inv_def by blast+
  have c: "sv_numjobs ?st' = int (length (jobs_in aj))" "sv_jobstates ?st' = tallies (states st) (jobs_in aj)"
    using i' by (simp_all add: svr_inv_def)
  have "sv_jobstates ?st' ! ?s = tally (states st) (jobs_in aj) ?s" unfolding c(2) using lt by simp
  then have "\<not> sv_jobstates ?st' ! ?s < 0" "\<not> sv_numjobs ?st' < 0" using tally_ge_0 c(1) by (metis not_le, simp)
  then have "deque_alljobs p st = (False, ?st')" using t by (simp add: deque_alljobs_def r(1) Let_def)
  moreover have "svr_ok ?st'" using i' by (simp add: svr_ok_def)
  ultimately show ?thesis using that [of ?st'] r(3) by simp
qed

text \<open>
  C7: leaving the queue.  A job that is in a queue and does not run is taken off the list of its queue
  and off the list of all jobs, which keep their other jobs in order; the counts are again the numbers
  of jobs, so that no recount is needed.
\<close>

theorem dequejob_keeps_counts:
  assumes "svr_ok st" and "p \<in> set (jobs_in (alljobs st))" and "ji_qhdr (sv_mem st p) = Some n"
    and "ji_state (sv_mem st p) \<noteq> JOB_STATE_RUNNING"
  shows "\<exists>st'. svr_dequejob p held st = Some (PBSE_NONE, st') \<and> svr_ok st' \<and>
    jobs_in (alljobs st') = remove1 p (jobs_in (alljobs st)) \<and>
    (\<forall>m q. map_of (svr_queues st') m = Some q \<longrightarrow> p \<notin> set (jobs_in (qu_jobs q)))"
proof -
  have i: "svr_inv (states st) (states st) st" using assms(1) by (simp add: svr_ok_def)
  obtain q where q: "map_of (svr_queues st) n = Some q" "p \<in> set (jobs_in (qu_jobs q))"
    using i assms(2,3) unfolding svr_inv_def by blast
  obtain st1 where d: "deque_queue p n st = (False, st1)" "svr_ok st1" "alljobs st1 = alljobs st" "ji_qhdr (sv_mem st1 p) = None"
    "ji_state (sv_mem st1 p) = ji_state (sv_mem st p)" by (rule deque_queue_effect [OF assms(1) q])
  let ?st2 = "upd_job p (\<lambda>j. j\<lparr>atr_qtime := None\<rparr>) st1"
  have s2: "states ?st2 = states st1" by auto
  have i2: "svr_inv (states ?st2) (states ?st2) ?st2"
    unfolding s2 by (rule svr_inv_upd_job) (use d(2) in \<open>simp_all add: svr_ok_def same_place_def\<close>)
  have a2: "p \<in> set (jobs_in (alljobs ?st2))" "ji_qhdr (sv_mem ?st2 p) = None" using assms(2) d by simp_all
  have o2: "svr_ok ?st2" using i2 by (simp add: svr_ok_def)
  obtain st3 where e3: "deque_alljobs p ?st2 = (False, st3)" "svr_ok st3" "jobs_in (alljobs st3) = remove1 p (jobs_in (alljobs ?st2))"
    "svr_queues st3 = svr_queues ?st2" by (rule deque_alljobs_effect [OF o2 a2])
  let ?st' = "st3\<lparr>svr_do_schedule := SCH_SCHEDULE_TERM\<rparr>"
  have "svr_dequejob p held st = Some (PBSE_NONE, ?st')"
    unfolding svr_dequejob_def Let_def using assms(3,4) d(1) e3(1) by simp
  moreover have "svr_ok ?st'" using e3(2) by (simp add: svr_ok_def)
  moreover have "jobs_in (alljobs ?st') = remove1 p (jobs_in (alljobs st))" using e3(3) d(3) by simp
  moreover have "p \<notin> set (jobs_in (qu_jobs q'))" if "map_of (svr_queues ?st') m = Some q'" for m q'
  proof
    assume "p \<in> set (jobs_in (qu_jobs q'))"
    moreover have "map_of (svr_queues ?st2) m = Some q'" using that e3(4) by simp
    then have "queue_ok (sv_mem ?st2) (states ?st2) (jobs_in (alljobs ?st2)) m q'" using i2 unfolding svr_inv_def by blast
    ultimately show False using queue_ok_mem a2(2) by force
  qed
  ultimately show ?thesis by blast
qed

theorem dequejob_keeps_counts_witness:
  "\<exists>st'. svr_dequejob 1 False demo_svr = Some (PBSE_NONE, st') \<and> svr_ok st' \<and> jobs_in (alljobs st') = [] \<and>
     (\<forall>m q. map_of (svr_queues st') m = Some q \<longrightarrow> 1 \<notin> set (jobs_in (qu_jobs q)))"
  using dequejob_keeps_counts [OF demo_ok, of 1 "''batch''" False] by simp

end
