(* ===== verification/Job_Enque.thy ===== *)
theory Job_Enque
  imports Job_Deque
begin

text \<open>
  Entering a queue: \<open>insert_into_alljobs_by_rank\<close> keeps the list of a queue sorted by rank, and
  \<open>svr_enquejob\<close> adds the job to the lists and to the counts.
\<close>

declare map_of_eq_Some_iff [simp del] Some_eq_map_of_iff [simp del]

section \<open>The place by rank\<close>

lemma insort_key_snoc:
  "f p \<le> f x \<Longrightarrow> insort_key f p (ps @ [x]) = insort_key f p ps @ [x]"
  "\<forall>y \<in> set ps. f y < f p \<Longrightarrow> insort_key f p ps = ps @ [p]"
  by (induction ps) auto

lemma list_after_append: "loc \<in> keys L \<Longrightarrow> list_after loc t (L @ M) = list_after loc t L @ M"
  by (induction L) auto

abbreviation rank_of :: "(nat \<Rightarrow> svr_job) \<Rightarrow> nat \<Rightarrow> int" where
  "rank_of mem p \<equiv> atr_qrank (mem p)"

text \<open>The backward search finds the place where insertion into a sorted list puts the job.\<close>

lemma rank_scan_insort:
  assumes "sorted (map (rank_of mem) ps)" and "\<forall>x \<in> set ps. ji_jobid (mem x) \<noteq> ji_jobid (mem p)"
    and "distinct (map fst (named mem ps))"
  shows "(rank_scan mem (rank_of mem p) (ji_jobid (mem p)) (rev ps) = Front \<and> insort_key (rank_of mem) p ps = p # ps) \<or>
    (\<exists>cur \<in> set ps. rank_scan mem (rank_of mem p) (ji_jobid (mem p)) (rev ps) = Behind cur \<and>
      list_after (ji_jobid (mem cur)) (ji_jobid (mem p), p) (named mem ps) = named mem (insort_key (rank_of mem) p ps))"
  using assms
proof (induction ps rule: rev_induct)
  case (snoc x ps)
  show ?case
  proof (cases "rank_of mem p > rank_of mem x")
    case True
    have "\<forall>y \<in> set (ps @ [x]). rank_of mem y < rank_of mem p" using snoc.prems(1) True by (auto simp: sorted_append)
    then have "insort_key (rank_of mem) p (ps @ [x]) = (ps @ [x]) @ [p]" by (rule insort_key_snoc(2))
    moreover have "ji_jobid (mem x) \<notin> keys (named mem ps)" using snoc.prems(3) by (auto simp: comp_def)
    ultimately have "list_after (ji_jobid (mem x)) (ji_jobid (mem p), p) (named mem (ps @ [x])) =
        named mem (insort_key (rank_of mem) p (ps @ [x]))"
      using list_ops_at(1) [of "ji_jobid (mem x)" "named mem ps" "(ji_jobid (mem p), p)" x "[]"] by simp
    then show ?thesis using True by simp
  next
    case False
    have s: "rank_scan mem (rank_of mem p) (ji_jobid (mem p)) (rev (ps @ [x])) =
        rank_scan mem (rank_of mem p) (ji_jobid (mem p)) (rev ps)"
      using False snoc.prems(2) by auto
    have k: "insort_key (rank_of mem) p (ps @ [x]) = insort_key (rank_of mem) p ps @ [x]"
      using False by (simp add: insort_key_snoc(1))
    have "sorted (map (rank_of mem) ps)" "\<forall>x \<in> set ps. ji_jobid (mem x) \<noteq> ji_jobid (mem p)" "distinct (map fst (named mem ps))"
      using snoc.prems by (auto simp: sorted_append)
    from snoc.IH [OF this] show ?thesis
    proof (elim disjE bexE conjE)
      assume "rank_scan mem (rank_of mem p) (ji_jobid (mem p)) (rev ps) = Front" "insort_key (rank_of mem) p ps = p # ps"
      then show ?thesis unfolding s k by simp
    next
      fix cur
      assume c: "cur \<in> set ps" "rank_scan mem (rank_of mem p) (ji_jobid (mem p)) (rev ps) = Behind cur"
        "list_after (ji_jobid (mem cur)) (ji_jobid (mem p), p) (named mem ps) = named mem (insort_key (rank_of mem) p ps)"
      have "ji_jobid (mem cur) \<in> keys (named mem ps)" using c(1) by force
      then have "list_after (ji_jobid (mem cur)) (ji_jobid (mem p), p) (named mem (ps @ [x])) =
          named mem (insort_key (rank_of mem) p (ps @ [x]))"
        using c(3) by (simp add: list_after_append k)
      then show ?thesis unfolding s using c(1,2) by auto
    qed
  qed
qed simp

lemma map_insort_named: "map snd (named mem ps) = ps"
  by (simp add: comp_def)

text \<open>The insertion by rank, when the list is sorted, the job is not in it and there is memory.\<close>

lemma by_rank_effect:
  assumes "list_ok False (sv_mem st) aj" and "sorted (map (rank_of (sv_mem st)) (jobs_in aj))"
    and "\<forall>x \<in> set (jobs_in aj). ji_jobid (sv_mem st x) \<noteq> ji_jobid (sv_mem st p) \<and> ji_jobid (sv_mem st x) \<noteq> []"
    and "svr_find_job st (ji_jobid (sv_mem st p)) False = Some p" and "\<And>n. heap_has env n"
  obtains aj' where "insert_into_alljobs_by_rank env st p (ji_jobid (sv_mem st p)) aj = Some (PBSE_NONE, aj')"
    "list_ok False (sv_mem st) aj'" "jobs_in aj' = insort_key (rank_of (sv_mem st)) p (jobs_in aj)"
proof -
  note goal = that
  let ?mem = "sv_mem st" and ?ps = "jobs_in aj"
  let ?id = "ji_jobid (?mem p)" and ?new = "insort_key (rank_of (sv_mem st)) p (jobs_in aj)"
  have h: "holds False aj (named ?mem ?ps)" using assms(1) by (simp add: list_ok_def)
  have w: "walk_all True aj = Some (rev ?ps)" using holds_back [OF h] by (simp add: comp_def)
  have k: "?id \<notin> keys (named ?mem ?ps)" using assms(3) by force
  have ids: "\<forall>x \<in> set ?ps. ji_jobid (?mem x) \<noteq> ?id" using assms(3) by blast
  have fin: thesis if "insert_into_alljobs_by_rank env st p ?id aj = Some (PBSE_NONE, aj')" "holds False aj' (named ?mem ?new)" for aj'
  proof -
    have "jobs_in aj' = ?new" using jobs_in_holds [OF that(2)] by (simp add: comp_def)
    then show thesis using goal [of aj'] that by (simp add: list_ok_def)
  qed
  from rank_scan_insort [OF assms(2) ids holds_distinct [OF h]] show thesis
  proof (elim disjE bexE conjE)
    assume f: "rank_scan ?mem (rank_of ?mem p) ?id (rev ?ps) = Front" "?new = p # ?ps"
    obtain ok aj' where e: "insert_first (heap_has env) p ?id aj = (ok, aj')" by (metis prod.exhaust)
    have "ok \<and> holds False aj' ((?id, p) # named ?mem ?ps)"
      using holds_first [OF h _ k e] assms(5) by (auto simp: room_def)
    then have "holds False aj' (named ?mem ?new)" unfolding f(2) by simp
    moreover have "insert_into_alljobs_by_rank env st p ?id aj = Some (PBSE_NONE, aj')"
      by (simp add: insert_into_alljobs_by_rank_def by_rank_search_def w f(1) by_rank_link_def assms(4) e)
    ultimately show thesis using fin by blast
  next
    fix cur
    assume c: "cur \<in> set ?ps" "rank_scan ?mem (rank_of ?mem p) ?id (rev ?ps) = Behind cur"
      "list_after (ji_jobid (?mem cur)) (?id, p) (named ?mem ?ps) = named ?mem ?new"
    obtain ok aj' where e: "insert_after (heap_has env) (ji_jobid (?mem cur)) p ?id aj = (ok, aj')" by (metis prod.exhaust)
    have m: "ji_jobid (?mem cur) \<in> keys (named ?mem ?ps)" using c(1) by force
    then have f: "cfind (ji_jobid (?mem cur)) aj \<noteq> None" unfolding holds_find [OF h] by (metis map_of_eq_None_iff)
    have ne: "ji_jobid (?mem cur) \<noteq> []" using assms(3) c(1) by blast
    have "ok" "holds False aj' (named ?mem ?new)"
      using holds_after [OF h k e] m assms(5) c(3) by (auto simp: room_def)
    moreover have "insert_into_alljobs_by_rank env st p ?id aj = Some (PBSE_NONE, aj')"
      using f ne by (simp add: insert_into_alljobs_by_rank_def by_rank_search_def w c(2) by_rank_link_def assms(4) e)
    ultimately show thesis using fin by blast
  qed
qed

section \<open>Joining the lists\<close>

lemma insert_alljobs_effect:
  assumes "list_ok True mem c" and "\<forall>x \<in> set (jobs_in c). ji_jobid (mem x) \<noteq> ji_jobid (mem p)" and "\<And>n. heap n"
  obtains c' where "cinsert heap p (ji_jobid (mem p)) False c = (True, c')" "list_ok True mem c'" "jobs_in c' = jobs_in c @ [p]"
proof -
  obtain ok c' where e: "cinsert heap p (ji_jobid (mem p)) False c = (ok, c')" by (metis prod.exhaust)
  have h: "holds True c (named mem (jobs_in c))" using assms(1) by (simp add: list_ok_def)
  have "ji_jobid (mem p) \<notin> keys (named mem (jobs_in c))" using assms(2) by force
  then have "ok" "holds True c' (named mem (jobs_in c @ [p]))" using holds_append [OF h e] assms(3) by (auto simp: room_def)
  moreover from this(2) have "jobs_in c' = jobs_in c @ [p]" using jobs_in_holds by (fastforce simp: comp_def)
  ultimately show ?thesis using that [of c'] e by (simp add: list_ok_def)
qed

lemma svr_inv_join:
  assumes "svr_inv ss qs st" and "ji_qhdr (sv_mem st p) = None" and "\<not> ji_is_array_template (sv_mem st p)"
    and "ss p < PBS_NUMJOBSTATE" and "qs p < PBS_NUMJOBSTATE"
    and "list_ok True (sv_mem st) aj" and "jobs_in aj = jobs_in (alljobs st) @ [p]"
  shows "svr_inv ss qs (st\<lparr>alljobs := aj, sv_numjobs := sv_numjobs st + 1, sv_jobstates := add_at (ss p) 1 (sv_jobstates st)\<rparr>)"
proof -
  let ?alls = "jobs_in (alljobs st)"
  have "queue_ok (sv_mem st) qs (?alls @ [p]) m r" if "map_of (svr_queues st) m = Some r" for m r
  proof -
    have "queue_ok (sv_mem st) qs ?alls m r" using assms(1) that unfolding svr_inv_def by blast
    then show ?thesis unfolding queue_ok_def by auto
  qed
  moreover have "add_at (ss p) 1 (sv_jobstates st) = tallies ss (?alls @ [p])"
    using assms(1) tallies_more [of ss p "?alls @ [p]" ?alls, OF assms(4)] by (simp add: svr_inv_def tally_append tally_Cons tally_def)
  ultimately show ?thesis using assms unfolding svr_inv_def by auto
qed

lemma tally_insort: "tally g (insort_key f p xs) s = tally g xs s + (if g p = s then 1 else 0)"
  by (induction xs) (auto simp: tally_Cons)

lemma queue_ok_join:
  assumes "queue_ok mem qs alls n q" and "p \<in> set alls" and "qs p < PBS_NUMJOBSTATE"
    and "list_ok False mem (qu_jobs q')" and "jobs_in (qu_jobs q') = insort_key (rank_of mem) p (jobs_in (qu_jobs q))"
    and "qu_numjobs q' = qu_numjobs q + 1" and "qu_njstate q' = add_at (qs p) 1 (qu_njstate q)"
    and "p \<notin> set (jobs_in (qu_jobs q))"
  shows "queue_ok (mem(p := (mem p)\<lparr>ji_qhdr := Some n\<rparr>)) qs alls n q'"
proof -
  let ?mem = "mem(p := (mem p)\<lparr>ji_qhdr := Some n\<rparr>)" and ?ps = "jobs_in (qu_jobs q)" and ?new = "jobs_in (qu_jobs q')"
  have m: "ji_jobid (?mem x) = ji_jobid (mem x)" "rank_of ?mem x = rank_of mem x" for x by simp_all
  have s: "set ?new = insert p (set ?ps)" unfolding assms(5) by (rule set_insort_key)
  have "add_at (qs p) 1 (tallies qs ?ps) = tallies qs ?new"
    unfolding assms(5) by (rule tallies_more) (use assms(3) in \<open>simp_all add: tally_insort\<close>)
  then have "qu_njstate q' = tallies qs ?new" unfolding assms(7) using assms(1) by (simp add: queue_ok_def)
  moreover have "qu_numjobs q' = int (length ?new)" unfolding assms(5,6) using assms(1) by (simp add: queue_ok_def)
  moreover have "sorted (map (rank_of mem) ?new)" unfolding assms(5) using assms(1) by (simp add: queue_ok_def sorted_insort_key)
  moreover have "x \<in> set alls \<and> ji_qhdr (?mem x) = Some n" if "x \<in> set ?new" for x
    using that queue_ok_mem [OF assms(1), of x] assms(2) unfolding s by auto
  ultimately show ?thesis using assms(4) unfolding queue_ok_def list_ok_def m by blast
qed

lemma svr_inv_enter:
  assumes "svr_inv ss qs st" and "map_of (svr_queues st) n = Some q" and "p \<in> set (jobs_in (alljobs st))" and "ji_qhdr (sv_mem st p) = None"
    and "list_ok False (sv_mem st) (qu_jobs (f q))" and "jobs_in (qu_jobs (f q)) = insort_key (rank_of (sv_mem st)) p (jobs_in (qu_jobs q))"
    and "qu_numjobs (f q) = qu_numjobs q + 1" and "qu_njstate (f q) = add_at (qs p) 1 (qu_njstate q)"
  shows "svr_inv ss qs (upd_queue n f (upd_job p (\<lambda>j. j\<lparr>ji_qhdr := Some n\<rparr>) st))"
proof -
  let ?mem = "(sv_mem st)(p := (sv_mem st p)\<lparr>ji_qhdr := Some n\<rparr>)" and ?alls = "jobs_in (alljobs st)"
  have Q: "queue_ok (sv_mem st) qs ?alls m r" if "map_of (svr_queues st) m = Some r" for m r
    using assms(1) that unfolding svr_inv_def by blast
  have J: "qs p < PBS_NUMJOBSTATE" using assms(1,3) unfolding svr_inv_def by blast
  have old: "p \<notin> set (jobs_in (qu_jobs r))" if "map_of (svr_queues st) m = Some r" for m r
    using queue_ok_mem [OF Q [OF that], of p] assms(4) by auto
  let ?st' = "upd_queue n f (upd_job p (\<lambda>j. j\<lparr>ji_qhdr := Some n\<rparr>) st)"
  have mem: "sv_mem ?st' = ?mem" by simp
  have mo: "map_of (svr_queues ?st') m = (if m = n then Some (f q) else map_of (svr_queues st) m)" for m
    by (simp add: map_of_upd_queue assms(2))
  have same: "alljobs ?st' = alljobs st" "sv_numjobs ?st' = sv_numjobs st" "sv_jobstates ?st' = sv_jobstates st"
    "map fst (svr_queues ?st') = map fst (svr_queues st)" by (simp_all add: upd_job_def upd_queue_def)
  have q': "queue_ok ?mem qs ?alls m r" if "map_of (svr_queues ?st') m = Some r" for m r
    using that queue_ok_join [OF Q [OF assms(2)] assms(3) J assms(5-8) old [OF assms(2)]] queue_ok_unlinked [OF Q old]
    unfolding mo by (auto split: if_splits)
  have l: "list_ok True ?mem (alljobs st)"
  proof -
    have "ji_jobid (?mem x) = ji_jobid (sv_mem st x)" for x by simp
    then show ?thesis using assms(1) by (simp add: svr_inv_def list_ok_def del: fun_upd_apply)
  qed
  have j: "\<exists>r. map_of (svr_queues ?st') m = Some r \<and> x \<in> set (jobs_in (qu_jobs r))"
    if "x \<in> set ?alls" "ji_qhdr (?mem x) = Some m" for x m
  proof (cases "x = p")
    case True
    then show ?thesis using that(2) unfolding mo by (simp add: assms(6) set_insort_key)
  next
    case False
    then have x: "x \<in> set ?alls" "ji_qhdr (sv_mem st x) = Some m" using that by auto
    then obtain r where "map_of (svr_queues st) m = Some r" "x \<in> set (jobs_in (qu_jobs r))"
      using assms(1) unfolding svr_inv_def by blast
    then show ?thesis unfolding mo using assms(2) arg_cong [OF assms(6), of set] by (cases "m = n") (auto simp: set_insort_key)
  qed
  have t: "\<not> ji_is_array_template (?mem x)" if "x \<in> set ?alls" for x
    using assms(1) that unfolding svr_inv_def by (cases "x = p") auto
  have b: "\<forall>x \<in> set ?alls. ss x < PBS_NUMJOBSTATE \<and> qs x < PBS_NUMJOBSTATE" using assms(1) by (simp add: svr_inv_def)
  have c: "sv_numjobs st = int (length ?alls) \<and> sv_jobstates st = tallies ss ?alls \<and> distinct (map fst (svr_queues st))"
    using assms(1) by (simp add: svr_inv_def)
  show ?thesis unfolding svr_inv_def mem same using l c q' t b j by blast
qed

section \<open>The attributes and the summary\<close>

lemma enque_summary_inv [simp]:
  "svr_inv ss qs (enque_summary env p st) = svr_inv ss qs st" "sv_mem (enque_summary env p st) = sv_mem st"
  "alljobs (enque_summary env p st) = alljobs st" "svr_queues (enque_summary env p st) = svr_queues st"
  "sv_names (enque_summary env p st) = sv_names st" "users (enque_summary env p st) = users st"
  by (simp_all add: enque_summary_def)

lemma set_chkpt_same: "set_chkpt_deflt q j = Some j' \<Longrightarrow> same_job j j' \<and> atr_depend j' = atr_depend j"
  by (auto simp: set_chkpt_deflt_def same_job_def same_place_def split: option.splits if_splits)

lemma enque_typed_effect:
  assumes "\<not> atr_depend j"
  obtains j' b where "enque_typed env p q j st = (PBSE_NONE, if b then (upd_job p (\<lambda>_. j') st)\<lparr>svr_do_schedule := SCH_SCHEDULE_NEW\<rparr>
      else upd_job p (\<lambda>_. j') st)" "same_job j j'"
proof (cases "qu_type q = QTYPE_Execution")
  case True
  let ?j = "j\<lparr>ji_un_type := JOB_UNION_TYPE_EXEC, atr_checkpoint := eval_checkpoint (qe_checkpoint_min q) (atr_checkpoint j)\<rparr>"
  let ?j' = "if atr_etime ?j = None \<and> ji_state ?j = JOB_STATE_QUEUED then ?j\<lparr>atr_etime := Some (time_now env)\<rparr> else ?j"
  have "enque_typed env p q j st = (PBSE_NONE, (upd_job p (\<lambda>_. ?j') st)\<lparr>svr_do_schedule := SCH_SCHEDULE_NEW\<rparr>)"
    using True assms by (simp add: enque_typed_def Let_def)
  then show ?thesis by (intro that [of True ?j']) (simp_all add: same_job_def same_place_def)
next
  case False
  let ?j' = "if qu_type q = QTYPE_RoutePush then j\<lparr>ji_un_type := JOB_UNION_TYPE_ROUTE\<rparr> else j"
  have "enque_typed env p q j st = (PBSE_NONE, upd_job p (\<lambda>_. ?j') st)" using False by (simp add: enque_typed_def)
  then show ?thesis by (intro that [of False ?j']) (simp_all add: same_job_def same_place_def)
qed

text \<open>A job without dependencies gets its attributes, and the lists and counts stay.\<close>

lemma enque_attrs_effect:
  assumes "svr_inv ss qs st" and "map_of (svr_queues st) n = Some q" and "\<not> atr_depend (sv_mem st p)"
    and "csv_find_string (atr_checkpoint (sv_mem st p)) (Some ''u'') \<noteq> None"
  obtains st' where "enque_attrs env p n st = Some (PBSE_NONE, st')" "svr_inv ss qs st'" "quiet st st'" "svr_queues st' = svr_queues st"
proof -
  define j0 where "j0 = (sv_mem st p)\<lparr>atr_in_queue := n, atr_queuetype := (if qu_qtype_str q = [] then NUL else hd (qu_qtype_str q))\<rparr>"
  define j1 where "j1 = (if atr_qtime j0 = None \<and> \<not> ji_is_array_template j0 then j0\<lparr>atr_qtime := Some (time_now env)\<rparr> else j0)"
  have s1: "same_job (sv_mem st p) j1" "\<not> atr_depend j1" "atr_checkpoint j1 = atr_checkpoint (sv_mem st p)"
    using assms(3) by (simp_all add: j1_def j0_def same_job_def same_place_def)
  have "set_chkpt_deflt q j1 \<noteq> None"
    using assms(4) s1(3) by (auto simp: set_chkpt_deflt_def split: option.splits)
  then obtain j2 where j2: "set_chkpt_deflt q j1 = Some j2" by blast
  have s2: "same_job (sv_mem st p) j2" "\<not> atr_depend j2" using set_chkpt_same [OF j2] s1 same_job_trans by auto
  have e: "enque_attrs env p n st = Some (enque_typed env p q j2 st)"
    unfolding enque_attrs_def assms(2) option.case Let_def j0_def [symmetric] j1_def [symmetric] j2 by simp
  obtain j' b where t: "enque_typed env p q j2 st = (PBSE_NONE, if b then (upd_job p (\<lambda>_. j') st)\<lparr>svr_do_schedule := SCH_SCHEDULE_NEW\<rparr>
      else upd_job p (\<lambda>_. j') st)" and s: "same_job j2 j'" by (rule enque_typed_effect [OF s2(2)])
  have s': "same_job (sv_mem st p) j'" using s2(1) s same_job_trans by blast
  let ?st1 = "upd_job p (\<lambda>_. j') st"
  have "svr_inv ss qs ?st1" by (rule svr_inv_upd_job [OF assms(1)]) (use s' in \<open>simp add: same_job_def\<close>)
  moreover have q1: "quiet st ?st1" by (rule quiet_upd_job) (use s' in simp)
  moreover have "quiet st (?st1\<lparr>svr_do_schedule := SCH_SCHEDULE_NEW\<rparr>)" by (rule quiet_trans [OF q1]) simp
  ultimately show ?thesis using that [of "if b then ?st1\<lparr>svr_do_schedule := SCH_SCHEDULE_NEW\<rparr> else ?st1"] e t by simp
qed

section \<open>Entering a queue\<close>

text \<open>A job that is found by its own name: no brackets, and a name that needs no completion.\<close>

definition own_name :: "svr \<Rightarrow> char list \<Rightarrow> bool" where
  "own_name st jobid \<longleftrightarrow> fst (find_job_key (sv_names st) jobid False) = jobid \<and>
     \<not> has_brackets (fst (snd (find_job_key (sv_names st) jobid False)))"

lemma find_listed:
  assumes "list_ok True (sv_mem st) (alljobs st)" and "p \<in> set (jobs_in (alljobs st))"
    and "\<not> ji_being_recycled (sv_mem st p)" and "own_name st (ji_jobid (sv_mem st p))"
  shows "svr_find_job st (ji_jobid (sv_mem st p)) False = Some p"
proof -
  let ?L = "named (sv_mem st) (jobs_in (alljobs st))" and ?id = "ji_jobid (sv_mem st p)"
  have h: "holds True (alljobs st) ?L" using assms(1) by (simp add: list_ok_def)
  have "(?id, p) \<in> set ?L" using assms(2) by auto
  then have "map_of ?L ?id = Some p" by (rule map_of_is_SomeI [OF holds_distinct [OF h]])
  then have f: "find_job_by_array st (alljobs st) ?id False = Some p"
    using assms(3) holds_find [OF h] by (simp add: find_job_by_array_def)
  obtain comp jid dash where k: "find_job_key (sv_names st) ?id False = (comp, jid, dash)" by (rule prod_cases3)
  have "comp = ?id" "\<not> has_brackets jid" using assms(4) k by (simp_all add: own_name_def)
  then show ?thesis by (simp add: svr_find_job_def k f)
qed

lemma by_rank_returns:
  assumes "walk_all True aj \<noteq> None" and "svr_find_job st jobid False \<noteq> None"
  obtains aj' where "insert_into_alljobs_by_rank env st p jobid aj = Some (PBSE_NONE, aj')"
  | "insert_into_alljobs_by_rank env st p jobid aj = Some (ALREADY_IN_LIST, aj)"
proof -
  note goal = that
  obtain ps pj where w: "walk_all True aj = Some ps" and f: "svr_find_job st jobid False = Some pj" using assms by blast
  note d = insert_into_alljobs_by_rank_def by_rank_search_def by_rank_link_def w f
  show ?thesis
  proof (cases "rank_scan (sv_mem st) (rank_of (sv_mem st) p) jobid ps")
    case Already
    then show ?thesis by (intro goal(2)) (simp add: d)
  next
    case (Behind cur)
    then show ?thesis by (intro goal(1)) (simp add: d)
  next
    case Front
    then show ?thesis by (intro goal(1)) (simp add: d)
  qed
qed

lemma enque_array_sum_effect:
  assumes "svr_inv ss qs st" and "map_of (svr_queues st) n = Some q" and "\<not> atr_depend (sv_mem st p)"
    and "csv_find_string (atr_checkpoint (sv_mem st p)) (Some ''u'') \<noteq> None"
    and "walk_all True (qu_jobs_array_sum q) \<noteq> None" and "svr_find_job st jobid False \<noteq> None"
  obtains st' q' where "enque_array_sum env p jobid n st = Some (PBSE_NONE, st')" "svr_inv ss qs st'" "quiet st st'"
    "map_of (svr_queues st') n = Some q'" "qu_jobs q' = qu_jobs q"
proof -
  note goal = that
  show ?thesis
  proof (cases "ji_is_array_template (sv_mem st p) \<or> ji_arraystructid (sv_mem st p) = []")
    case False
    obtain st' where "enque_attrs env p n st = Some (PBSE_NONE, st')" "svr_inv ss qs st'" "quiet st st'" "svr_queues st' = svr_queues st"
      by (rule enque_attrs_effect [OF assms(1-4)])
    then show ?thesis using goal [of st' q] False assms(2) by (simp add: enque_array_sum_def)
  next
    case True
    from assms(5,6) show ?thesis
    proof (rule by_rank_returns [of _ st jobid env p])
      fix aj
      assume r: "insert_into_alljobs_by_rank env st p jobid (qu_jobs_array_sum q) = Some (PBSE_NONE, aj)"
      let ?st1 = "upd_queue n (\<lambda>q. q\<lparr>qu_jobs_array_sum := aj\<rparr>) st"
      have i: "svr_inv ss qs ?st1" by (rule svr_inv_upd_queue [OF assms(1)]) simp
      have m: "map_of (svr_queues ?st1) n = Some (q\<lparr>qu_jobs_array_sum := aj\<rparr>)" using assms(2) by (simp add: map_of_upd_queue)
      obtain st' where e: "enque_attrs env p n ?st1 = Some (PBSE_NONE, st')" "svr_inv ss qs st'" "quiet ?st1 st'" "svr_queues st' = svr_queues ?st1"
        by (rule enque_attrs_effect [OF i m]) (use assms(3,4) in simp_all)
      have "quiet st st'" using quiet_trans [OF quiet_upd_queue e(3)] .
      then show ?thesis using goal [of st' "q\<lparr>qu_jobs_array_sum := aj\<rparr>"] e m True r assms(2) by (simp add: enque_array_sum_def)
    next
      assume "insert_into_alljobs_by_rank env st p jobid (qu_jobs_array_sum q) = Some (ALREADY_IN_LIST, qu_jobs_array_sum q)"
      then show ?thesis using goal [of st q] True assms(1,2) by (simp add: enque_array_sum_def)
    qed
  qed
qed

lemma increment_keeps: "increment_queued_jobs m g uih j = (rc, uih', j') \<Longrightarrow>
  atr_depend j' = atr_depend j \<and> atr_checkpoint j' = atr_checkpoint j \<and> ji_being_recycled j' = ji_being_recycled j"
  by (auto simp: increment_queued_jobs_def Let_def split: if_splits option.splits prod.splits)

lemma enque_count_queue_effect:
  assumes "map_of (svr_queues st) n = Some q" 
  obtains j us f where "enque_count_queue env p n aj st = (upd_job p (\<lambda>_. j) (upd_queue n f st))\<lparr>users := us\<rparr>"
    "same_job (sv_mem st p) j" "atr_depend j = atr_depend (sv_mem st p)" "atr_checkpoint j = atr_checkpoint (sv_mem st p)"
    "ji_being_recycled j = ji_being_recycled (sv_mem st p)"
    "qu_jobs (f q) = aj" "qu_numjobs (f q) = qu_numjobs q + 1" "qu_njstate (f q) = add_at (ji_state (sv_mem st p)) 1 (qu_njstate q)"
    "qu_jobs_array_sum (f q) = qu_jobs_array_sum q"
proof -
  obtain rc uih j1 where 1: "increment_queued_jobs (user_space env) False (qu_uih q) (sv_mem st p) = (rc, uih, j1)" by (rule prod_cases3)
  obtain rc2 us j where 2: "increment_queued_jobs (user_space env) True (users st) j1 = (rc2, us, j)" by (rule prod_cases3)
  have s: "same_job (sv_mem st p) j" using increment_same_job [OF 1] increment_same_job [OF 2] same_job_trans by blast
  show ?thesis
    using that [where j = j and us = us and f = "\<lambda>q. q\<lparr>qu_jobs := aj, qu_numjobs := qu_numjobs q + 1,
        qu_njstate := add_at (ji_state j) 1 (qu_njstate q), qu_uih := uih\<rparr>"]
      s increment_keeps [OF 1] increment_keeps [OF 2] 1 2 assms
    by (simp add: enque_count_queue_def same_job_def)
qed

text \<open>The queue's half: the job is in the list of all jobs already.\<close>

lemma enque_queue_effect:
  assumes "svr_ok st" and "p \<in> set (jobs_in (alljobs st))" and "ji_qhdr (sv_mem st p) = None" and "map_of (svr_queues st) n = Some q"
    and "\<forall>x \<in> set (jobs_in (qu_jobs q)). ji_jobid (sv_mem st x) \<noteq> ji_jobid (sv_mem st p) \<and> ji_jobid (sv_mem st x) \<noteq> []"
    and "\<not> ji_being_recycled (sv_mem st p)" and "own_name st (ji_jobid (sv_mem st p))" and "\<And>k. heap_has env k"
    and "st3 = upd_job p (\<lambda>j. j\<lparr>ji_qhdr := Some n\<rparr>) st"
  obtains qa st4 q4 where "insert_into_alljobs_by_rank env st3 p (ji_jobid (sv_mem st p)) (qu_jobs q) = Some (PBSE_NONE, qa)"
    "enque_count_queue env p n qa st3 = st4" "svr_ok st4" "alljobs st4 = alljobs st" "map_of (svr_queues st4) n = Some q4"
    "jobs_in (qu_jobs q4) = insort_key (rank_of (sv_mem st)) p (jobs_in (qu_jobs q))" "qu_jobs_array_sum q4 = qu_jobs_array_sum q"
    "atr_depend (sv_mem st4 p) = atr_depend (sv_mem st p)" "atr_checkpoint (sv_mem st4 p) = atr_checkpoint (sv_mem st p)"
    "svr_find_job st4 (ji_jobid (sv_mem st p)) False = Some p"
proof -
  let ?ss = "states st" and ?id = "ji_jobid (sv_mem st p)" and ?mem = "sv_mem st"
  have i: "svr_inv ?ss ?ss st" using assms(1) by (simp add: svr_ok_def)
  have Q: "queue_ok ?mem ?ss (jobs_in (alljobs st)) n q" using i assms(4) unfolding svr_inv_def by blast
  have m3: "ji_jobid (sv_mem st3 x) = ji_jobid (?mem x)" "rank_of (sv_mem st3) x = rank_of ?mem x"
    "ji_being_recycled (sv_mem st3 x) = ji_being_recycled (?mem x)" "ji_state (sv_mem st3 x) = ji_state (?mem x)"
    "atr_depend (sv_mem st3 x) = atr_depend (?mem x)" "atr_checkpoint (sv_mem st3 x) = atr_checkpoint (?mem x)" for x
    by (simp_all add: assms(9))
  have q3: "map_of (svr_queues st3) n = Some q" "alljobs st3 = alljobs st" "sv_names st3 = sv_names st"
    using assms(4) by (simp_all add: assms(9) upd_job_def)
  have f3: "svr_find_job st3 (ji_jobid (sv_mem st3 p)) False = Some p"
    by (rule find_listed) (use i assms(2,6,7) in \<open>simp_all add: q3 m3 svr_inv_def list_ok_def own_name_def\<close>)
  obtain qa where r: "insert_into_alljobs_by_rank env st3 p (ji_jobid (sv_mem st3 p)) (qu_jobs q) = Some (PBSE_NONE, qa)"
    "list_ok False (sv_mem st3) qa" "jobs_in qa = insort_key (rank_of (sv_mem st3)) p (jobs_in (qu_jobs q))"
  proof (rule by_rank_effect [OF _ _ _ f3])
    show "list_ok False (sv_mem st3) (qu_jobs q)" "sorted (map (rank_of (sv_mem st3)) (jobs_in (qu_jobs q)))"
      using Q unfolding queue_ok_def list_ok_def m3 by blast+
    show "\<forall>x \<in> set (jobs_in (qu_jobs q)). ji_jobid (sv_mem st3 x) \<noteq> ji_jobid (sv_mem st3 p) \<and> ji_jobid (sv_mem st3 x) \<noteq> []"
      unfolding m3 by (rule assms(5))
  qed (use assms(8) in auto)
  have jq: "jobs_in qa = insort_key (rank_of ?mem) p (jobs_in (qu_jobs q))" using r(3) unfolding m3 .
  obtain j us f where c: "enque_count_queue env p n qa st3 = (upd_job p (\<lambda>_. j) (upd_queue n f st3))\<lparr>users := us\<rparr>"
    "same_job (sv_mem st3 p) j" "atr_depend j = atr_depend (sv_mem st3 p)" "atr_checkpoint j = atr_checkpoint (sv_mem st3 p)"
    "ji_being_recycled j = ji_being_recycled (sv_mem st3 p)"
    "qu_jobs (f q) = qa" "qu_numjobs (f q) = qu_numjobs q + 1" "qu_njstate (f q) = add_at (ji_state (sv_mem st3 p)) 1 (qu_njstate q)"
    "qu_jobs_array_sum (f q) = qu_jobs_array_sum q" by (rule enque_count_queue_effect [OF q3(1)])
  let ?st4 = "enque_count_queue env p n qa st3"
  have "svr_inv ?ss ?ss (upd_queue n f st3)" unfolding assms(9)
  proof (rule svr_inv_enter [OF i assms(4,2,3)])
    show "list_ok False ?mem (qu_jobs (f q))" unfolding c(6) using r(2) unfolding list_ok_def m3 .
    show "jobs_in (qu_jobs (f q)) = insort_key (rank_of ?mem) p (jobs_in (qu_jobs q))" unfolding c(6) by (rule jq)
  qed (simp_all only: c(7,8) m3)
  then have i4: "svr_inv ?ss ?ss ?st4" unfolding c(1) svr_inv_frame
    by (rule svr_inv_upd_job) (use c(2) in \<open>simp add: same_job_def\<close>)
  have p4: "ji_state j = ?ss p" "ji_jobid j = ?id" using c(2) m3 by (simp_all add: same_job_def same_place_def)
  have s4: "states ?st4 = ?ss" unfolding c(1) using p4(1) m3(4) by auto
  have k4: "alljobs ?st4 = alljobs st" "sv_names ?st4 = sv_names st" "sv_mem ?st4 p = j" "map_of (svr_queues ?st4) n = Some (f q)"
    unfolding c(1) using q3 by (simp_all add: map_of_upd_queue) (simp add: upd_job_def upd_queue_def)
  have "svr_ok ?st4" using i4 s4 by (simp add: svr_ok_def)
  moreover have "svr_find_job ?st4 (ji_jobid (sv_mem ?st4 p)) False = Some p"
    by (rule find_listed) (use i4 assms(2,6,7) c(5) m3(3) p4 in \<open>simp_all add: k4 svr_inv_def own_name_def\<close>)
  ultimately show ?thesis using that [OF _ refl _ k4(1) k4(4)] r(1) jq c k4(3) p4 m3 by simp
qed

text \<open>
  A job that can enter: it is in no list, no other job has its name, it is not being recycled, it has no
  dependencies, and its checkpoint options can be searched.
\<close>

definition new_job :: "svr \<Rightarrow> nat \<Rightarrow> bool" where
  "new_job st p \<longleftrightarrow>
     (\<forall>x \<in> set (jobs_in (alljobs st)). ji_jobid (sv_mem st x) \<noteq> ji_jobid (sv_mem st p) \<and> ji_jobid (sv_mem st x) \<noteq> []) \<and>
     ji_qhdr (sv_mem st p) = None \<and> \<not> ji_is_array_template (sv_mem st p) \<and> \<not> ji_being_recycled (sv_mem st p) \<and>
     ji_state (sv_mem st p) < PBS_NUMJOBSTATE \<and> \<not> atr_depend (sv_mem st p) \<and>
     csv_find_string (atr_checkpoint (sv_mem st p)) (Some ''u'') \<noteq> None \<and> own_name st (ji_jobid (sv_mem st p))"

lemma enque_join_effect:
  assumes "svr_ok st" and "new_job st p" and "\<And>k. heap_has env k"
  obtains st2 where "enque_summary env p (enque_alljobs env p None st) = st2" "svr_ok st2" "jobs_in (alljobs st2) = jobs_in (alljobs st) @ [p]"
    "sv_mem st2 = sv_mem st" "svr_queues st2 = svr_queues st" "sv_names st2 = sv_names st"
proof -
  let ?ss = "states st" and ?id = "ji_jobid (sv_mem st p)" and ?mem = "sv_mem st"
  have i: "svr_inv ?ss ?ss st" using assms(1) by (simp add: svr_ok_def)
  have N: "\<forall>x \<in> set (jobs_in (alljobs st)). ji_jobid (?mem x) \<noteq> ?id" "ji_qhdr (?mem p) = None"
    "\<not> ji_is_array_template (?mem p)" "?ss p < PBS_NUMJOBSTATE" using assms(2) unfolding new_job_def by blast+
  have l: "list_ok True ?mem (alljobs st)" using i unfolding svr_inv_def by blast
  obtain aj where a: "cinsert (heap_has env) p ?id False (alljobs st) = (True, aj)" "list_ok True ?mem aj"
    "jobs_in aj = jobs_in (alljobs st) @ [p]" by (rule insert_alljobs_effect [OF l N(1), of "heap_has env"]) (use assms(3) in auto)
  let ?st1 = "st\<lparr>alljobs := aj, sv_numjobs := sv_numjobs st + 1, sv_jobstates := add_at (?ss p) 1 (sv_jobstates st)\<rparr>"
  have "svr_inv ?ss ?ss ?st1" by (rule svr_inv_join [OF i N(2,3,4,4) a(2,3)])
  then have "svr_ok (enque_summary env p ?st1)" by (simp add: svr_ok_def)
  moreover have "enque_alljobs env p None st = ?st1" using N(3) a(1) by (simp add: enque_alljobs_def Let_def)
  ultimately show ?thesis using that [of "enque_summary env p ?st1"] a(3) by simp
qed

lemma enque_link_effect:
  assumes "svr_ok st" and "new_job st p" and "map_of (svr_queues st) n = Some q" and "walk_all True (qu_jobs_array_sum q) \<noteq> None"
    and "\<And>k. heap_has env k"
  shows "\<exists>st' q'. enque_link env p (ji_jobid (sv_mem st p)) None n st = Some (PBSE_NONE, st') \<and> svr_ok st' \<and>
    jobs_in (alljobs st') = jobs_in (alljobs st) @ [p] \<and> map_of (svr_queues st') n = Some q' \<and>
    jobs_in (qu_jobs q') = insort_key (rank_of (sv_mem st)) p (jobs_in (qu_jobs q))"
proof -
  let ?id = "ji_jobid (sv_mem st p)"
  have N: "\<forall>x \<in> set (jobs_in (alljobs st)). ji_jobid (sv_mem st x) \<noteq> ?id \<and> ji_jobid (sv_mem st x) \<noteq> []" "ji_qhdr (sv_mem st p) = None"
    "\<not> ji_is_array_template (sv_mem st p)" "\<not> ji_being_recycled (sv_mem st p)" "\<not> atr_depend (sv_mem st p)"
    "csv_find_string (atr_checkpoint (sv_mem st p)) (Some ''u'') \<noteq> None" "own_name st ?id"
    using assms(2) unfolding new_job_def by blast+
  have Q: "queue_ok (sv_mem st) (states st) (jobs_in (alljobs st)) n q" using assms(1,3) unfolding svr_ok_def svr_inv_def by blast
  obtain st2 where 2: "enque_summary env p (enque_alljobs env p None st) = st2" "svr_ok st2" "jobs_in (alljobs st2) = jobs_in (alljobs st) @ [p]"
    "sv_mem st2 = sv_mem st" "svr_queues st2 = svr_queues st" "sv_names st2 = sv_names st"
    by (rule enque_join_effect [OF assms(1,2), of env]) (use assms(5) in auto)
  define st3 where "st3 = upd_job p (\<lambda>j. j\<lparr>ji_qhdr := Some n\<rparr>) st2"
  have ids: "\<forall>x \<in> set (jobs_in (qu_jobs q)). ji_jobid (sv_mem st2 x) \<noteq> ji_jobid (sv_mem st2 p) \<and> ji_jobid (sv_mem st2 x) \<noteq> []"
    unfolding 2 using N(1) queue_ok_mem [OF Q] by blast
  have a2: "p \<in> set (jobs_in (alljobs st2))" "ji_qhdr (sv_mem st2 p) = None" "map_of (svr_queues st2) n = Some q"
    "\<not> ji_being_recycled (sv_mem st2 p)" "own_name st2 (ji_jobid (sv_mem st2 p))" using N 2 assms(3) by (simp_all add: own_name_def)
  obtain qa st4 q4 where 4: "insert_into_alljobs_by_rank env st3 p (ji_jobid (sv_mem st2 p)) (qu_jobs q) = Some (PBSE_NONE, qa)"
    "enque_count_queue env p n qa st3 = st4" "svr_ok st4" "alljobs st4 = alljobs st2" "map_of (svr_queues st4) n = Some q4"
    "jobs_in (qu_jobs q4) = insort_key (rank_of (sv_mem st2)) p (jobs_in (qu_jobs q))" "qu_jobs_array_sum q4 = qu_jobs_array_sum q"
    "atr_depend (sv_mem st4 p) = atr_depend (sv_mem st2 p)" "atr_checkpoint (sv_mem st4 p) = atr_checkpoint (sv_mem st2 p)"
    "svr_find_job st4 (ji_jobid (sv_mem st2 p)) False = Some p"
    by (rule enque_queue_effect [OF 2(2) a2(1-3) ids a2(4,5) assms(5) st3_def])
  have i4: "svr_inv (states st4) (states st4) st4" using 4(3) by (simp add: svr_ok_def)
  obtain st5 q5 where 5: "enque_array_sum env p ?id n st4 = Some (PBSE_NONE, st5)" "svr_inv (states st4) (states st4) st5" "quiet st4 st5"
    "map_of (svr_queues st5) n = Some q5" "qu_jobs q5 = qu_jobs q4"
    by (rule enque_array_sum_effect [OF i4 4(5), of p ?id env]) (use N 2 4 assms(4) in simp_all)
  have t3: "\<not> ji_is_array_template (sv_mem st3 p)" "map_of (svr_queues st3) n = Some q" using N(3) 2 assms(3) by (simp_all add: st3_def)
  have "enque_link env p ?id None n st = Some (PBSE_NONE, st5)"
    unfolding enque_link_def 2(1) Let_def st3_def [symmetric] using t3 4(1,2) 5(1) 2(4) by simp
  moreover have "svr_ok st5" using 5(2) quiet_states [OF 5(3)] by (simp add: svr_ok_def)
  moreover have "alljobs st5 = alljobs st2" using 5(3) 4(4) by (simp add: quiet_def)
  ultimately show ?thesis using 2(3,4) 4(6) 5(4,5) by auto
qed


lemma demo_new_job: "new_job demo_svr 2"
proof -
  have "csv_find_string (atr_checkpoint (sv_mem demo_svr 2)) (Some ''u'') \<noteq> None"
    by (simp add: demo_job_def csv_find_string_def csv_length_def)
  moreover have "own_name demo_svr (ji_jobid (sv_mem demo_svr 2))"
    by (simp add: own_name_def find_job_key_def demo_svr_def demo_mem_def snprintf_text_def PBS_MAXSVRJOBID_def
        PBS_MAXSEQNUM_def PBS_MAXSERVERNAME_def PBS_MAXPORTNUM_def PBS_MAXJOBARRAYLEN_def Let_def)
  ultimately show ?thesis unfolding new_job_def by (simp add: PBS_NUMJOBSTATE_def) (simp add: demo_job_def)
qed


end
