(* ===== verification/Spec2Isabelle.thy ===== *)
theory Spec2Isabelle
  imports Torque_Base Tcp_Chan Dis_Write Dis_Read Dis_Codec Dis_Props Batch_Attr Batch_Msg Batch_Request
    Attr_Base Attr_Num Attr_Num_Props Attr_Arst Attr_Arst_Laws Attr_Arst_Props Attr_Acl Attr_Acl_Props
    C_Text Range_String Slot_Tracker Id_Map Node_Slots Node_Props Node_Accept Exec_Host Restart
    Container Container_Laws Container_Props Job_Names Csv Job_State Job_Queue Job_Inv Job_Demo Job_Props
    Job_Recount Job_Deque Job_Enque
begin

text \<open>
  TORQUE is a batch system: clients and daemons exchange batch requests over TCP in the \<^emph>\<open>Data is
  Strings\<close> encoding, and the server \<^verbatim>\<open>pbs_server\<close> keeps jobs, queues and compute nodes.  This development
  models four parts and how they meet: the wire protocol from the socket buffer up to the request bodies;
  the attributes of jobs, queues and the server, which travel in these requests; the lists, states and
  counts of jobs and queues; and the execution slots of nodes that jobs get and recover after a restart.
  Paths are below \<^verbatim>\<open>src/src\<close>.

  \<^bold>\<open>The wire\<close> (\<^verbatim>\<open>lib/Libdis\<close>, \<^verbatim>\<open>lib/Libifl\<close>, \<^verbatim>\<open>server/dis_read.c\<close>).
  \<^item> \<open>Torque_Base\<close>: error codes, C integers as words, decimal text, and the lemma collections.
  \<^item> \<open>Tcp_Chan\<close> (\<^verbatim>\<open>tcp_dis.c\<close>): the channel with its read and write buffers, their pointers and the
    operations on them; the socket is a list of chunks to read and of write sizes.
  \<^item> \<open>Dis_Write\<close>, \<open>Dis_Read\<close> (\<^verbatim>\<open>disw*.c\<close>, \<^verbatim>\<open>disr*.c\<close>): writers and readers of integers and counted strings.
  \<^item> \<open>Dis_Codec\<close> and \<open>Dis_Props\<close>: the interface \<open>dis_codec\<close> that a writer and its reader fulfil, its
    interpretations, and the properties of the encoding (exact transfer, prefix-freeness, roll back).
  \<^item> \<open>Batch_Attr\<close>, \<open>Batch_Msg\<close>, \<open>Batch_Request\<close> (\<^verbatim>\<open>enc_*.c\<close>, \<^verbatim>\<open>dec_*.c\<close>, \<^verbatim>\<open>PBSD_*.c\<close>, \<^verbatim>\<open>dis_read.c\<close>):
    attribute lists, request bodies, and the request as a whole, sent by a client or by the server and
    read back by \<open>dis_request_read\<close>.

  \<^bold>\<open>Attributes\<close> (\<^verbatim>\<open>lib/Libattr\<close>, \<^verbatim>\<open>include/attribute.h\<close>).
  \<^item> \<open>Attr_Base\<close> (\<^verbatim>\<open>attr_func.c\<close>): a value with its flags and the entry that an encoder creates.  The interface
    \<open>attribute_type\<close> states what the decoder and the encoder of a type promise; its lemmas are the round trip
    and the transfer of an attribute to another server.
  \<^item> \<open>Attr_Num\<close> (\<^verbatim>\<open>attr_fn_l.c\<close>, \<^verbatim>\<open>attr_fn_b.c\<close>, \<^verbatim>\<open>attr_fn_size.c\<close>, \<^verbatim>\<open>attr_fn_time.c\<close>) and \<open>Attr_Num_Props\<close>: numbers,
    booleans, sizes and times; each is an \<open>attribute_type\<close>, and sizes compare and add as numbers of bytes.
  \<^item> \<open>Attr_Arst\<close> (\<^verbatim>\<open>attr_fn_arst.c\<close>): arrays of strings in one buffer with pointers into it.  \<open>Attr_Arst_Laws\<close> relates
    the buffer to the list of its strings (\<open>arst_holds\<close>), and \<open>Attr_Arst_Props\<close> shows that \<open>set_arst\<close> is an operation on
    lists, keeps the invariant whichever allocations fail, and that decoding stays in bounds and inverts encoding.
  \<^item> \<open>Attr_Acl\<close> (\<^verbatim>\<open>attr_fn_acl.c\<close>) and \<open>Attr_Acl_Props\<close>: access control lists, what their entries match, the order
    in which they are kept, and which entry decides.

  \<^bold>\<open>Jobs and queues\<close> (\<^verbatim>\<open>include/container.hpp\<close>, \<^verbatim>\<open>server/job_container.c\<close>, \<^verbatim>\<open>server/svr_jobfunc.c\<close>, \<^verbatim>\<open>server/user_info.c\<close>).
  \<^item> \<open>Container\<close>: the slot array with its links, free slot and map from names that every job list is;
    \<open>Container_Laws\<close> and \<open>Container_Props\<close>: it refines a list of named items.  The interfaces \<open>named_list\<close>, \<open>append_list\<close>
    and \<open>rank_list\<close> are what the queues use of it.
  \<^item> \<open>Job_Names\<close> (\<^verbatim>\<open>job_container.c\<close>) and \<open>Csv\<close> (\<^verbatim>\<open>lib/Libcsv/csv.c\<close>): completion of job names, lookup of jobs and
    sub-jobs, and lists separated by commas.
  \<^item> \<open>Job_State\<close>, \<open>Job_Queue\<close>: changing the state of a job in the steps between which its lock is released,
    entering and leaving a queue, and the recount.  \<open>Job_Inv\<close> states that every count of the server and of the queues is
    the number of jobs it stands for; \<open>Job_Props\<close>, \<open>Job_Enque\<close>, \<open>Job_Deque\<close> and \<open>Job_Recount\<close> show what keeps and what repairs the
    counts, and \<open>Job_Demo\<close> has concrete states.

  \<^bold>\<open>Nodes\<close> (\<^verbatim>\<open>server\<close>, \<^verbatim>\<open>lib/Libutils\<close>).
  \<^item> \<open>C_Text\<close> (C library: \<open>strtol\<close>, \<open>strchr\<close>, \<open>snprintf\<close> of integers), \<open>Range_String\<close> (\<^verbatim>\<open>u_misc.c\<close>).
  \<^item> \<open>Slot_Tracker\<close> (\<^verbatim>\<open>execution_slot_tracker.cpp\<close>) with the interface \<open>slot_pool\<close>; \<open>Id_Map\<close> (\<^verbatim>\<open>id_map.cpp\<close>).
  \<^item> \<open>Node_Slots\<close> (\<^verbatim>\<open>node_manager.c\<close>, \<^verbatim>\<open>node_func.c\<close>, \<^verbatim>\<open>node_attr_def.c\<close>): acceptance of a node for a request,
    placement, release, and the change of \<open>np\<close>; \<open>Node_Props\<close> and \<open>Node_Accept\<close>: the invariant \<open>node_ok\<close>,
    the refinement of a map from slots to owners, and what acceptance promises for placement.
  \<^item> \<open>Exec_Host\<close>, \<open>Restart\<close>: the \<open>exec_host\<close> string that a run writes, and the recovery that reads it.

  \<^bold>\<open>Conventions and bounds.\<close>  A null dereference, an access outside a buffer, a failed assertion and a signed
  overflow are the value \<open>None\<close>; a theorem that a function returns excludes them.  Memory is an oracle that says which
  sizes can be allocated.  Loops are total functions with a measure, or partial functions whose termination is shown
  where the code needs it.  The scratch buffer of the number writers has 80 digits, which is shown to be enough;
  lengths that are \<open>int\<close>s in the code are natural numbers in \<open>Attr_Arst\<close> and \<open>Attr_Acl\<close>.

  \<^bold>\<open>Not modelled.\<close>  Threads and locks, except where the steps of \<open>svr_setjobstate\<close> release the lock of a job
  (elsewhere an operation runs with its locks held), logging, files and sockets beyond the byte streams, floating point in
  the encoding, the execution daemon, the schedulers, the command line tools and the vendored libraries.
\<close>

section \<open>Attributes over the wire\<close>



end
